(* ===== verification/Pevm_Prelude.thy ===== *)
theory Pevm_Prelude
  imports Main "HOL-Library.Word" "HOL-Library.Monad_Syntax"
begin

text \<open>
  Shared material of the development: the names of the machine types the Rust sources use, the
  \<^verbatim>\<open>saturating_*\<close> and \<^verbatim>\<open>abs_diff\<close> operations on unsigned words, big-endian byte
  strings, the wrap-around of \<^verbatim>\<open>usize\<close> counters, \<^verbatim>\<open>Vec::swap_remove\<close>, and the
  collections of facts that the component proofs hand to the simplifier.
\<close>

named_theorems sched_simps \<open>unfolding rules of the scheduler operations\<close>
named_theorems mem_simps \<open>rewrite rules of the multi-version memory\<close>
named_theorems perp_simps \<open>unfolding rules of the PerpDex operations\<close>

section \<open>Machine types\<close>

unbundle bit_operations_syntax

type_synonym u8 = "8 word"
type_synonym u16 = "16 word"
type_synonym u64 = "64 word"
type_synonym u256 = "256 word"
type_synonym i128 = "128 word" \<comment> \<open>read with \<^const>\<open>sint\<close>\<close>
type_synonym address = "160 word"
type_synonym b256 = "256 word"
type_synonym byte = "8 word"

text \<open>
  A \<^verbatim>\<open>usize\<close> is a natural number below \<open>2 ^ 64\<close>. Atomic \<^verbatim>\<open>fetch_add\<close> and
  \<^verbatim>\<open>fetch_sub\<close> wrap around.
\<close>

definition usize_add :: "nat \<Rightarrow> nat \<Rightarrow> nat" where
  "usize_add a b = (a + b) mod 2 ^ 64"

definition usize_sub :: "nat \<Rightarrow> nat \<Rightarrow> nat" where
  "usize_sub a b = (if b \<le> a then a - b else a + 2 ^ 64 - b)"

lemma usize_add_no_wrap: "a + b < 2 ^ 64 \<Longrightarrow> usize_add a b = a + b"
  by (simp add: usize_add_def)

lemma usize_sub_no_wrap [simp]: "b \<le> a \<Longrightarrow> usize_sub a b = a - b"
  by (simp add: usize_sub_def)

lemma usize_add_le: "usize_add a b \<le> a + b"
  by (simp add: usize_add_def)

section \<open>Saturating arithmetic\<close>

definition sat_add :: "'a::len word \<Rightarrow> 'a word \<Rightarrow> 'a word" where
  "sat_add a b = (if unat a + unat b < 2 ^ LENGTH('a) then a + b else - 1)"

definition sat_sub :: "'a::len word \<Rightarrow> 'a word \<Rightarrow> 'a word" where
  "sat_sub a b = (if a < b then 0 else a - b)"

definition sat_mul :: "'a::len word \<Rightarrow> 'a word \<Rightarrow> 'a word" where
  "sat_mul a b = (if unat a * unat b < 2 ^ LENGTH('a) then a * b else - 1)"

definition abs_diff :: "'a::len word \<Rightarrow> 'a word \<Rightarrow> 'a word" where
  "abs_diff a b = (if a < b then b - a else a - b)"

lemma unat_bound: "unat w < 2 ^ LENGTH('a)" for w :: "'a::len word"
  by (rule unsigned_less)

lemma unat_minus_1_word: "unat (- 1 :: 'a::len word) = 2 ^ LENGTH('a) - 1"
  by (simp add: unsigned_minus_1_eq_mask mask_eq_exp_minus_1)

lemma unat_sat_add:
  "unat (sat_add a b) = min (unat a + unat b) (2 ^ LENGTH('a) - 1)"
  for a b :: "'a::len word"
  by (auto simp: sat_add_def unat_minus_1_word unat_word_ariths)

lemma unat_sat_sub: "unat (sat_sub a b) = unat a - unat b"
  for a b :: "'a::len word"
  by (auto simp: sat_sub_def word_less_nat_alt unat_sub_if' not_less)

lemma unat_sat_mul:
  "unat (sat_mul a b) = min (unat a * unat b) (2 ^ LENGTH('a) - 1)"
  for a b :: "'a::len word"
  by (auto simp: sat_mul_def unat_minus_1_word unat_word_ariths)

lemma unat_abs_diff:
  "unat (abs_diff a b) = (if unat a < unat b then unat b - unat a else unat a - unat b)"
  for a b :: "'a::len word"
  by (auto simp: abs_diff_def word_less_nat_alt unat_sub_if' not_less)

section \<open>Big-endian bytes\<close>

text \<open>\<^verbatim>\<open>to_be_bytes\<close> at width \<open>k\<close>, and the value a byte slice denotes.\<close>

fun be_bytes :: "nat \<Rightarrow> nat \<Rightarrow> byte list" where
  "be_bytes 0 n = []"
| "be_bytes (Suc k) n = be_bytes k (n div 256) @ [of_nat n]"

definition of_be_bytes :: "byte list \<Rightarrow> nat" where
  "of_be_bytes bs = foldl (\<lambda>a b. a * 256 + unat b) 0 bs"

lemma length_be_bytes [simp]: "length (be_bytes k n) = k"
  by (induction k arbitrary: n) auto

lemma of_be_bytes_snoc: "of_be_bytes (bs @ [b]) = of_be_bytes bs * 256 + unat b"
  by (simp add: of_be_bytes_def)

lemma of_be_be_bytes: "of_be_bytes (be_bytes k n) = n mod 256 ^ k"
proof (induction k arbitrary: n)
  case 0
  then show ?case by (simp add: of_be_bytes_def)
next
  case (Suc k)
  have "n mod 256 ^ Suc k = 256 * (n div 256 mod 256 ^ k) + n mod 256"
    by (simp add: mod_mult2_eq)
  then show ?case by (simp add: of_be_bytes_snoc Suc.IH unat_of_nat)
qed

lemma of_be_bytes_less: "of_be_bytes bs < 256 ^ length bs"
proof (induction bs rule: rev_induct)
  case Nil
  then show ?case by (simp add: of_be_bytes_def)
next
  case (snoc b bs)
  have "unat b < 256" using unat_bound [of b] by simp
  with snoc show ?case by (simp add: of_be_bytes_snoc)
qed

lemma be_of_be_bytes: "be_bytes (length bs) (of_be_bytes bs) = bs"
proof (induction bs rule: rev_induct)
  case Nil
  then show ?case by simp
next
  case (snoc b bs)
  have b: "unat b < 256" using unat_bound [of b] by simp
  have "word_of_nat (of_be_bytes bs * 256) = (0 :: byte)"
    by (simp only: word_of_nat_eq_0_iff) simp
  then have "word_of_nat (of_be_bytes bs * 256 + unat b) = b"
    by (simp only: of_nat_add) simp
  with b snoc show ?case by (simp add: of_be_bytes_snoc)
qed

text \<open>The round trip at the widths the sources use.\<close>

lemma of_be_bytes_unat_word:
  "LENGTH('a) = 8 * k \<Longrightarrow> of_nat (of_be_bytes (be_bytes k (unat w))) = w"
  for w :: "'a::len word"
  using unat_bound [of w] by (simp add: of_be_be_bytes power_mult)

section \<open>Results\<close>

text \<open>A \<^verbatim>\<open>Result\<close> is a sum with the error on the left; \<open>and_then\<close> is the \<^verbatim>\<open>?\<close> operator.\<close>

definition and_then :: "'e + 'a \<Rightarrow> ('a \<Rightarrow> 'e + 'b) \<Rightarrow> 'e + 'b" where
  "and_then r f = (case r of Inl e \<Rightarrow> Inl e | Inr x \<Rightarrow> f x)"

lemma and_then_simps [simp]: "and_then (Inl e) f = Inl e" "and_then (Inr x) f = f x"
  by (simp_all add: and_then_def)

lemma and_then_Inr_iff: "and_then r f = Inr y \<longleftrightarrow> (\<exists>x. r = Inr x \<and> f x = Inr y)"
  by (cases r) auto

lemma and_then_InrE:
  assumes "and_then r f = Inr y"
  obtains x where "r = Inr x" "f x = Inr y"
  using assms by (auto simp: and_then_Inr_iff)

section \<open>Vectors\<close>

text \<open>\<^verbatim>\<open>Vec::swap_remove\<close>: the last element takes the place of the removed one.\<close>

definition swap_remove :: "'a list \<Rightarrow> nat \<Rightarrow> 'a list" where
  "swap_remove xs i = butlast (xs[i := last xs])"

lemma length_swap_remove [simp]: "length (swap_remove xs i) = length xs - 1"
  by (simp add: swap_remove_def)

lemma swap_remove_snoc: "swap_remove (ys @ [y]) i = (if i = length ys then ys else ys[i := y])"
  by (auto simp: swap_remove_def butlast_append list_update_append list_update_beyond
        split: nat.split)

lemma mset_swap_remove_set:
  assumes "i < length xs" and "distinct xs"
  shows "set (swap_remove xs i) = set xs - {xs ! i}" and "distinct (swap_remove xs i)"
proof -
  from assms(1) obtain ys y where xs: "xs = ys @ [y]"
    by (cases xs rule: rev_cases) auto
  have "i \<noteq> length ys \<Longrightarrow> set (ys[i := y]) = insert y (set ys - {ys ! i}) \<and> distinct (ys[i := y])"
    using assms xs by (auto simp: set_update_distinct nth_append intro!: distinct_list_update)
  with assms xs show "set (swap_remove xs i) = set xs - {xs ! i}" "distinct (swap_remove xs i)"
    by (auto simp: swap_remove_snoc nth_append split: if_splits)
qed

text \<open>A list strictly descending under a key is determined by its elements.\<close>

lemma descending_unique:
  fixes key :: "'a \<Rightarrow> nat"
  assumes "sorted_wrt (>) (map key xs)" "sorted_wrt (>) (map key ys)" "set xs = set ys"
  shows "xs = ys"
proof -
  have d: "sorted (map key (rev zs)) \<and> distinct (map key (rev zs))"
    if "sorted_wrt (>) (map key zs)" for zs
  proof -
    have "sorted_wrt (<) (rev (map key zs))"
      using that by (simp add: sorted_wrt_rev)
    then show ?thesis by (simp add: rev_map strict_sorted_iff)
  qed
  have "inj_on key (set xs)"
    using d [OF assms(1)] by (simp add: distinct_map)
  then have "rev xs = rev ys"
    using d [OF assms(1)] d [OF assms(2)] assms(3)
    by (intro map_sorted_distinct_set_unique [of key]) auto
  then show ?thesis by simp
qed

lemma count_list_update_le:
  "i < length xs \<Longrightarrow> length (filter P (xs[i := x])) + (if P (xs ! i) then 1 else 0)
     = length (filter P xs) + (if P x then 1 else 0)"
proof (induction xs arbitrary: i)
  case Nil
  then show ?case by simp
next
  case (Cons a xs)
  then show ?case by (cases i) auto
qed

end
