(* ===== verification/Partition.thy ===== *)
theory Partition
  imports Pevm_Prelude
begin

text \<open>
  The state partitions of \<^verbatim>\<open>perpdex/state_traits.rs\<close>: the identifier of a virtual machine is
  mixed into the high eight bits of a location hash. \<^verbatim>\<open>VmMetadata\<close>, the type-erased store, is a
  map from type identifiers to values whose dynamic type the value itself tells.
\<close>

section \<open>Partition identifiers\<close>

datatype partition_id = PartitionId u8

definition EVM :: partition_id where
  "EVM = PartitionId 0"

definition WASM :: partition_id where
  "WASM = PartitionId 1"

definition PERPDEX :: partition_id where
  "PERPDEX = PartitionId 2"

fun mix_hash :: "partition_id \<Rightarrow> u64 \<Rightarrow> u64" where
  "mix_hash (PartitionId p) base_hash = push_bit 56 (ucast p) OR (base_hash AND 0x00FFFFFFFFFFFFFF)"

definition from_hash :: "u64 \<Rightarrow> partition_id" where
  "from_hash mixed_hash = PartitionId (ucast (drop_bit 56 mixed_hash))"

lemma low_mask: "0x00FFFFFFFFFFFFFF = (mask 56 :: u64)"
  by (simp add: mask_eq_exp_minus_1)

lemma from_mix_hash: "from_hash (mix_hash p h) = p"
proof (cases p)
  case (PartitionId x)
  have "ucast (drop_bit 56 (push_bit 56 (ucast x) OR (h AND mask 56))) = x"
    by (rule bit_word_eqI) (auto simp: bit_simps)
  then show ?thesis by (simp add: PartitionId from_hash_def low_mask)
qed

lemma low_mix_hash: "take_bit 56 (mix_hash p h) = take_bit 56 h"
proof (cases p)
  case (PartitionId x)
  have "take_bit 56 (push_bit 56 (ucast x) OR (h AND mask 56)) = take_bit 56 h"
    by (rule bit_word_eqI) (auto simp: bit_simps)
  then show ?thesis by (simp add: PartitionId low_mask)
qed

section \<open>Metadata of the virtual machines\<close>

type_synonym type_id = nat

type_synonym 'v vm_metadata = "type_id \<rightharpoonup> 'v"

definition vm_metadata_new :: "'v vm_metadata" where
  "vm_metadata_new = (\<lambda>_. None)"

text \<open>
  \<open>downcast\<close> succeeds on a value of the asked type; \<open>ty\<close> is the value's dynamic type. A result
  \<^const>\<open>None\<close> of \<open>vm_get_or_insert\<close> is the panic of its \<^verbatim>\<open>expect\<close>.
\<close>

definition downcast :: "('v \<Rightarrow> type_id) \<Rightarrow> type_id \<Rightarrow> 'v \<Rightarrow> 'v option" where
  "downcast ty t v = (if ty v = t then Some v else None)"

definition vm_get_or_insert :: "('v \<Rightarrow> type_id) \<Rightarrow> type_id \<Rightarrow> 'v \<Rightarrow> 'v vm_metadata \<Rightarrow> ('v \<times> 'v vm_metadata) option" where
  "vm_get_or_insert ty t dflt m =
     (let m' = (case m t of None \<Rightarrow> m(t \<mapsto> dflt) | Some _ \<Rightarrow> m)
      in do {
           entry \<leftarrow> m' t;
           v \<leftarrow> downcast ty t entry;
           Some (v, m')
         })"

definition vm_get :: "('v \<Rightarrow> type_id) \<Rightarrow> type_id \<Rightarrow> 'v vm_metadata \<Rightarrow> 'v option" where
  "vm_get ty t m = Option.bind (m t) (downcast ty t)"

definition vm_insert :: "('v \<Rightarrow> type_id) \<Rightarrow> 'v \<Rightarrow> 'v vm_metadata \<Rightarrow> 'v vm_metadata" where
  "vm_insert ty v m = m(ty v \<mapsto> v)"

text \<open>Every slot holds a value of its own type.\<close>

definition metadata_ok :: "('v \<Rightarrow> type_id) \<Rightarrow> 'v vm_metadata \<Rightarrow> bool" where
  "metadata_ok ty m \<longleftrightarrow> (\<forall>t v. m t = Some v \<longrightarrow> ty v = t)"

lemma metadata_new_ok: "metadata_ok ty vm_metadata_new"
  by (simp add: metadata_ok_def vm_metadata_new_def)

lemma metadata_insert_ok: "metadata_ok ty m \<Longrightarrow> metadata_ok ty (vm_insert ty v m)"
  by (simp add: metadata_ok_def vm_insert_def)

lemma metadata_get: "metadata_ok ty m \<Longrightarrow> vm_get ty t m = m t"
  by (cases "m t") (auto simp: metadata_ok_def vm_get_def downcast_def)

section \<open>Properties\<close>

text \<open>
  Property C26. Locations of different partitions never share a hash, whatever their base hashes;
  the partition is read back from the high bits, the low 56 bits of the base hash are kept, and
  within a partition two hashes agree exactly when those low bits do.
\<close>

theorem partitions_never_collide:
  "(mix_hash p h = mix_hash q k) = (p = q \<and> take_bit 56 h = take_bit 56 k) \<and>
   from_hash (mix_hash p h) = p \<and> take_bit 56 (mix_hash p h) = take_bit 56 h"
proof -
  have "p = q \<and> take_bit 56 h = take_bit 56 k" if "mix_hash p h = mix_hash q k"
    using from_mix_hash [of p h] from_mix_hash [of q k] low_mix_hash [of p h] low_mix_hash [of q k] that
    by simp
  moreover have "mix_hash p h = mix_hash p k" if "take_bit 56 h = take_bit 56 k"
    using that by (cases p) (simp add: low_mask take_bit_eq_mask [symmetric])
  ultimately show ?thesis by (auto simp: from_mix_hash low_mix_hash)
qed

text \<open>
  Property C30. In a metadata store whose slots hold values of their own types, asking for a type
  never panics: it returns the stored value, or the default when there is none, every later request
  for the type returns that same value, and no other type's slot changes.
\<close>

theorem metadata_stable:
  assumes "metadata_ok ty m" "ty dflt = t"
  shows "\<exists>v m'. vm_get_or_insert ty t dflt m = Some (v, m') \<and> metadata_ok ty m' \<and>
    v = (case m t of None \<Rightarrow> dflt | Some x \<Rightarrow> x) \<and> vm_get ty t m' = Some v \<and>
    vm_get_or_insert ty t other m' = Some (v, m') \<and> (\<forall>u. u \<noteq> t \<longrightarrow> m' u = m u)"
  using assms
  by (cases "m t") (auto simp: vm_get_or_insert_def downcast_def metadata_ok_def vm_get_def)

theorem metadata_stable_witness:
  "\<exists>v m'. vm_get_or_insert (\<lambda>v. v mod 10) 3 (13 :: nat) vm_metadata_new = Some (v, m') \<and>
    metadata_ok (\<lambda>v. v mod 10) m' \<and>
    v = (case vm_metadata_new 3 of None \<Rightarrow> 13 | Some x \<Rightarrow> x) \<and> vm_get (\<lambda>v. v mod 10) 3 m' = Some v \<and>
    vm_get_or_insert (\<lambda>v. v mod 10) 3 23 m' = Some (v, m') \<and> (\<forall>u. u \<noteq> 3 \<longrightarrow> m' u = vm_metadata_new u)"
  by (rule metadata_stable [OF metadata_new_ok]) simp

end
