(* ===== verification/Perpdex_Types.thy ===== *)
theory Perpdex_Types
  imports Partition
begin

text \<open>
  The transactions of \<^verbatim>\<open>perpdex/types.rs\<close> and the state of \<^verbatim>\<open>perpdex/state.rs\<close>: locations with
  their partitioned hash, and values.
\<close>

section \<open>Transactions\<close>

datatype order_type = Limit | Market | StopLimit | StopMarket

datatype side = Long | Short

datatype order_status = Open | PartiallyFilled | Filled | Cancelled | Expired

datatype operation =
    PlaceOrder (op_market: u64) order_type side (op_price: u256) (op_size: u256) (op_leverage: u8)
      (op_post_only: bool) (op_reduce_only: bool) (op_expires_at: "u64 option")
  | CancelOrder u64 "u64 list"
  | CancelAll "u64 option"
  | SetLeverage u64 u8
  | AdjustMargin u64 u256

record perpdex_tx =
  tx_user :: address
  tx_operations :: "operation list"
  tx_gas_limit :: u64
  tx_gas_price :: u256
  tx_nonce :: u64
  tx_signature :: "byte list option"

datatype operation_result =
    OrderPlaced u64 u256
  | OrdersCancelled "u64 list"
  | LeverageUpdated u64 u8
  | MarginAdjusted u64 u256

record perpdex_result =
  gas_used :: u64
  operations_executed :: "operation_result list"

section \<open>Locations\<close>

datatype perpdex_location =
    LBalance address u16
  | LPosition address u64
  | LOrder address u64 u64
  | LMarketState u64
  | LUserNonce address

text \<open>The base hash is the \<^verbatim>\<open>FxHasher\<close> of the \<^verbatim>\<open>rustc_hash\<close> crate, an argument here.\<close>

definition location_partition :: "perpdex_location \<Rightarrow> partition_id" where
  "location_partition loc = PERPDEX"

definition location_hash :: "(perpdex_location \<Rightarrow> u64) \<Rightarrow> perpdex_location \<Rightarrow> u64" where
  "location_hash fx loc = mix_hash (location_partition loc) (fx loc)"

text \<open>The user whose state a location is; the state of a market belongs to no user.\<close>

fun location_user :: "perpdex_location \<Rightarrow> address option" where
  "location_user (LBalance u a) = Some u"
| "location_user (LPosition u m) = Some u"
| "location_user (LOrder u m i) = Some u"
| "location_user (LMarketState m) = None"
| "location_user (LUserNonce u) = Some u"

section \<open>Values\<close>

record position_data =
  pos_size :: i128
  pos_entry_price :: u256
  pos_leverage :: u8
  pos_margin :: u256
  pos_unrealized_pnl :: i128
  pos_last_funding_index :: u256

record order_data =
  ord_type :: order_type
  ord_side :: side
  ord_price :: u256
  ord_size :: u256
  ord_filled :: u256
  ord_status :: order_status
  ord_post_only :: bool
  ord_reduce_only :: bool
  ord_created_at :: u64
  ord_expires_at :: "u64 option"

record market_data =
  index_price :: u256
  mark_price :: u256
  funding_rate :: i128
  funding_index :: u256
  open_interest_long :: u256
  open_interest_short :: u256
  last_update :: u64

datatype perpdex_value =
    VBalance u256
  | VPosition position_data
  | VOrder order_data
  | VMarketState market_data
  | VNonce u64
  | VLazyFunding u64 i128
  | VDeleted

fun value_is_lazy :: "perpdex_value \<Rightarrow> bool" where
  "value_is_lazy (VLazyFunding m s) = True"
| "value_is_lazy _ = False"

fun value_is_deleted :: "perpdex_value \<Rightarrow> bool" where
  "value_is_deleted VDeleted = True"
| "value_is_deleted _ = False"

definition empty_position :: perpdex_value where
  "empty_position = VPosition
     \<lparr>pos_size = 0, pos_entry_price = 0, pos_leverage = 1, pos_margin = 0, pos_unrealized_pnl = 0,
      pos_last_funding_index = 0\<rparr>"

definition default_market_state :: "u64 \<Rightarrow> perpdex_value" where
  "default_market_state timestamp = VMarketState
     \<lparr>index_price = 0, mark_price = 0, funding_rate = 0, funding_index = 0, open_interest_long = 0,
      open_interest_short = 0, last_update = timestamp\<rparr>"

end
