(* ===== verification/Perpdex_Storage.thy ===== *)
theory Perpdex_Storage
  imports Perpdex_Types "HOL-Library.AList"
begin

text \<open>
  The storage of \<^verbatim>\<open>perpdex/storage.rs\<close>. The trait \<^verbatim>\<open>PerpDexStorage\<close> is the locale
  \<open>perpdex_storage\<close>; \<^verbatim>\<open>InMemoryStorage\<close> is its interpretation. The hash map of the order index is
  an association list, because \<^verbatim>\<open>get_all_user_orders\<close> iterates over it; nothing proved here
  depends on the order of its keys. The locks are never poisoned: no operation panics under one.
\<close>

section \<open>The trait\<close>

datatype storage_error = NotFound perpdex_location | InvalidState string

text \<open>
  What a client may rely on: a write is read back and leaves other locations alone, a deletion
  removes, and the orders listed for a user are those written and not deleted.
\<close>

locale perpdex_storage =
  fixes invar :: "'s \<Rightarrow> bool"
    and get :: "'s \<Rightarrow> perpdex_location \<Rightarrow> storage_error + perpdex_value option"
    and set_value :: "'s \<Rightarrow> perpdex_location \<Rightarrow> perpdex_value \<Rightarrow> storage_error + 's"
    and delete :: "'s \<Rightarrow> perpdex_location \<Rightarrow> storage_error + 's"
    and user_orders_of :: "'s \<Rightarrow> address \<Rightarrow> u64 \<Rightarrow> storage_error + u64 list"
    and all_user_orders_of :: "'s \<Rightarrow> address \<Rightarrow> storage_error + u64 list"
  assumes set_ok: "invar s \<Longrightarrow> \<exists>s'. set_value s l v = Inr s' \<and> invar s'"
    and delete_ok: "invar s \<Longrightarrow> \<exists>s'. delete s l = Inr s' \<and> invar s'"
    and get_ok: "invar s \<Longrightarrow> \<exists>v. get s l = Inr v"
    and orders_ok: "invar s \<Longrightarrow> \<exists>ids. user_orders_of s u m = Inr ids"
    and get_set: "invar s \<Longrightarrow> set_value s l v = Inr s' \<Longrightarrow> get s' k = (if k = l then Inr (Some v) else get s k)"
    and get_delete: "invar s \<Longrightarrow> delete s l = Inr s' \<Longrightarrow> get s' k = (if k = l then Inr None else get s k)"
    and orders_set: "invar s \<Longrightarrow> set_value s l v = Inr s' \<Longrightarrow> user_orders_of s u m = Inr ids \<Longrightarrow>
      \<exists>ids'. user_orders_of s' u m = Inr ids' \<and>
        set ids' = set ids \<union> {i. l = LOrder u m i \<and> v \<noteq> VDeleted}"
    and orders_delete: "invar s \<Longrightarrow> delete s l = Inr s' \<Longrightarrow> user_orders_of s u m = Inr ids \<Longrightarrow>
      \<exists>ids'. user_orders_of s' u m = Inr ids' \<and> set ids' = set ids - {i. l = LOrder u m i}"
    and all_orders: "invar s \<Longrightarrow> \<exists>ids. all_user_orders_of s u = Inr ids \<and>
      set ids = {i. \<exists>m xs. user_orders_of s u m = Inr xs \<and> i \<in> set xs}"
begin

text \<open>Writing a list of values in order.\<close>

fun write_all :: "(perpdex_location \<times> perpdex_value) list \<Rightarrow> 's \<Rightarrow> storage_error + 's" where
  "write_all [] s = Inr s"
| "write_all ((l, v) # ws) s = and_then (set_value s l v) (write_all ws)"

lemma write_all_get:
  assumes "invar s"
  shows "\<exists>s'. write_all ws s = Inr s' \<and> invar s' \<and>
    (\<forall>k. get s' k = (case map_of (rev ws) k of Some v \<Rightarrow> Inr (Some v) | None \<Rightarrow> get s k))"
  using assms
proof (induction ws arbitrary: s)
  case (Cons w ws)
  obtain l v where w: "w = (l, v)" by fastforce
  obtain s1 where s1: "set_value s l v = Inr s1" "invar s1" using set_ok [OF Cons.prems] by blast
  obtain s' where "write_all ws s1 = Inr s'" "invar s'"
    "\<forall>k. get s' k = (case map_of (rev ws) k of Some v \<Rightarrow> Inr (Some v) | None \<Rightarrow> get s1 k)"
    using Cons.IH [OF s1(2)] by blast
  then show ?case
    using w s1(1) get_set [OF Cons.prems s1(1)] by (auto simp: map_add_def split: option.splits)
qed simp

lemma written_order_listed:
  assumes "invar s" "set_value s (LOrder u m i) v = Inr s'" "v \<noteq> VDeleted"
  shows "\<exists>ids all. user_orders_of s' u m = Inr ids \<and> i \<in> set ids \<and> all_user_orders_of s' u = Inr all \<and> i \<in> set all"
proof -
  obtain ids where "user_orders_of s u m = Inr ids" using orders_ok [OF assms(1)] by blast
  then obtain ids' where ids': "user_orders_of s' u m = Inr ids'" "i \<in> set ids'"
    using orders_set [OF assms(1,2)] assms(3) by fastforce
  have "invar s'" using set_ok [OF assms(1), of "LOrder u m i" v] assms(2) by auto
  with ids' show ?thesis using all_orders [of s' u] by blast
qed

end

section \<open>The in-memory implementation\<close>

record in_memory_storage =
  stored :: "perpdex_location \<rightharpoonup> perpdex_value"
  user_orders :: "((address \<times> u64) \<times> u64 list) list"

definition storage_new :: in_memory_storage where
  "storage_new = \<lparr>stored = (\<lambda>_. None), user_orders = []\<rparr>"

definition with_balances :: "(address \<times> u16 \<times> u256) list \<Rightarrow> in_memory_storage" where
  "with_balances balances =
     storage_new\<lparr>stored := fold (\<lambda>(user, asset_id, balance) data.
        data(LBalance user asset_id \<mapsto> VBalance balance)) balances (stored storage_new)\<rparr>"

definition order_index :: "in_memory_storage \<Rightarrow> address \<Rightarrow> u64 \<Rightarrow> u64 list" where
  "order_index s user market_id = (case map_of (user_orders s) (user, market_id) of Some ids \<Rightarrow> ids | None \<Rightarrow> [])"

definition add_order_index :: "in_memory_storage \<Rightarrow> address \<Rightarrow> u64 \<Rightarrow> u64 \<Rightarrow> in_memory_storage" where
  "add_order_index s user market_id order_id =
     s\<lparr>user_orders := AList.update (user, market_id) (order_index s user market_id @ [order_id]) (user_orders s)\<rparr>"

definition remove_order_index :: "in_memory_storage \<Rightarrow> address \<Rightarrow> u64 \<Rightarrow> u64 \<Rightarrow> in_memory_storage" where
  "remove_order_index s user market_id order_id =
     (case map_of (user_orders s) (user, market_id) of
        Some order_list \<Rightarrow>
          s\<lparr>user_orders := AList.update (user, market_id) (filter (\<lambda>id. id \<noteq> order_id) order_list) (user_orders s)\<rparr>
      | None \<Rightarrow> s)"

definition storage_get :: "in_memory_storage \<Rightarrow> perpdex_location \<Rightarrow> storage_error + perpdex_value option" where
  "storage_get s location = Inr (stored s location)"

definition storage_set ::
    "in_memory_storage \<Rightarrow> perpdex_location \<Rightarrow> perpdex_value \<Rightarrow> storage_error + in_memory_storage" where
  "storage_set s location value =
     (let s1 = (case location of
                  LOrder user market_id order_id \<Rightarrow>
                    if value \<noteq> VDeleted then add_order_index s user market_id order_id else s
                | _ \<Rightarrow> s)
      in Inr (s1\<lparr>stored := (stored s1)(location \<mapsto> value)\<rparr>))"

definition storage_delete :: "in_memory_storage \<Rightarrow> perpdex_location \<Rightarrow> storage_error + in_memory_storage" where
  "storage_delete s location =
     (let s1 = (case location of
                  LOrder user market_id order_id \<Rightarrow> remove_order_index s user market_id order_id
                | _ \<Rightarrow> s)
      in Inr (s1\<lparr>stored := (stored s1)(location := None)\<rparr>))"

definition get_user_orders :: "in_memory_storage \<Rightarrow> address \<Rightarrow> u64 \<Rightarrow> storage_error + u64 list" where
  "get_user_orders s user market_id = Inr (order_index s user market_id)"

definition get_all_user_orders :: "in_memory_storage \<Rightarrow> address \<Rightarrow> storage_error + u64 list" where
  "get_all_user_orders s user =
     Inr (concat (map snd (filter (\<lambda>((addr, _), order_ids). addr = user) (user_orders s))))"

text \<open>The keys of the order index are distinct.\<close>

definition storage_ok :: "in_memory_storage \<Rightarrow> bool" where
  "storage_ok s \<longleftrightarrow> distinct (map fst (user_orders s))"

lemma storage_new_ok: "storage_ok storage_new"
  by (simp add: storage_ok_def storage_new_def)

lemma order_index_stored [simp]: "order_index (s\<lparr>stored := d\<rparr>) u m = order_index s u m"
  by (simp add: order_index_def)

lemma storage_ok_stored [simp]: "storage_ok (s\<lparr>stored := d\<rparr>) = storage_ok s"
  by (simp add: storage_ok_def)

lemma order_index_add:
  "order_index (add_order_index s u m i) u' m' =
     (if u' = u \<and> m' = m then order_index s u m @ [i] else order_index s u' m')"
  by (simp add: order_index_def add_order_index_def update_conv')

lemma order_index_remove:
  "order_index (remove_order_index s u m i) u' m' =
     (if u' = u \<and> m' = m then filter (\<lambda>j. j \<noteq> i) (order_index s u m) else order_index s u' m')"
  by (auto simp: order_index_def remove_order_index_def update_conv' split: option.splits)

lemma storage_ok_add [simp]: "storage_ok s \<Longrightarrow> storage_ok (add_order_index s u m i)"
  by (simp add: storage_ok_def add_order_index_def distinct_update)

lemma storage_ok_remove [simp]: "storage_ok s \<Longrightarrow> storage_ok (remove_order_index s u m i)"
  by (simp add: storage_ok_def remove_order_index_def distinct_update split: option.splits)

lemma stored_index [simp]:
  "stored (add_order_index s u m i) = stored s" "stored (remove_order_index s u m i) = stored s"
  by (simp_all add: add_order_index_def remove_order_index_def split: option.splits)

lemma all_orders_index:
  assumes "storage_ok s"
  shows "set (concat (map snd (filter (\<lambda>((addr, _), order_ids). addr = u) (user_orders s)))) =
    {i. \<exists>m. i \<in> set (order_index s u m)}"
proof -
  have "i \<in> set (order_index s u m) \<longleftrightarrow> (\<exists>ids. ((u, m), ids) \<in> set (user_orders s) \<and> i \<in> set ids)" for i m
  proof -
    have "i \<in> set (order_index s u m) \<longleftrightarrow> (\<exists>ids. map_of (user_orders s) (u, m) = Some ids \<and> i \<in> set ids)"
      by (cases "map_of (user_orders s) (u, m)") (simp_all add: order_index_def)
    also have "\<dots> \<longleftrightarrow> (\<exists>ids. ((u, m), ids) \<in> set (user_orders s) \<and> i \<in> set ids)"
      using assms by (simp add: storage_ok_def)
    finally show ?thesis .
  qed
  then show ?thesis by (auto; blast)
qed

interpretation in_memory: perpdex_storage storage_ok storage_get storage_set storage_delete
  get_user_orders get_all_user_orders
proof
  fix s :: in_memory_storage and s' l k v u m ids
  assume ok: "storage_ok s"
  show "\<exists>s'. storage_set s l v = Inr s' \<and> storage_ok s'"
    using ok by (auto simp: storage_set_def Let_def split: perpdex_location.splits)
  show "\<exists>s'. storage_delete s l = Inr s' \<and> storage_ok s'"
    using ok by (auto simp: storage_delete_def Let_def split: perpdex_location.splits)
  show "\<exists>v. storage_get s l = Inr v" by (simp add: storage_get_def)
  show "\<exists>ids. get_user_orders s u m = Inr ids" by (simp add: get_user_orders_def)
  show "\<exists>ids. get_all_user_orders s u = Inr ids \<and>
      set ids = {i. \<exists>m xs. get_user_orders s u m = Inr xs \<and> i \<in> set xs}"
    using all_orders_index [OF ok, of u] by (auto simp: get_all_user_orders_def get_user_orders_def)
  assume set: "storage_set s l v = Inr s'"
  show "storage_get s' k = (if k = l then Inr (Some v) else storage_get s k)"
    using set by (auto simp: storage_set_def storage_get_def Let_def split: perpdex_location.splits if_splits)
  show "\<exists>ids'. get_user_orders s' u m = Inr ids' \<and> set ids' = set ids \<union> {i. l = LOrder u m i \<and> v \<noteq> VDeleted}"
    if "get_user_orders s u m = Inr ids"
    using set that by (auto simp: storage_set_def get_user_orders_def Let_def order_index_add
        split: perpdex_location.splits if_splits)
next
  fix s :: in_memory_storage and s' l k u m ids
  assume ok: "storage_ok s" and del: "storage_delete s l = Inr s'"
  show "storage_get s' k = (if k = l then Inr None else storage_get s k)"
    using del by (auto simp: storage_delete_def storage_get_def Let_def split: perpdex_location.splits)
  show "\<exists>ids'. get_user_orders s' u m = Inr ids' \<and> set ids' = set ids - {i. l = LOrder u m i}"
    if "get_user_orders s u m = Inr ids"
    using del that by (auto simp: storage_delete_def get_user_orders_def Let_def order_index_remove
        split: perpdex_location.splits if_splits)
qed

section \<open>Properties\<close>

text \<open>
  Property C27. The in-memory storage keeps its promises: a value written is read back until its
  location is written or deleted, other locations keep theirs, and an order written is listed for
  its user both in its market and over all markets.
\<close>

theorem storage_set_get:
  assumes "storage_ok s"
  shows "\<exists>s'. storage_set s l v = Inr s' \<and> storage_ok s' \<and>
    (\<forall>k. storage_get s' k = (if k = l then Inr (Some v) else storage_get s k)) \<and>
    (\<forall>u m i. l = LOrder u m i \<and> v \<noteq> VDeleted \<longrightarrow>
       (\<exists>ids all. get_user_orders s' u m = Inr ids \<and> i \<in> set ids \<and>
          get_all_user_orders s' u = Inr all \<and> i \<in> set all))"
proof -
  obtain s' where s': "storage_set s l v = Inr s'" "storage_ok s'"
    using in_memory.set_ok [OF assms] by blast
  moreover have "\<exists>ids all. get_user_orders s' u m = Inr ids \<and> i \<in> set ids \<and>
      get_all_user_orders s' u = Inr all \<and> i \<in> set all" if "l = LOrder u m i \<and> v \<noteq> VDeleted" for u m i
    using in_memory.written_order_listed [OF assms, of u m i v s'] s'(1) that by simp
  ultimately show ?thesis
    using in_memory.get_set [OF assms s'(1)] by simp
qed

theorem storage_set_get_witness:
  "\<exists>s'. storage_set storage_new (LOrder 7 1 5) (VNonce 0) = Inr s' \<and> storage_ok s' \<and>
    (\<forall>k. storage_get s' k = (if k = LOrder 7 1 5 then Inr (Some (VNonce 0)) else storage_get storage_new k)) \<and>
    (\<forall>u m i. LOrder 7 1 5 = LOrder u m i \<and> VNonce 0 \<noteq> VDeleted \<longrightarrow>
       (\<exists>ids all. get_user_orders s' u m = Inr ids \<and> i \<in> set ids \<and>
          get_all_user_orders s' u = Inr all \<and> i \<in> set all))"
  by (rule storage_set_get [OF storage_new_ok])

text \<open>
  Deleting an order removes its value and its entry in the user's order list, but
  writing the value \<open>Deleted\<close>, as cancelling does, keeps the order listed.
\<close>

theorem cancelled_order_stays_listed:
  assumes "storage_ok s" "get_user_orders s u m = Inr ids" "i \<in> set ids"
  shows "(\<exists>s' ids'. storage_set s (LOrder u m i) VDeleted = Inr s' \<and> storage_get s' (LOrder u m i) = Inr (Some VDeleted) \<and>
      get_user_orders s' u m = Inr ids' \<and> i \<in> set ids') \<and>
    (\<exists>s' ids'. storage_delete s (LOrder u m i) = Inr s' \<and> storage_get s' (LOrder u m i) = Inr None \<and>
      get_user_orders s' u m = Inr ids' \<and> set ids' = set ids - {i})"
proof -
  obtain s' where s': "storage_set s (LOrder u m i) VDeleted = Inr s'"
    using in_memory.set_ok [OF assms(1)] by blast
  obtain t where t: "storage_delete s (LOrder u m i) = Inr t"
    using in_memory.delete_ok [OF assms(1)] by blast
  obtain ids' where "get_user_orders s' u m = Inr ids'" "i \<in> set ids'"
    using in_memory.orders_set [OF assms(1) s' assms(2)] assms(3) by auto
  moreover obtain ids2 where "get_user_orders t u m = Inr ids2" "set ids2 = set ids - {i}"
    using in_memory.orders_delete [OF assms(1) t assms(2)] by auto
  moreover have "storage_get s' (LOrder u m i) = Inr (Some VDeleted)" "storage_get t (LOrder u m i) = Inr None"
    using in_memory.get_set [OF assms(1) s'] in_memory.get_delete [OF assms(1) t] by simp_all
  ultimately show ?thesis using s' t by blast
qed

theorem cancelled_order_stays_listed_witness:
  "let s = \<lparr>stored = [LOrder 7 1 5 \<mapsto> VNonce 0], user_orders = [((7, 1), [5])]\<rparr> in
   (\<exists>s' ids'. storage_set s (LOrder 7 1 5) VDeleted = Inr s' \<and> storage_get s' (LOrder 7 1 5) = Inr (Some VDeleted) \<and>
      get_user_orders s' 7 1 = Inr ids' \<and> 5 \<in> set ids') \<and>
    (\<exists>s' ids'. storage_delete s (LOrder 7 1 5) = Inr s' \<and> storage_get s' (LOrder 7 1 5) = Inr None \<and>
      get_user_orders s' 7 1 = Inr ids' \<and> set ids' = set [5] - {5})"
  unfolding Let_def
  by (rule cancelled_order_stays_listed) (simp_all add: storage_ok_def get_user_orders_def order_index_def)

end
