(* ===== verification/Perpdex_Sets.thy ===== *)
theory Perpdex_Sets
  imports Perpdex_Types "HOL-Library.AList"
begin

text \<open>
  The generic part of \<^verbatim>\<open>perpdex/executor_traits.rs\<close>: read and write sets over a location type
  with its hash as an argument, the flags, and the result of executing a transaction.
\<close>

record vm_tx_version =
  vm_tx_idx :: nat
  vm_tx_incarnation :: nat

datatype vm_read_origin = VmMvMemory vm_tx_version | VmStorage

record 'l vm_read_set =
  rs_data :: "(u64 \<times> vm_read_origin list) list"
  rs_locations :: "'l list"

definition read_set_new :: "'l vm_read_set" where
  "read_set_new = \<lparr>rs_data = [], rs_locations = []\<rparr>"

definition read_set_insert :: "('l \<Rightarrow> u64) \<Rightarrow> 'l vm_read_set \<Rightarrow> 'l \<Rightarrow> vm_read_origin \<Rightarrow> 'l vm_read_set" where
  "read_set_insert hash rs location origin =
     (let h = hash location;
          old = (case map_of (rs_data rs) h of Some os \<Rightarrow> os | None \<Rightarrow> [])
      in \<lparr>rs_data = AList.update h (old @ [origin]) (rs_data rs),
          rs_locations = (if list_ex (\<lambda>l. hash l = h) (rs_locations rs) then rs_locations rs
                          else rs_locations rs @ [location])\<rparr>)"

definition read_set_is_empty :: "'l vm_read_set \<Rightarrow> bool" where
  "read_set_is_empty rs \<longleftrightarrow> rs_data rs = []"

type_synonym ('l, 'v) vm_write_set = "(u64 \<times> 'l \<times> 'v) list"

definition write_set_new :: "('l, 'v) vm_write_set" where
  "write_set_new = []"

definition write_set_push :: "('l \<Rightarrow> u64) \<Rightarrow> ('l, 'v) vm_write_set \<Rightarrow> 'l \<Rightarrow> 'v \<Rightarrow> ('l, 'v) vm_write_set" where
  "write_set_push hash ws location value = ws @ [(hash location, location, value)]"

definition write_set_iter :: "('l, 'v) vm_write_set \<Rightarrow> (u64 \<times> 'l \<times> 'v) list" where
  "write_set_iter ws = ws"

type_synonym vm_finish_exec_flags = u8

definition vm_NeedValidation :: vm_finish_exec_flags where
  "vm_NeedValidation = 0"

definition vm_WroteNewLocation :: vm_finish_exec_flags where
  "vm_WroteNewLocation = 1"

definition vm_flags_empty :: vm_finish_exec_flags where
  "vm_flags_empty = 0"

datatype ('l, 'v, 'r, 'e) vm_execution_result =
    Success "'l vm_read_set" "('l, 'v) vm_write_set" 'r vm_finish_exec_flags
  | Blocked nat
  | Retry
  | FallbackToSequential
  | Error 'e

section \<open>Invariant of read sets\<close>

text \<open>One location per hash, and the hashes of the locations are the keys of the origins.\<close>

definition read_set_ok :: "('l \<Rightarrow> u64) \<Rightarrow> 'l vm_read_set \<Rightarrow> bool" where
  "read_set_ok hash rs \<longleftrightarrow> distinct (map fst (rs_data rs)) \<and> distinct (map hash (rs_locations rs)) \<and>
     fst ` set (rs_data rs) = hash ` set (rs_locations rs) \<and> (\<forall>(h, os) \<in> set (rs_data rs). os \<noteq> [])"

lemma read_set_new_ok: "read_set_ok hash read_set_new"
  by (simp add: read_set_ok_def read_set_new_def)

lemma update_set_subset: "set (AList.update k v al) \<subseteq> insert (k, v) (set al)"
  by (induction al) auto

text \<open>
  Property C29. Recording a read keeps one location per hash, with the hashes of the recorded
  locations exactly the keys of the origins, each with some origin; the new origin is the last one
  recorded for its hash and the origins of other hashes stay.
\<close>

theorem read_set_insert_ok:
  assumes "read_set_ok hash rs"
  shows "read_set_ok hash (read_set_insert hash rs l orig) \<and>
    \<not> read_set_is_empty (read_set_insert hash rs l orig) \<and>
    map_of (rs_data (read_set_insert hash rs l orig)) =
      (map_of (rs_data rs))(hash l \<mapsto> (case map_of (rs_data rs) (hash l) of Some os \<Rightarrow> os | None \<Rightarrow> []) @ [orig])"
proof -
  let ?old = "case map_of (rs_data rs) (hash l) of Some os \<Rightarrow> os | None \<Rightarrow> []"
  let ?d = "AList.update (hash l) (?old @ [orig]) (rs_data rs)"
  have d: "rs_data (read_set_insert hash rs l orig) = ?d" by (simp add: read_set_insert_def Let_def)
  have keys: "fst ` set ?d = insert (hash l) (fst ` set (rs_data rs))"
    using dom_update [of "hash l" "?old @ [orig]" "rs_data rs"] by (simp add: dom_map_of_conv_image_fst)
  have "\<forall>(h, os) \<in> set ?d. os \<noteq> []"
    using assms update_set_subset [of "hash l" "?old @ [orig]" "rs_data rs"] by (auto simp: read_set_ok_def)
  moreover have "?d \<noteq> []" using keys by auto
  ultimately show ?thesis
    using assms keys d
    by (auto simp: read_set_ok_def read_set_is_empty_def read_set_insert_def Let_def distinct_update
        list_ex_iff update_conv'; metis image_eqI)
qed

theorem read_set_insert_ok_witness:
  "read_set_ok (\<lambda>l. l) (read_set_insert (\<lambda>l. l) read_set_new 3 VmStorage) \<and>
    \<not> read_set_is_empty (read_set_insert (\<lambda>l. l) read_set_new 3 VmStorage) \<and>
    map_of (rs_data (read_set_insert (\<lambda>l. l) read_set_new 3 VmStorage)) =
      (map_of (rs_data (read_set_new :: u64 vm_read_set)))(3 \<mapsto> (case map_of (rs_data (read_set_new :: u64 vm_read_set)) 3 of Some os \<Rightarrow> os | None \<Rightarrow> []) @ [VmStorage])"
  using read_set_insert_ok [OF read_set_new_ok, of "\<lambda>l. l" 3 VmStorage] by simp

end
