(* ===== verification/Signed.thy ===== *)
theory Signed
  imports Pevm_Prelude
begin

text \<open>
  Signed 128-bit arithmetic away from overflow, read as integers: the facts the PerpDex component
  needs of \<^verbatim>\<open>i128\<close> sizes, and the unsigned arithmetic of \<^verbatim>\<open>U256\<close> amounts away from wrap-around.
\<close>

lemma sint_i128_bounds: "- (2 ^ 127) \<le> sint x" "sint x < 2 ^ 127" for x :: i128
  using sint_greater_eq [of x] sint_less [of x] by simp_all

lemma sint_of_int_i128:
  assumes "- (2 ^ 127) \<le> k" "k < 2 ^ 127"
  shows "sint (word_of_int k :: i128) = k"
  using assms by (simp add: signed_of_int signed_take_bit_int_eq_self)

lemma sint_add_i128:
  fixes a b :: i128
  assumes "- (2 ^ 127) \<le> sint a + sint b" "sint a + sint b < 2 ^ 127"
  shows "sint (a + b) = sint a + sint b"
  using assms by (simp add: sint_word_ariths signed_take_bit_int_eq_self)

lemma sint_uminus_i128:
  fixes a :: i128
  assumes "sint a \<noteq> - (2 ^ 127)"
  shows "sint (- a) = - sint a"
  using assms sint_i128_bounds [of a] by (simp add: sint_word_ariths signed_take_bit_int_eq_self)

lemma sint_uminus_nonneg_i128:
  fixes a :: i128
  assumes "0 \<le> sint a"
  shows "sint (- a) = - sint a"
  by (rule sint_uminus_i128) (use assms in auto)

lemma uint_uminus_i128:
  fixes x :: i128
  assumes "sint x < 0"
  shows "uint (- x) = - sint x"
proof -
  have "uint (word_of_int (- sint x) :: i128) = take_bit 128 (- sint x)"
    by (simp only: uint_word_of_int_eq) simp
  also have "\<dots> = - sint x"
    using assms sint_i128_bounds(1) [of x] by (intro take_bit_int_eq_self) simp_all
  also have "word_of_int (- sint x) = - x" by simp
  finally show ?thesis .
qed

lemma uint_sint_i128:
  fixes x :: i128
  assumes "0 \<le> sint x"
  shows "uint x = sint x"
proof -
  have "uint (word_of_int (sint x) :: i128) = take_bit 128 (sint x)"
    by (simp only: uint_word_of_int_eq) simp
  also have "\<dots> = sint x"
    using assms sint_i128_bounds(2) [of x] by (intro take_bit_int_eq_self) simp_all
  finally show ?thesis by simp
qed

lemma sint_0_i128: "sint x = 0 \<Longrightarrow> x = 0" for x :: i128
  using uint_sint_i128 [of x] by (simp add: unsigned_eq_0_iff)

text \<open>Unsigned words of any width.\<close>

lemma unat_mult_no_wrap: "unat a * unat b < 2 ^ LENGTH('a) \<Longrightarrow> unat (a * b) = unat a * unat b"
  for a b :: "'a::len word"
  by (simp add: unat_word_ariths)

lemma unat_add_no_wrap: "unat a + unat b < 2 ^ LENGTH('a) \<Longrightarrow> unat (a + b) = unat a + unat b"
  for a b :: "'a::len word"
  by (simp add: unat_word_ariths)

lemma unat_sub_le: "b \<le> a \<Longrightarrow> unat (a - b) = unat a - unat b"
  for a b :: "'a::len word"
  by (simp add: word_le_nat_alt unat_sub_if')

lemma unat_ucast_up:
  fixes a :: "'a::len word"
  assumes "LENGTH('a) \<le> LENGTH('b)"
  shows "unat (ucast a :: 'b::len word) = unat a"
proof -
  have "unat a < 2 ^ LENGTH('b)"
    using unat_bound [of a] assms by (meson less_le_trans one_le_numeral power_increasing)
  then show ?thesis by (simp add: unsigned_ucast_eq take_bit_nat_eq_self_iff)
qed

end
