(* ===== verification/Perpdex_Executor.thy ===== *)
theory Perpdex_Executor
  imports Perpdex_Storage Perpdex_Sets Signed
begin

text \<open>
  The executor of \<^verbatim>\<open>perpdex/executor.rs\<close>. The storage it reads through is a record of the three
  reading operations of the trait, so that any implementation can stand behind it; the hash of the
  \<^verbatim>\<open>rustc_hash\<close> crate is the argument \<open>fx\<close>. \<^verbatim>\<open>U256\<close> arithmetic wraps, as the crate's
  operators do, and \<^verbatim>\<open>i128\<close> arithmetic wraps, as release builds do; an \<^verbatim>\<open>i128\<close> is a
  \<^typ>\<open>i128\<close> read by \<^const>\<open>sint\<close>. Reads do not touch the read set: the source passes it along unused.
\<close>

section \<open>Data\<close>

record perpdex_store =
  store_get :: "perpdex_location \<Rightarrow> storage_error + perpdex_value option"
  store_user_orders :: "address \<Rightarrow> u64 \<Rightarrow> storage_error + u64 list"
  store_all_user_orders :: "address \<Rightarrow> storage_error + u64 list"

record block_config =
  timestamp :: u64
  block_number :: u64

datatype execution_error =
    NonceMismatch u64 u64
  | InsufficientBalance u256 u256
  | InvalidLeverage u8
  | ReduceOnlyViolation
  | InvalidPosition string
  | StorageErr storage_error
  | OrderNotFound u64

record perpdex_executor =
  storage :: perpdex_store
  block_cfg :: block_config
  next_order_id :: u64

type_synonym perpdex_writes = "(perpdex_location, perpdex_value) vm_write_set"

definition executor_new :: "perpdex_store \<Rightarrow> block_config \<Rightarrow> perpdex_executor" where
  "executor_new s cfg = \<lparr>storage = s, block_cfg = cfg, next_order_id = 1\<rparr>"

definition generate_order_id :: "perpdex_executor \<Rightarrow> u64 \<times> perpdex_executor" where
  "generate_order_id e = (next_order_id e, e\<lparr>next_order_id := next_order_id e + 1\<rparr>)"

definition USDC_ASSET_ID :: u16 where
  "USDC_ASSET_ID = 0"

definition PRICE_PRECISION :: u256 where
  "PRICE_PRECISION = 10 ^ 18"

section \<open>Reads\<close>

definition read_location :: "perpdex_executor \<Rightarrow> perpdex_location \<Rightarrow> execution_error + perpdex_value option" where
  "read_location e location =
     (case store_get (storage e) location of Inl err \<Rightarrow> Inl (StorageErr err) | Inr v \<Rightarrow> Inr v)"

definition read_nonce :: "perpdex_executor \<Rightarrow> address \<Rightarrow> execution_error + u64" where
  "read_nonce e user =
     and_then (read_location e (LUserNonce user)) (\<lambda>v.
       case v of
         Some (VNonce n) \<Rightarrow> Inr n
       | None \<Rightarrow> Inr 0
       | _ \<Rightarrow> Inl (InvalidPosition ''Invalid nonce value''))"

definition read_balance :: "perpdex_executor \<Rightarrow> address \<Rightarrow> u16 \<Rightarrow> execution_error + u256" where
  "read_balance e user asset_id =
     and_then (read_location e (LBalance user asset_id)) (\<lambda>v.
       case v of
         Some (VBalance b) \<Rightarrow> Inr b
       | None \<Rightarrow> Inr 0
       | _ \<Rightarrow> Inl (InvalidPosition ''Invalid balance value''))"

definition read_position :: "perpdex_executor \<Rightarrow> address \<Rightarrow> u64 \<Rightarrow> execution_error + position_data option" where
  "read_position e user market_id =
     and_then (read_location e (LPosition user market_id)) (\<lambda>v.
       case v of
         Some (VPosition p) \<Rightarrow> Inr (Some p)
       | None \<Rightarrow> Inr None
       | _ \<Rightarrow> Inl (InvalidPosition ''Invalid position value''))"

definition read_market :: "perpdex_executor \<Rightarrow> u64 \<Rightarrow> execution_error + market_data" where
  "read_market e market_id =
     and_then (read_location e (LMarketState market_id)) (\<lambda>v.
       case v of
         Some (VMarketState m) \<Rightarrow> Inr m
       | None \<Rightarrow> Inr
           \<lparr>index_price = 1000 * 10 ^ 18, mark_price = 1000 * 10 ^ 18, funding_rate = 0,
            funding_index = 0, open_interest_long = 0, open_interest_short = 0,
            last_update = timestamp (block_cfg e)\<rparr>
       | _ \<Rightarrow> Inl (InvalidPosition ''Invalid market state''))"

section \<open>Signed sizes\<close>

definition i128_max :: i128 where
  "i128_max = 2 ^ 127 - 1"

text \<open>\<^verbatim>\<open>try_into().unwrap_or(i128::MAX)\<close> on a \<^verbatim>\<open>U256\<close>.\<close>

definition to_i128_or_max :: "u256 \<Rightarrow> i128" where
  "to_i128_or_max x = (if x < 2 ^ 127 then ucast x else i128_max)"

fun direction :: "side \<Rightarrow> i128" where
  "direction Long = 1"
| "direction Short = - 1"

definition i128_signum :: "i128 \<Rightarrow> int" where
  "i128_signum x = sgn (sint x)"

text \<open>\<^verbatim>\<open>abs\<close> wraps at the minimum, where \<^verbatim>\<open>unsigned_abs\<close> gives \<open>2 ^ 127\<close>.\<close>

definition i128_abs :: "i128 \<Rightarrow> i128" where
  "i128_abs x = (if sint x < 0 then - x else x)"

definition i128_unsigned_abs :: "i128 \<Rightarrow> u256" where
  "i128_unsigned_abs x = (if sint x < 0 then ucast (- x) else ucast x)"

section \<open>Matching and positions\<close>

definition is_reducing :: "i128 \<Rightarrow> i128 \<Rightarrow> bool" where
  "is_reducing order_size_signed position_size =
     (if position_size = 0 then False
      else let same_sign = ((sint order_size_signed > 0) = (sint position_size > 0))
           in if same_sign then False else True)"

definition calculate_required_margin :: "u256 \<Rightarrow> u256 \<Rightarrow> u8 \<Rightarrow> execution_error + u256" where
  "calculate_required_margin price sz leverage =
     (let notional = price * sz div PRICE_PRECISION;
          margin = notional div ucast leverage
      in Inr margin)"

definition execute_market_order ::
    "side \<Rightarrow> u256 \<Rightarrow> market_data \<Rightarrow> position_data option \<Rightarrow> bool \<Rightarrow> execution_error + u256 \<times> u256" where
  "execute_market_order side sz market current_position reduce_only =
     (let size_signed = to_i128_or_max sz * direction side
      in if reduce_only then
           (case current_position of
              Some pos \<Rightarrow>
                if \<not> is_reducing size_signed (pos_size pos) then Inl ReduceOnlyViolation
                else Inr (sz, mark_price market)
            | None \<Rightarrow> Inl ReduceOnlyViolation)
         else Inr (sz, mark_price market))"

definition execute_limit_order ::
    "side \<Rightarrow> u256 \<Rightarrow> u256 \<Rightarrow> market_data \<Rightarrow> position_data option \<Rightarrow> bool \<Rightarrow> execution_error + u256 \<times> u256" where
  "execute_limit_order side price sz market current_position reduce_only =
     (let can_fill = (case side of Long \<Rightarrow> mark_price market \<le> price | Short \<Rightarrow> mark_price market \<ge> price)
      in if \<not> can_fill then Inr (0, 0)
         else if reduce_only then
           (let size_signed = to_i128_or_max sz * direction side
            in case current_position of
                 Some pos \<Rightarrow>
                   if \<not> is_reducing size_signed (pos_size pos) then Inl ReduceOnlyViolation
                   else Inr (sz, price)
               | None \<Rightarrow> Inl ReduceOnlyViolation)
         else Inr (sz, price))"

definition update_position ::
    "position_data option \<Rightarrow> side \<Rightarrow> u256 \<Rightarrow> u256 \<Rightarrow> u8 \<Rightarrow> execution_error + position_data" where
  "update_position current side filled_size fill_price leverage =
     (let size_delta = to_i128_or_max filled_size * direction side
      in case current of
           Some pos \<Rightarrow>
             let new_size = pos_size pos + size_delta;
                 new_entry_price =
                   (if i128_signum (pos_size pos) = i128_signum size_delta then
                      let old_notional = i128_unsigned_abs (pos_size pos) * pos_entry_price pos div PRICE_PRECISION;
                          new_notional = i128_unsigned_abs size_delta * fill_price div PRICE_PRECISION;
                          total_notional = old_notional + new_notional;
                          total_size = i128_unsigned_abs new_size
                      in if total_size > 0 then total_notional * PRICE_PRECISION div total_size else 0
                    else if sint (i128_abs new_size) < sint (i128_abs (pos_size pos)) then pos_entry_price pos
                    else fill_price)
             in and_then (calculate_required_margin new_entry_price (i128_unsigned_abs new_size) leverage)
                  (\<lambda>new_margin. Inr
                     \<lparr>pos_size = new_size, pos_entry_price = new_entry_price, pos_leverage = leverage,
                      pos_margin = new_margin, pos_unrealized_pnl = 0,
                      pos_last_funding_index = pos_last_funding_index pos\<rparr>)
         | None \<Rightarrow>
             and_then (calculate_required_margin fill_price filled_size leverage)
               (\<lambda>margin. Inr
                  \<lparr>pos_size = size_delta, pos_entry_price = fill_price, pos_leverage = leverage,
                   pos_margin = margin, pos_unrealized_pnl = 0, pos_last_funding_index = 0\<rparr>))"

definition calculate_unrealized_pnl :: "position_data \<Rightarrow> u256 \<Rightarrow> i128" where
  "calculate_unrealized_pnl position mark =
     (if pos_size position = 0 then 0
      else
        let size_abs = i128_unsigned_abs (pos_size position);
            is_long = (sint (pos_size position) > 0);
            pnl = (\<lambda>diff. to_i128_or_max (size_abs * diff div PRICE_PRECISION))
        in if mark > pos_entry_price position then
             (let diff = mark - pos_entry_price position in if is_long then pnl diff else - pnl diff)
           else
             (let diff = pos_entry_price position - mark in if is_long then - pnl diff else pnl diff))"

section \<open>Operations\<close>

definition estimate_gas :: "operation \<Rightarrow> u64" where
  "estimate_gas op = 21000"

definition execute_set_leverage ::
    "perpdex_tx \<Rightarrow> u64 \<Rightarrow> u8 \<Rightarrow> perpdex_writes \<Rightarrow> execution_error + operation_result \<times> perpdex_writes" where
  "execute_set_leverage tx market_id leverage ws =
     (if leverage < 1 \<or> leverage > 100 then Inl (InvalidLeverage leverage)
      else Inr (LeverageUpdated market_id leverage, ws))"

definition execute_adjust_margin ::
    "(perpdex_location \<Rightarrow> u64) \<Rightarrow> perpdex_executor \<Rightarrow> perpdex_tx \<Rightarrow> u64 \<Rightarrow> u256 \<Rightarrow> perpdex_writes \<Rightarrow>
     execution_error + operation_result \<times> perpdex_writes" where
  "execute_adjust_margin fx e tx market_id amount ws =
     and_then (read_balance e (tx_user tx) USDC_ASSET_ID) (\<lambda>balance.
       if amount > balance then Inl (InsufficientBalance amount balance)
       else and_then (read_position e (tx_user tx) market_id) (\<lambda>position.
         case position of
           Some pos \<Rightarrow>
             let pos' = pos\<lparr>pos_margin := pos_margin pos + amount\<rparr>;
                 ws1 = write_set_push (location_hash fx) ws (LPosition (tx_user tx) market_id) (VPosition pos');
                 ws2 = write_set_push (location_hash fx) ws1 (LBalance (tx_user tx) USDC_ASSET_ID)
                         (VBalance (balance - amount))
             in Inr (MarginAdjusted market_id amount, ws2)
         | None \<Rightarrow> Inl (InvalidPosition ''No position to adjust margin'')))"

fun push_cancels :: "(perpdex_location \<Rightarrow> u64) \<Rightarrow> address \<Rightarrow> u64 \<Rightarrow> u64 list \<Rightarrow> perpdex_writes \<Rightarrow> perpdex_writes" where
  "push_cancels fx user market_id [] ws = ws"
| "push_cancels fx user market_id (order_id # ids) ws =
     push_cancels fx user market_id ids
       (write_set_push (location_hash fx) ws (LOrder user market_id order_id) VDeleted)"

definition execute_cancel_order ::
    "(perpdex_location \<Rightarrow> u64) \<Rightarrow> perpdex_tx \<Rightarrow> u64 \<Rightarrow> u64 list \<Rightarrow> perpdex_writes \<Rightarrow>
     execution_error + operation_result \<times> perpdex_writes" where
  "execute_cancel_order fx tx market_id order_ids ws =
     Inr (OrdersCancelled order_ids, push_cancels fx (tx_user tx) market_id order_ids ws)"

definition execute_cancel_all ::
    "(perpdex_location \<Rightarrow> u64) \<Rightarrow> perpdex_executor \<Rightarrow> perpdex_tx \<Rightarrow> u64 option \<Rightarrow> perpdex_writes \<Rightarrow>
     execution_error + operation_result \<times> perpdex_writes" where
  "execute_cancel_all fx e tx market_id ws =
     (let listed = (case market_id of
                      Some mid \<Rightarrow> store_user_orders (storage e) (tx_user tx) mid
                    | None \<Rightarrow> store_all_user_orders (storage e) (tx_user tx));
          mid = (case market_id of Some m \<Rightarrow> m | None \<Rightarrow> 0)
      in case listed of
           Inl err \<Rightarrow> Inl (StorageErr err)
         | Inr order_ids \<Rightarrow>
             Inr (OrdersCancelled order_ids, push_cancels fx (tx_user tx) mid order_ids ws))"

text \<open>
  \<^verbatim>\<open>execute_place_order\<close>: the order match of its step 5, and the whole operation. The order
  identifier comes from the executor, whose counter advances.
\<close>

definition match_order ::
    "order_type \<Rightarrow> side \<Rightarrow> u256 \<Rightarrow> u256 \<Rightarrow> bool \<Rightarrow> bool \<Rightarrow> market_data \<Rightarrow> position_data option \<Rightarrow>
     execution_error + u256 \<times> u256" where
  "match_order ot sd price sz post_only reduce_only market position =
     (case ot of
        Market \<Rightarrow> execute_market_order sd sz market position reduce_only
      | Limit \<Rightarrow> if post_only then Inr (0, 0) else execute_limit_order sd price sz market position reduce_only
      | StopLimit \<Rightarrow> Inr (0, 0)
      | StopMarket \<Rightarrow> Inr (0, 0))"

definition execute_place_order ::
    "(perpdex_location \<Rightarrow> u64) \<Rightarrow> perpdex_executor \<Rightarrow> perpdex_tx \<Rightarrow> u64 \<Rightarrow> order_type \<Rightarrow> side \<Rightarrow> u256 \<Rightarrow> u256 \<Rightarrow>
     u8 \<Rightarrow> bool \<Rightarrow> bool \<Rightarrow> u64 option \<Rightarrow> perpdex_writes \<Rightarrow>
     execution_error + operation_result \<times> perpdex_writes \<times> perpdex_executor" where
  "execute_place_order fx e tx market_id ot sd price sz leverage post_only reduce_only expires_at ws =
     (if leverage < 1 \<or> leverage > 100 then Inl (InvalidLeverage leverage)
      else
        and_then (read_balance e (tx_user tx) USDC_ASSET_ID) (\<lambda>balance.
        and_then (read_position e (tx_user tx) market_id) (\<lambda>position.
        and_then (read_market e market_id) (\<lambda>market.
        and_then (calculate_required_margin price sz leverage) (\<lambda>required_margin.
        if balance < required_margin then Inl (InsufficientBalance required_margin balance)
        else
          and_then (match_order ot sd price sz post_only reduce_only market position) (\<lambda>(filled_size, avg_fill_price).
          let (order_id, e1) = generate_order_id e;
              remaining = sz - filled_size;
              ws1 = (if remaining > 0 then
                       write_set_push (location_hash fx) ws (LOrder (tx_user tx) market_id order_id)
                         (VOrder \<lparr>ord_type = ot, ord_side = sd, ord_price = price, ord_size = remaining,
                            ord_filled = filled_size,
                            ord_status = (if filled_size > 0 then PartiallyFilled else Open),
                            ord_post_only = post_only, ord_reduce_only = reduce_only,
                            ord_created_at = timestamp (block_cfg e), ord_expires_at = expires_at\<rparr>)
                     else ws)
          in if filled_size > 0 then
               and_then (update_position position sd filled_size avg_fill_price leverage) (\<lambda>new_position.
                 let ws2 = write_set_push (location_hash fx) ws1 (LPosition (tx_user tx) market_id) (VPosition new_position);
                     ws3 = write_set_push (location_hash fx) ws2 (LBalance (tx_user tx) USDC_ASSET_ID)
                             (VBalance (balance - required_margin))
                 in Inr (OrderPlaced order_id filled_size, ws3, e1))
             else Inr (OrderPlaced order_id filled_size, ws1, e1)))))))"

section \<open>Transactions\<close>

fun execute_operation ::
    "(perpdex_location \<Rightarrow> u64) \<Rightarrow> perpdex_tx \<Rightarrow> operation \<Rightarrow> perpdex_writes \<Rightarrow> perpdex_executor \<Rightarrow>
     execution_error + operation_result \<times> perpdex_writes \<times> perpdex_executor" where
  "execute_operation fx tx (PlaceOrder market_id ot sd price sz leverage post_only reduce_only expires_at) ws e =
     execute_place_order fx e tx market_id ot sd price sz leverage post_only reduce_only expires_at ws"
| "execute_operation fx tx (CancelOrder market_id order_ids) ws e =
     and_then (execute_cancel_order fx tx market_id order_ids ws) (\<lambda>(r, ws1). Inr (r, ws1, e))"
| "execute_operation fx tx (CancelAll market_id) ws e =
     and_then (execute_cancel_all fx e tx market_id ws) (\<lambda>(r, ws1). Inr (r, ws1, e))"
| "execute_operation fx tx (SetLeverage market_id leverage) ws e =
     and_then (execute_set_leverage tx market_id leverage ws) (\<lambda>(r, ws1). Inr (r, ws1, e))"
| "execute_operation fx tx (AdjustMargin market_id amount) ws e =
     and_then (execute_adjust_margin fx e tx market_id amount ws) (\<lambda>(r, ws1). Inr (r, ws1, e))"

text \<open>
  The loop over the operations, with the results, the gas and the writes so far. An operation that
  fails leaves the executor as it was (the position of a fill is always computed, so no error
  follows the order identifier); the identifiers that earlier operations took are gone.
\<close>

fun execute_operations ::
    "(perpdex_location \<Rightarrow> u64) \<Rightarrow> perpdex_tx \<Rightarrow> operation list \<Rightarrow> operation_result list \<Rightarrow> u64 \<Rightarrow> perpdex_writes \<Rightarrow>
     perpdex_executor \<Rightarrow> (execution_error + operation_result list \<times> u64 \<times> perpdex_writes) \<times> perpdex_executor" where
  "execute_operations fx tx [] results gas ws e = (Inr (results, gas, ws), e)"
| "execute_operations fx tx (op # ops) results gas ws e =
     (case execute_operation fx tx op ws e of
        Inl err \<Rightarrow> (Inl err, e)
      | Inr (r, ws1, e1) \<Rightarrow> execute_operations fx tx ops (results @ [r]) (gas + estimate_gas op) ws1 e1)"

text \<open>\<^verbatim>\<open>VmExecutor::execute\<close>, with the executor afterwards.\<close>

definition execute ::
    "(perpdex_location \<Rightarrow> u64) \<Rightarrow> perpdex_executor \<Rightarrow> perpdex_tx \<Rightarrow>
     (perpdex_location, perpdex_value, perpdex_result, execution_error) vm_execution_result \<times> perpdex_executor" where
  "execute fx e tx =
     (case read_nonce e (tx_user tx) of
        Inl err \<Rightarrow> (Error err, e)
      | Inr current_nonce \<Rightarrow>
          if current_nonce \<noteq> tx_nonce tx then (Error (NonceMismatch current_nonce (tx_nonce tx)), e)
          else
            (case execute_operations fx tx (tx_operations tx) [] 0 write_set_new e of
               (Inl err, e1) \<Rightarrow> (Error err, e1)
             | (Inr (results, gas, ws), e1) \<Rightarrow>
                 let read_set = read_set_new;
                     ws1 = write_set_push (location_hash fx) ws (LUserNonce (tx_user tx)) (VNonce (current_nonce + 1));
                     flags = (if read_set_is_empty read_set then vm_flags_empty else vm_NeedValidation)
                 in (Success read_set ws1 \<lparr>gas_used = gas, operations_executed = results\<rparr> flags, e1)))"

fun lazy_location :: "address \<Rightarrow> operation \<Rightarrow> perpdex_location option" where
  "lazy_location user (PlaceOrder market_id _ _ _ _ _ _ _ _) = Some (LPosition user market_id)"
| "lazy_location user _ = None"

definition get_lazy_locations :: "perpdex_tx \<Rightarrow> perpdex_location list" where
  "get_lazy_locations tx = List.map_filter (lazy_location (tx_user tx)) (tx_operations tx)"

section \<open>What an operation writes\<close>

text \<open>
  Every write of an operation is a write of the transaction's own user, under its own hash; the
  nonce is not among them.
\<close>

definition own_write :: "(perpdex_location \<Rightarrow> u64) \<Rightarrow> address \<Rightarrow> u64 \<times> perpdex_location \<times> perpdex_value \<Rightarrow> bool" where
  "own_write fx user w \<longleftrightarrow> (case w of (h, loc, v) \<Rightarrow>
     location_user loc = Some user \<and> h = location_hash fx loc \<and> loc \<noteq> LUserNonce user)"

lemma push_cancels_writes:
  "\<exists>ws'. push_cancels fx user market_id ids ws = ws @ ws' \<and> (\<forall>w \<in> set ws'. own_write fx user w)"
proof (induction ids arbitrary: ws)
  case (Cons i ids)
  obtain ws' where "push_cancels fx user market_id ids
      (write_set_push (location_hash fx) ws (LOrder user market_id i) VDeleted) =
      write_set_push (location_hash fx) ws (LOrder user market_id i) VDeleted @ ws'"
    "\<forall>w \<in> set ws'. own_write fx user w"
    using Cons.IH by blast
  then show ?case
    by (intro exI [of _ "(location_hash fx (LOrder user market_id i), LOrder user market_id i, VDeleted) # ws'"])
      (simp add: write_set_push_def own_write_def)
qed simp

text \<open>A fill always has a position.\<close>

lemma update_position_total: "\<exists>p. update_position c sd filled avg lev = Inr p"
  by (simp add: update_position_def calculate_required_margin_def Let_def split: option.split)

lemma execute_place_order_cases:
  assumes "execute_place_order fx e tx m ot sd price sz lev po ro ex ws = Inr (r, ws', e')"
  obtains balance position market margin filled avg where
    "1 \<le> lev" "lev \<le> 100" "read_balance e (tx_user tx) USDC_ASSET_ID = Inr balance"
    "read_position e (tx_user tx) m = Inr position" "read_market e m = Inr market"
    "calculate_required_margin price sz lev = Inr margin" "margin \<le> balance"
    "match_order ot sd price sz po ro market position = Inr (filled, avg)"
    "r = OrderPlaced (next_order_id e) filled" "e' = e\<lparr>next_order_id := next_order_id e + 1\<rparr>"
    "ws' = ws
      @ (if sz - filled > 0 then [(location_hash fx (LOrder (tx_user tx) m (next_order_id e)),
            LOrder (tx_user tx) m (next_order_id e),
            VOrder \<lparr>ord_type = ot, ord_side = sd, ord_price = price, ord_size = sz - filled, ord_filled = filled,
              ord_status = (if filled > 0 then PartiallyFilled else Open), ord_post_only = po, ord_reduce_only = ro,
              ord_created_at = timestamp (block_cfg e), ord_expires_at = ex\<rparr>)] else [])
       @ (if filled > 0 then
            [(location_hash fx (LPosition (tx_user tx) m), LPosition (tx_user tx) m,
                VPosition (projr (update_position position sd filled avg lev))),
             (location_hash fx (LBalance (tx_user tx) USDC_ASSET_ID), LBalance (tx_user tx) USDC_ASSET_ID,
                VBalance (balance - margin))] else [])"
proof -
  have "\<not> (lev < 1 \<or> lev > 100)"
    by (rule notI) (use assms in \<open>simp add: execute_place_order_def del: word_less_1\<close>)
  then have lev: "1 \<le> lev" "lev \<le> 100" by (simp_all only: not_less de_Morgan_disj)
  obtain balance position market margin where
    r: "read_balance e (tx_user tx) USDC_ASSET_ID = Inr balance"
      "read_position e (tx_user tx) m = Inr position" "read_market e m = Inr market"
      "calculate_required_margin price sz lev = Inr margin" "margin \<le> balance" and
    rest: "and_then (match_order ot sd price sz po ro market position) (\<lambda>(filled_size, avg_fill_price).
      let (order_id, e1) = generate_order_id e;
          remaining = sz - filled_size;
          ws1 = (if remaining > 0 then
                   write_set_push (location_hash fx) ws (LOrder (tx_user tx) m order_id)
                     (VOrder \<lparr>ord_type = ot, ord_side = sd, ord_price = price, ord_size = remaining,
                        ord_filled = filled_size,
                        ord_status = (if filled_size > 0 then PartiallyFilled else Open),
                        ord_post_only = po, ord_reduce_only = ro,
                        ord_created_at = timestamp (block_cfg e), ord_expires_at = ex\<rparr>)
                 else ws)
      in if filled_size > 0 then
           and_then (update_position position sd filled_size avg_fill_price lev) (\<lambda>new_position.
             let ws2 = write_set_push (location_hash fx) ws1 (LPosition (tx_user tx) m) (VPosition new_position);
                 ws3 = write_set_push (location_hash fx) ws2 (LBalance (tx_user tx) USDC_ASSET_ID)
                         (VBalance (balance - margin))
             in Inr (OrderPlaced order_id filled_size, ws3, e1))
         else Inr (OrderPlaced order_id filled_size, ws1, e1)) = Inr (r, ws', e')"
    using assms lev unfolding execute_place_order_def
    by (auto elim!: and_then_InrE simp: not_less split: if_splits)
  from rest obtain filled avg where m: "match_order ot sd price sz po ro market position = Inr (filled, avg)"
    by (auto elim!: and_then_InrE)
  obtain p where p: "update_position position sd filled avg lev = Inr p"
    using update_position_total by blast
  show thesis
    by (rule that [OF lev r m]) (use rest m p in
      \<open>auto simp: generate_order_id_def Let_def write_set_push_def split: if_splits\<close>)
qed

lemma operation_own_writes:
  assumes "execute_operation fx tx op ws e = Inr (r, ws', e')"
  shows "\<exists>ws1. ws' = ws @ ws1 \<and> (\<forall>w \<in> set ws1. own_write fx (tx_user tx) w)"
proof (cases op)
  case (PlaceOrder m ot sd price sz lev po ro ex)
  with assms have "execute_place_order fx e tx m ot sd price sz lev po ro ex ws = Inr (r, ws', e')" by simp
  then show ?thesis
    by (rule execute_place_order_cases) (auto simp: own_write_def)
next
  case (CancelOrder m ids)
  then show ?thesis
    using assms push_cancels_writes [of fx "tx_user tx" m ids ws] by (auto simp: execute_cancel_order_def)
next
  case (CancelAll m)
  then show ?thesis
    using assms push_cancels_writes [of fx "tx_user tx"]
    by (auto simp: execute_cancel_all_def Let_def elim!: and_then_InrE split: sum.splits)
next
  case (SetLeverage m lev)
  then show ?thesis
    using assms by (auto simp: execute_set_leverage_def elim!: and_then_InrE split: if_splits)
next
  case (AdjustMargin m amount)
  then show ?thesis
    using assms
    by (auto simp: execute_adjust_margin_def Let_def write_set_push_def own_write_def elim!: and_then_InrE
        split: if_splits option.splits)
qed

text \<open>The identifiers of the orders placed.\<close>

fun placed_id :: "operation_result \<Rightarrow> u64 option" where
  "placed_id (OrderPlaced i f) = Some i"
| "placed_id _ = None"

abbreviation placed_ids :: "operation_result list \<Rightarrow> u64 list" where
  "placed_ids rs \<equiv> List.map_filter placed_id rs"

lemma operation_executor:
  assumes "execute_operation fx tx op ws e = Inr (r, ws', e')"
  shows "e' = e\<lparr>next_order_id := next_order_id e + of_nat (length (placed_ids [r]))\<rparr>"
    "placed_ids [r] = (if placed_id r = None then [] else [next_order_id e])"
proof -
  have "e' = e\<lparr>next_order_id := next_order_id e + of_nat (length (placed_ids [r]))\<rparr> \<and>
    placed_ids [r] = (if placed_id r = None then [] else [next_order_id e])"
  proof (cases op)
    case (PlaceOrder m ot sd price sz lev po ro ex)
    with assms have "execute_place_order fx e tx m ot sd price sz lev po ro ex ws = Inr (r, ws', e')" by simp
    then show ?thesis by (rule execute_place_order_cases) (simp add: map_filter_def)
  next
    case (CancelAll m)
    then show ?thesis
      using assms by (auto simp: execute_cancel_all_def Let_def map_filter_def elim!: and_then_InrE split: sum.splits)
  next
    case (AdjustMargin m amount)
    then show ?thesis
      using assms by (auto simp: execute_adjust_margin_def Let_def map_filter_def elim!: and_then_InrE
          split: if_splits option.splits)
  qed (use assms in \<open>auto simp: execute_cancel_order_def execute_set_leverage_def map_filter_def
        elim!: and_then_InrE split: if_splits\<close>)
  then show "e' = e\<lparr>next_order_id := next_order_id e + of_nat (length (placed_ids [r]))\<rparr>"
    "placed_ids [r] = (if placed_id r = None then [] else [next_order_id e])" by simp_all
qed

lemma map_filter_append: "List.map_filter f (xs @ ys) = List.map_filter f xs @ List.map_filter f ys"
  by (simp add: map_filter_def)

text \<open>What the loop over the operations adds.\<close>

lemma operations_effect:
  assumes "execute_operations fx tx ops results gas ws e = (Inr (results', gas', ws'), e')"
  shows "\<exists>rs ws1. results' = results @ rs \<and> ws' = ws @ ws1 \<and> length rs = length ops \<and>
    gas' = gas + 21000 * of_nat (length ops) \<and> (\<forall>w \<in> set ws1. own_write fx (tx_user tx) w) \<and>
    placed_ids rs = map (\<lambda>k. next_order_id e + of_nat k) [0..<length (placed_ids rs)] \<and>
    e' = e\<lparr>next_order_id := next_order_id e + of_nat (length (placed_ids rs))\<rparr>"
  using assms
proof (induction ops arbitrary: results gas ws e)
  case Nil
  then show ?case by (auto simp: map_filter_def)
next
  case (Cons op ops)
  from Cons.prems obtain r ws1 e1 where
    op: "execute_operation fx tx op ws e = Inr (r, ws1, e1)" and
    rest: "execute_operations fx tx ops (results @ [r]) (gas + estimate_gas op) ws1 e1 = (Inr (results', gas', ws'), e')"
    by (auto split: sum.splits)
  obtain wa where wa: "ws1 = ws @ wa" "\<forall>w \<in> set wa. own_write fx (tx_user tx) w"
    using operation_own_writes [OF op] by blast
  obtain rs wb where rs: "results' = (results @ [r]) @ rs" "ws' = ws1 @ wb" "length rs = length ops"
    "gas' = gas + estimate_gas op + 21000 * of_nat (length ops)" "\<forall>w \<in> set wb. own_write fx (tx_user tx) w"
    "placed_ids rs = map (\<lambda>k. next_order_id e1 + of_nat k) [0..<length (placed_ids rs)]"
    "e' = e1\<lparr>next_order_id := next_order_id e1 + of_nat (length (placed_ids rs))\<rparr>"
    using Cons.IH [OF rest] by blast
  note ex = operation_executor [OF op]
  have ids: "placed_ids (r # rs) = placed_ids [r] @ placed_ids rs"
    using map_filter_append [of placed_id "[r]" rs] by simp
  have "placed_ids (r # rs) = map (\<lambda>k. next_order_id e + of_nat k) [0..<length (placed_ids (r # rs))]"
  proof (cases "placed_id r")
    case None
    then show ?thesis using ids ex rs(6) by simp
  next
    case (Some i)
    then have e1: "next_order_id e1 = next_order_id e + 1" using ex by simp
    have "map (\<lambda>k. next_order_id e + of_nat k) [0..<Suc n] =
        next_order_id e # map (\<lambda>k. next_order_id e + 1 + of_nat k) [0..<n]" for n
      by (simp add: upt_conv_Cons map_Suc_upt [symmetric] comp_def algebra_simps del: upt_Suc)
    then show ?thesis using ids ex(2) Some rs(6) e1 by simp
  qed
  moreover have "e' = e\<lparr>next_order_id := next_order_id e + of_nat (length (placed_ids (r # rs)))\<rparr>"
    using rs(7) ex ids by (simp add: algebra_simps)
  moreover have "gas' = gas + 21000 * of_nat (length (op # ops))"
    using rs(4) by (simp add: estimate_gas_def algebra_simps)
  ultimately show ?case
    using rs wa by (intro exI [of _ "r # rs"] exI [of _ "wa @ wb"]) auto
qed

text \<open>A transaction that succeeds.\<close>

lemma execute_success:
  assumes "execute fx e tx = (Success rs ws res fl, e')"
  obtains ws0 where "read_nonce e (tx_user tx) = Inr (tx_nonce tx)" "rs = read_set_new" "fl = vm_flags_empty"
    "ws = ws0 @ [(location_hash fx (LUserNonce (tx_user tx)), LUserNonce (tx_user tx), VNonce (tx_nonce tx + 1))]"
    "\<forall>w \<in> set ws0. own_write fx (tx_user tx) w"
    "length (operations_executed res) = length (tx_operations tx)"
    "gas_used res = 21000 * of_nat (length (tx_operations tx))"
    "placed_ids (operations_executed res) =
       map (\<lambda>k. next_order_id e + of_nat k) [0..<length (placed_ids (operations_executed res))]"
    "e' = e\<lparr>next_order_id := next_order_id e + of_nat (length (placed_ids (operations_executed res)))\<rparr>"
proof -
  from assms obtain results gas ws1 where n: "read_nonce e (tx_user tx) = Inr (tx_nonce tx)" and
    ops: "execute_operations fx tx (tx_operations tx) [] 0 write_set_new e = (Inr (results, gas, ws1), e')" and
    out: "rs = read_set_new" "fl = vm_flags_empty" "res = \<lparr>gas_used = gas, operations_executed = results\<rparr>"
      "ws = ws1 @ [(location_hash fx (LUserNonce (tx_user tx)), LUserNonce (tx_user tx), VNonce (tx_nonce tx + 1))]"
    by (auto simp: execute_def Let_def write_set_push_def read_set_is_empty_def read_set_new_def
        split: sum.splits if_splits prod.splits)
  obtain rs' ws' where "results = [] @ rs'" "ws1 = write_set_new @ ws'" "length rs' = length (tx_operations tx)"
    "gas = 0 + 21000 * of_nat (length (tx_operations tx))" "\<forall>w \<in> set ws'. own_write fx (tx_user tx) w"
    "placed_ids rs' = map (\<lambda>k. next_order_id e + of_nat k) [0..<length (placed_ids rs')]"
    "e' = e\<lparr>next_order_id := next_order_id e + of_nat (length (placed_ids rs'))\<rparr>"
    using operations_effect [OF ops] by blast
  then show thesis using that [OF n out(1,2,4)] out(3) by (simp add: write_set_new_def)
qed

text \<open>An executor over the in-memory storage.\<close>

definition store_of :: "in_memory_storage \<Rightarrow> perpdex_store" where
  "store_of s = \<lparr>store_get = storage_get s, store_user_orders = get_user_orders s,
     store_all_user_orders = get_all_user_orders s\<rparr>"

definition executor_on :: "in_memory_storage \<Rightarrow> block_config \<Rightarrow> u64 \<Rightarrow> perpdex_executor" where
  "executor_on s cfg n = \<lparr>storage = store_of s, block_cfg = cfg, next_order_id = n\<rparr>"

abbreviation write_all :: "(perpdex_location \<times> perpdex_value) list \<Rightarrow> in_memory_storage \<Rightarrow> storage_error + in_memory_storage" where
  "write_all \<equiv> in_memory.write_all"

lemma read_nonce_on:
  "read_nonce (executor_on s cfg n) u =
     (case stored s (LUserNonce u) of None \<Rightarrow> Inr 0 | Some (VNonce k) \<Rightarrow> Inr k
      | _ \<Rightarrow> Inl (InvalidPosition ''Invalid nonce value''))"
  by (simp add: read_nonce_def read_location_def executor_on_def store_of_def storage_get_def)

section \<open>Properties\<close>

text \<open>
  Property C21. Replay protection and isolation: when a transaction succeeds on a storage and its
  writes are stored, the same transaction is rejected for its nonce from then on, and no location
  outside the user's own state has changed.
\<close>

theorem executed_not_replayable:
  assumes "storage_ok s" "execute fx (executor_on s cfg n) tx = (Success rs ws res fl, e')"
  shows "\<exists>s'. write_all (map snd ws) s = Inr s' \<and> storage_ok s' \<and>
    (\<forall>cfg' n'. execute fx (executor_on s' cfg' n') tx =
       (Error (NonceMismatch (tx_nonce tx + 1) (tx_nonce tx)), executor_on s' cfg' n')) \<and>
    (\<forall>l. location_user l \<noteq> Some (tx_user tx) \<longrightarrow> storage_get s' l = storage_get s l)"
proof -
  let ?n = "LUserNonce (tx_user tx)"
  from assms(2) obtain ws0 where
    ws: "ws = ws0 @ [(location_hash fx ?n, ?n, VNonce (tx_nonce tx + 1))]" and
    own: "\<forall>w \<in> set ws0. own_write fx (tx_user tx) w"
    by (rule execute_success)
  obtain s' where s': "write_all (map snd ws) s = Inr s'" "storage_ok s'" and
    get: "\<And>k. storage_get s' k = (case map_of (rev (map snd ws)) k of Some v \<Rightarrow> Inr (Some v) | None \<Rightarrow> storage_get s k)"
    using in_memory.write_all_get [OF assms(1), of "map snd ws"] by blast
  have "stored s' ?n = Some (VNonce (tx_nonce tx + 1))"
    using get [of ?n] by (simp add: ws storage_get_def)
  then have "execute fx (executor_on s' cfg' n') tx =
      (Error (NonceMismatch (tx_nonce tx + 1) (tx_nonce tx)), executor_on s' cfg' n')" for cfg' n'
    by (simp add: execute_def read_nonce_on)
  moreover have "storage_get s' l = storage_get s l" if "location_user l \<noteq> Some (tx_user tx)" for l
  proof -
    have "l \<notin> fst ` set (rev (map snd ws))"
      using that own by (force simp: ws own_write_def)
    then have "map_of (rev (map snd ws)) l = None" by (simp only: map_of_eq_None_iff) simp
    then show ?thesis using get [of l] by simp
  qed
  ultimately show ?thesis using s' by blast
qed

definition example_storage :: in_memory_storage where
  "example_storage = with_balances [(7, 0, 1000)]"

definition example_tx :: perpdex_tx where
  "example_tx =
     \<lparr>tx_user = 7, tx_operations = [SetLeverage 1 10, CancelOrder 1 [4]], tx_gas_limit = 100000, tx_gas_price = 1,
      tx_nonce = 0, tx_signature = None\<rparr>"

definition example_cfg :: block_config where
  "example_cfg = \<lparr>timestamp = 100, block_number = 1\<rparr>"

lemma example_storage_ok: "storage_ok example_storage"
  by (simp add: example_storage_def with_balances_def storage_new_def storage_ok_def)

lemma example_execute:
  "execute (\<lambda>_. 5) (executor_on example_storage example_cfg 1) example_tx =
     (Success read_set_new
        [(location_hash (\<lambda>_. 5) (LOrder 7 1 4), LOrder 7 1 4, VDeleted),
         (location_hash (\<lambda>_. 5) (LUserNonce 7), LUserNonce 7, VNonce 1)]
        \<lparr>gas_used = 42000, operations_executed = [LeverageUpdated 1 10, OrdersCancelled [4]]\<rparr> vm_flags_empty,
      executor_on example_storage example_cfg 1)"
  by (simp add: execute_def read_nonce_on example_tx_def example_storage_def with_balances_def storage_new_def
      execute_set_leverage_def execute_cancel_order_def write_set_push_def write_set_new_def estimate_gas_def
      read_set_is_empty_def read_set_new_def)

theorem executed_not_replayable_witness:
  "\<exists>s'. write_all [(LOrder 7 1 4, VDeleted), (LUserNonce 7, VNonce 1)] example_storage = Inr s' \<and> storage_ok s' \<and>
    (\<forall>cfg' n'. execute (\<lambda>_. 5) (executor_on s' cfg' n') example_tx =
       (Error (NonceMismatch 1 0), executor_on s' cfg' n')) \<and>
    (\<forall>l. location_user l \<noteq> Some 7 \<longrightarrow> storage_get s' l = storage_get example_storage l)"
  using executed_not_replayable [OF example_storage_ok example_execute] by (simp add: example_tx_def)

text \<open>
  Property C22. A successful execution reports one result per operation and charges 21000 gas for
  each (modulo the width of the gas counter), writes nothing but the user's own locations, each
  under its hash, with the next nonce last, and numbers the orders it places consecutively from the
  executor's counter, which it leaves past them. It records no read: the read set is empty, and so
  are the flags.
\<close>

theorem execute_reports:
  assumes "execute fx e tx = (Success rs ws res fl, e')"
  shows "read_nonce e (tx_user tx) = Inr (tx_nonce tx) \<and>
    length (operations_executed res) = length (tx_operations tx) \<and>
    gas_used res = 21000 * of_nat (length (tx_operations tx)) \<and>
    (\<forall>(h, loc, v) \<in> set ws. location_user loc = Some (tx_user tx) \<and> h = location_hash fx loc) \<and>
    snd (last ws) = (LUserNonce (tx_user tx), VNonce (tx_nonce tx + 1)) \<and>
    placed_ids (operations_executed res) =
      map (\<lambda>k. next_order_id e + of_nat k) [0..<length (placed_ids (operations_executed res))] \<and>
    e' = e\<lparr>next_order_id := next_order_id e + of_nat (length (placed_ids (operations_executed res)))\<rparr> \<and>
    rs = read_set_new \<and> fl = vm_flags_empty"
  by (rule execute_success [OF assms]) (auto simp: own_write_def)

theorem execute_reports_witness:
  "read_nonce (executor_on example_storage example_cfg 1) 7 = Inr 0 \<and>
    length [LeverageUpdated 1 10, OrdersCancelled [4]] = length (tx_operations example_tx)"
  using execute_reports [OF example_execute] by (simp add: example_tx_def)

section \<open>Sizes as integers\<close>

lemma sint_to_i128:
  assumes "unat x < 2 ^ 127"
  shows "sint (to_i128_or_max x) = int (unat x)"
proof -
  have "x < 2 ^ 127" using assms by (simp add: word_less_nat_alt)
  moreover define k where "k = unat x"
  have "ucast x = (word_of_int (int k) :: i128)" by (simp add: k_def)
  moreover have "sint (word_of_int (int k) :: i128) = int k"
    using assms by (intro sint_of_int_i128) (simp_all add: k_def [symmetric])
  ultimately have "sint (ucast x :: i128) = int (unat x)" by (simp only: k_def)
  with \<open>x < 2 ^ 127\<close> show ?thesis by (simp add: to_i128_or_max_def)
qed

fun side_sign :: "side \<Rightarrow> int" where
  "side_sign Long = 1"
| "side_sign Short = - 1"

lemma sint_signed_size:
  assumes "unat x < 2 ^ 127"
  shows "sint (to_i128_or_max x * direction sd) = side_sign sd * int (unat x)"
proof -
  have "0 \<le> sint (to_i128_or_max x)" using sint_to_i128 [OF assms] by simp
  then have "sint (to_i128_or_max x) \<noteq> - (2 ^ 127)" by auto
  then show ?thesis
    using sint_to_i128 [OF assms] sint_uminus_i128 [of "to_i128_or_max x"] by (cases sd) simp_all
qed

lemma unat_unsigned_abs: "unat (i128_unsigned_abs x) = nat \<bar>sint x\<bar>"
proof (cases "sint x < 0")
  case True
  have "unat (ucast (- x) :: u256) = unat (- x)" by (rule unat_ucast_up) simp
  also have "\<dots> = nat (uint (- x))" by simp
  finally show ?thesis using True uint_uminus_i128 [OF True] by (simp add: i128_unsigned_abs_def)
next
  case False
  have "unat (ucast x :: u256) = unat x" by (rule unat_ucast_up) simp
  also have "\<dots> = nat (uint x)" by simp
  finally show ?thesis using False uint_sint_i128 [of x] by (simp add: i128_unsigned_abs_def)
qed

lemma sint_i128_abs: "sint x \<noteq> - (2 ^ 127) \<Longrightarrow> sint (i128_abs x) = \<bar>sint x\<bar>"
  using sint_uminus_i128 [of x] by (simp add: i128_abs_def)

section \<open>Matching and margins\<close>

text \<open>The price at which an order is filled at once, when it is.\<close>

fun marketable :: "order_type \<Rightarrow> side \<Rightarrow> u256 \<Rightarrow> bool \<Rightarrow> u256 \<Rightarrow> bool" where
  "marketable Market sd price post_only mark = True"
| "marketable Limit Long price post_only mark = (\<not> post_only \<and> mark \<le> price)"
| "marketable Limit Short price post_only mark = (\<not> post_only \<and> mark \<ge> price)"
| "marketable _ sd price post_only mark = False"

lemma match_order_filled:
  assumes "match_order ot sd price sz po ro market position = Inr (filled, avg)"
  shows "filled = (if marketable ot sd price po (mark_price market) then sz else 0)"
    "marketable ot sd price po (mark_price market) \<Longrightarrow> avg = (if ot = Market then mark_price market else price)"
    "marketable ot sd price po (mark_price market) \<Longrightarrow> ro \<Longrightarrow>
       \<exists>p. position = Some p \<and> is_reducing (to_i128_or_max sz * direction sd) (pos_size p)"
  using assms
  by (cases ot; cases sd;
      auto simp: match_order_def execute_market_order_def execute_limit_order_def Let_def
        split: if_splits option.splits)+

lemma unat_precision: "unat PRICE_PRECISION = 10 ^ 18"
  by (simp add: PRICE_PRECISION_def)

text \<open>The required margin when the notional value fits.\<close>

lemma required_margin_no_wrap:
  assumes "unat price * unat sz < 2 ^ 256" "calculate_required_margin price sz lev = Inr margin"
  shows "unat margin = unat price * unat sz div 10 ^ 18 div unat lev"
proof -
  have "unat (ucast lev :: u256) = unat lev" by (rule unat_ucast_up) simp
  moreover have "unat (price * sz) = unat price * unat sz"
    using assms(1) by (intro unat_mult_no_wrap) simp
  ultimately show ?thesis
    using assms(2) by (auto simp: calculate_required_margin_def Let_def unat_div_distrib unat_precision)
qed

text \<open>
  Property C23. An order that is placed passes its checks: its leverage is between 1 and 100 and,
  when its notional value fits 256 bits, the user's balance covers the margin. It is filled whole
  or not at all. An order that is not filled is written to the book with its full size; a filled one
  is not, and then the position is written and the balance is lowered by exactly the margin.
\<close>

theorem place_order_writes:
  assumes "execute_place_order fx e tx m ot sd price sz lev po ro ex ws = Inr (OrderPlaced i filled, ws', e')"
    and "read_balance e (tx_user tx) USDC_ASSET_ID = Inr balance" "unat price * unat sz < 2 ^ 256" "sz \<noteq> 0"
  shows "1 \<le> lev \<and> lev \<le> 100 \<and> i = next_order_id e \<and>
    unat price * unat sz div 10 ^ 18 div unat lev \<le> unat balance \<and>
    (filled = 0 \<and>
       (\<exists>od. map snd ws' = map snd ws @ [(LOrder (tx_user tx) m i, VOrder od)] \<and>
         ord_size od = sz \<and> ord_filled od = 0 \<and> ord_status od = Open \<and> ord_price od = price \<and> ord_side od = sd) \<or>
     filled = sz \<and>
       (\<exists>p b. map snd ws' = map snd ws @ [(LPosition (tx_user tx) m, VPosition p), (LBalance (tx_user tx) USDC_ASSET_ID, VBalance b)] \<and>
         unat b = unat balance - unat price * unat sz div 10 ^ 18 div unat lev))"
  using assms(1)
proof (rule execute_place_order_cases)
  fix bal position market margin fl avg
  assume lev: "1 \<le> lev" "lev \<le> 100" and bal: "read_balance e (tx_user tx) USDC_ASSET_ID = Inr bal"
    and margin: "calculate_required_margin price sz lev = Inr margin" "margin \<le> bal"
    and m: "match_order ot sd price sz po ro market position = Inr (fl, avg)"
    and r: "OrderPlaced i filled = OrderPlaced (next_order_id e) fl"
    and ws': "ws' = ws
      @ (if sz - fl > 0 then [(location_hash fx (LOrder (tx_user tx) m (next_order_id e)),
            LOrder (tx_user tx) m (next_order_id e),
            VOrder \<lparr>ord_type = ot, ord_side = sd, ord_price = price, ord_size = sz - fl, ord_filled = fl,
              ord_status = (if fl > 0 then PartiallyFilled else Open), ord_post_only = po, ord_reduce_only = ro,
              ord_created_at = timestamp (block_cfg e), ord_expires_at = ex\<rparr>)] else [])
      @ (if fl > 0 then
            [(location_hash fx (LPosition (tx_user tx) m), LPosition (tx_user tx) m,
                VPosition (projr (update_position position sd fl avg lev))),
             (location_hash fx (LBalance (tx_user tx) USDC_ASSET_ID), LBalance (tx_user tx) USDC_ASSET_ID,
                VBalance (bal - margin))] else [])"
  have b: "bal = balance" using bal assms(2) by simp
  note um = required_margin_no_wrap [OF assms(3) margin(1)]
  have "unat (balance - margin) = unat balance - unat margin"
    using margin(2) b by (simp add: unat_sub_le)
  moreover have "unat margin \<le> unat balance" using margin(2) b by (simp add: word_le_nat_alt)
  moreover have "fl = 0 \<or> fl = sz" using match_order_filled(1) [OF m] by (simp split: if_splits)
  ultimately show ?thesis
    using lev r ws' um b assms(4) by (auto simp: word_gt_0)
qed

definition example_account :: in_memory_storage where
  "example_account = with_balances [(7, 0, 2 ^ 70)]"

lemma example_account_reads:
  "read_balance (executor_on example_account example_cfg 1) 7 0 = Inr (2 ^ 70)"
  "read_position (executor_on example_account example_cfg 1) 7 m = Inr None"
  "read_market (executor_on example_account example_cfg 1) m = Inr
     \<lparr>index_price = 1000 * 10 ^ 18, mark_price = 1000 * 10 ^ 18, funding_rate = 0,
      funding_index = 0, open_interest_long = 0, open_interest_short = 0, last_update = 100\<rparr>"
  by (simp_all add: read_balance_def read_position_def read_market_def read_location_def executor_on_def
      store_of_def storage_get_def example_account_def with_balances_def storage_new_def example_cfg_def)

lemma example_market_order:
  "execute_place_order fx (executor_on example_account example_cfg 1) example_tx 1 Market Long (10 ^ 20) (10 ^ 18) 10 False
     False None [] =
     Inr (OrderPlaced 1 (10 ^ 18),
       [(location_hash fx (LPosition 7 1), LPosition 7 1,
          VPosition \<lparr>pos_size = 10 ^ 18, pos_entry_price = 1000 * 10 ^ 18, pos_leverage = 10, pos_margin = 10 ^ 20,
            pos_unrealized_pnl = 0, pos_last_funding_index = 0\<rparr>),
        (location_hash fx (LBalance 7 0), LBalance 7 0, VBalance (2 ^ 70 - 10 ^ 19))],
       executor_on example_account example_cfg 2)"
  by (simp add: execute_place_order_def example_tx_def USDC_ASSET_ID_def example_account_reads
      calculate_required_margin_def match_order_def execute_market_order_def update_position_def Let_def
      to_i128_or_max_def PRICE_PRECISION_def generate_order_id_def write_set_push_def)
    (simp add: executor_on_def)

theorem place_order_writes_witness:
  "(1 :: u8) \<le> 10 \<and> (10 :: u8) \<le> 100 \<and> (1 :: u64) = next_order_id (executor_on example_account example_cfg 1) \<and>
    unat (10 ^ 20 :: u256) * unat (10 ^ 18 :: u256) div 10 ^ 18 div unat (10 :: u8) \<le> unat (2 ^ 70 :: u256)"
proof -
  have "read_balance (executor_on example_account example_cfg 1) (tx_user example_tx) USDC_ASSET_ID = Inr (2 ^ 70)"
    using example_account_reads(1) by (simp add: example_tx_def USDC_ASSET_ID_def)
  from place_order_writes [OF example_market_order this] show ?thesis by simp
qed

text \<open>
  Property C32. The margin check of a market order uses the price named in the order, not the mark
  price it fills at. A market order that names the price zero is accepted with any balance, which
  it leaves as it was, and opens a position at the mark price whose recorded margin nobody paid.
\<close>

theorem market_order_without_margin:
  assumes "read_balance e (tx_user tx) USDC_ASSET_ID = Inr balance" "read_position e (tx_user tx) m = Inr None"
    and "read_market e m = Inr market" "1 \<le> lev" "lev \<le> 100" "sz > 0"
  shows "\<exists>p. execute_place_order fx e tx m Market sd 0 sz lev po False ex ws =
      Inr (OrderPlaced (next_order_id e) sz,
        ws @ [(location_hash fx (LPosition (tx_user tx) m), LPosition (tx_user tx) m, VPosition p),
              (location_hash fx (LBalance (tx_user tx) USDC_ASSET_ID), LBalance (tx_user tx) USDC_ASSET_ID, VBalance balance)],
        e\<lparr>next_order_id := next_order_id e + 1\<rparr>) \<and>
    pos_entry_price p = mark_price market \<and>
    pos_margin p = mark_price market * sz div PRICE_PRECISION div ucast lev"
proof -
  have "\<not> (lev < 1 \<or> lev > 100)" using assms(4,5) by auto
  then show ?thesis
    using assms(1-3,6)
    by (simp add: execute_place_order_def calculate_required_margin_def match_order_def execute_market_order_def
        update_position_def Let_def generate_order_id_def write_set_push_def del: word_less_1)
qed

theorem market_order_without_margin_witness:
  "\<exists>p. execute_place_order (\<lambda>_. 5) (executor_on storage_new example_cfg 1) example_tx 1 Market Long 0 (10 ^ 18) 10 False False None [] =
      Inr (OrderPlaced 1 (10 ^ 18),
        [(location_hash (\<lambda>_. 5) (LPosition 7 1), LPosition 7 1, VPosition p),
         (location_hash (\<lambda>_. 5) (LBalance 7 0), LBalance 7 0, VBalance 0)],
        executor_on storage_new example_cfg 2) \<and>
    pos_entry_price p = 1000 * 10 ^ 18 \<and> pos_margin p = 10 ^ 20"
proof -
  let ?e = "executor_on storage_new example_cfg 1"
  have r: "read_balance ?e (tx_user example_tx) USDC_ASSET_ID = Inr 0" "read_position ?e (tx_user example_tx) 1 = Inr None"
    "read_market ?e 1 = Inr
     \<lparr>index_price = 1000 * 10 ^ 18, mark_price = 1000 * 10 ^ 18, funding_rate = 0,
      funding_index = 0, open_interest_long = 0, open_interest_short = 0, last_update = 100\<rparr>"
    by (simp_all add: read_balance_def read_position_def read_market_def read_location_def executor_on_def
        store_of_def storage_get_def storage_new_def example_cfg_def)
  show ?thesis
    using market_order_without_margin [OF r, where lev = 10 and sz = "10 ^ 18" and fx = "\<lambda>_. 5" and sd = Long and po = False
        and ex = None and ws = "[]"]
    by (simp add: example_tx_def USDC_ASSET_ID_def executor_on_def PRICE_PRECISION_def)
qed

text \<open>
  Property C33. Each operation of a transaction reads the state before the transaction, so two
  margin additions of one transaction both spend the whole balance: it is lowered once, and both
  positions gain it.
\<close>

theorem margin_spent_twice:
  assumes "read_balance e (tx_user tx) USDC_ASSET_ID = Inr b"
    and "read_position e (tx_user tx) m = Inr (Some p)" "read_position e (tx_user tx) n = Inr (Some q)"
  shows "\<exists>ws. execute_operations fx tx [AdjustMargin m b, AdjustMargin n b] [] 0 write_set_new e =
      (Inr ([MarginAdjusted m b, MarginAdjusted n b], 42000, ws), e) \<and>
    map snd ws =
      [(LPosition (tx_user tx) m, VPosition (p\<lparr>pos_margin := pos_margin p + b\<rparr>)),
       (LBalance (tx_user tx) USDC_ASSET_ID, VBalance 0),
       (LPosition (tx_user tx) n, VPosition (q\<lparr>pos_margin := pos_margin q + b\<rparr>)),
       (LBalance (tx_user tx) USDC_ASSET_ID, VBalance 0)]"
  using assms
  by (simp add: execute_adjust_margin_def Let_def write_set_push_def write_set_new_def estimate_gas_def)

definition example_positions :: in_memory_storage where
  "example_positions = storage_new\<lparr>stored :=
     [LBalance 7 0 \<mapsto> VBalance 500, LPosition 7 1 \<mapsto> empty_position, LPosition 7 2 \<mapsto> empty_position]\<rparr>"

theorem margin_spent_twice_witness:
  "\<exists>ws p q. fst (execute_operations (\<lambda>_. 5) example_tx [AdjustMargin 1 500, AdjustMargin 2 500] [] 0 write_set_new
      (executor_on example_positions example_cfg 1)) =
      Inr ([MarginAdjusted 1 500, MarginAdjusted 2 500], 42000, ws) \<and>
    map snd ws = [(LPosition 7 1, VPosition p), (LBalance 7 0, VBalance 0),
       (LPosition 7 2, VPosition q), (LBalance 7 0, VBalance 0)] \<and> pos_margin p = 500 \<and> pos_margin q = 500"
proof -
  let ?e = "executor_on example_positions example_cfg 1"
  let ?p = "\<lparr>pos_size = 0, pos_entry_price = 0, pos_leverage = 1, pos_margin = 0, pos_unrealized_pnl = 0,
      pos_last_funding_index = 0\<rparr>"
  have r: "read_balance ?e (tx_user example_tx) USDC_ASSET_ID = Inr 500"
    "read_position ?e (tx_user example_tx) 1 = Inr (Some ?p)" "read_position ?e (tx_user example_tx) 2 = Inr (Some ?p)"
    by (simp_all add: read_balance_def read_position_def read_location_def executor_on_def
        store_of_def storage_get_def storage_new_def example_positions_def example_tx_def USDC_ASSET_ID_def empty_position_def)
  show ?thesis
    using margin_spent_twice [OF r, of "\<lambda>_. 5"] by (auto simp: example_tx_def USDC_ASSET_ID_def)
qed

text \<open>
  Property C34. A reduce-only order may turn the position around and leave it larger than it was: a
  market order to buy more than twice a short position passes the reduce-only check, is filled
  whole, and the position it leaves is longer than the old one was short.
\<close>

theorem reduce_only_flips:
  assumes "sint (pos_size pos) < 0" "- 2 * sint (pos_size pos) < int (unat sz)" "unat sz < 2 ^ 127"
  shows "execute_market_order Long sz market (Some pos) True = Inr (sz, mark_price market) \<and>
    (\<exists>p. update_position (Some pos) Long sz (mark_price market) lev = Inr p \<and>
       sint (pos_size p) = sint (pos_size pos) + int (unat sz) \<and> \<bar>sint (pos_size pos)\<bar> < \<bar>sint (pos_size p)\<bar>)"
proof -
  have s: "sint (to_i128_or_max sz * direction Long) = int (unat sz)"
    using sint_signed_size [OF assms(3), of Long] by simp
  have "int (unat sz) < 2 ^ 127" using assms(3) by (metis of_nat_less_iff of_nat_numeral of_nat_power)
  then have add: "sint (pos_size pos + to_i128_or_max sz * direction Long) = sint (pos_size pos) + int (unat sz)"
    using s assms sint_add_i128 [of "pos_size pos" "to_i128_or_max sz * direction Long"] by linarith
  have "is_reducing (to_i128_or_max sz * direction Long) (pos_size pos)"
    using s assms by (auto simp: is_reducing_def Let_def)
  moreover have "\<exists>p. update_position (Some pos) Long sz (mark_price market) lev = Inr p \<and>
      pos_size p = pos_size pos + to_i128_or_max sz * direction Long"
    by (simp add: update_position_def calculate_required_margin_def Let_def)
  ultimately show ?thesis
    using add assms by (force simp: execute_market_order_def)
qed

theorem reduce_only_flips_witness:
  "let pos = \<lparr>pos_size = - 5, pos_entry_price = 100, pos_leverage = 1, pos_margin = 0, pos_unrealized_pnl = 0,
      pos_last_funding_index = 0\<rparr>;
     market = \<lparr>index_price = 100, mark_price = 100, funding_rate = 0, funding_index = 0, open_interest_long = 0,
      open_interest_short = 0, last_update = 0\<rparr>
   in execute_market_order Long 20 market (Some pos) True = Inr (20, 100) \<and>
    (\<exists>p. update_position (Some pos) Long 20 100 3 = Inr p \<and> sint (pos_size p) = 15)"
  using reduce_only_flips [of "\<lparr>pos_size = - 5, pos_entry_price = 100, pos_leverage = 1, pos_margin = 0,
      pos_unrealized_pnl = 0, pos_last_funding_index = 0\<rparr>" 20
      "\<lparr>index_price = 100, mark_price = 100, funding_rate = 0, funding_index = 0, open_interest_long = 0,
      open_interest_short = 0, last_update = 0\<rparr>" 3]
  by (auto simp: Let_def)

end
