(* ===== verification/Perpdex_Positions.thy ===== *)
theory Perpdex_Positions
  imports Perpdex_Executor
begin

text \<open>
  The arithmetic of positions in \<^verbatim>\<open>perpdex/executor.rs\<close>, over the integers: what a fill does to
  a position and what a position is worth, while the amounts fit their types.
\<close>

section \<open>Position arithmetic\<close>

text \<open>The weighted average of two prices, rounded as the code rounds, is at most the larger one.\<close>

lemma weighted_average_le:
  fixes S f E F P :: nat
  shows "(S * E div P + f * F div P) * P div (S + f) \<le> max E F"
proof (cases "S + f = 0")
  case False
  have "(S * E div P + f * F div P) * P \<le> S * E + f * F"
    unfolding add_mult_distrib by (intro add_mono div_times_less_eq_dividend)
  also have "\<dots> \<le> S * max E F + f * max E F" by (intro add_mono mult_le_mono2) simp_all
  also have "\<dots> = max E F * (S + f)" by (simp add: algebra_simps)
  finally have "(S * E div P + f * F div P) * P \<le> max E F * (S + f)" .
  then have "(S * E div P + f * F div P) * P div (S + f) \<le> max E F * (S + f) div (S + f)" by (rule div_le_mono)
  also have "\<dots> = max E F" using False by (intro nonzero_mult_div_cancel_right)
  finally show ?thesis .
qed simp

lemma unat_average:
  fixes E F s d t :: u256
  assumes "(S + f) * max (unat E) (unat F) < 2 ^ 256" "unat s = S" "unat d = f" "unat t = S + f"
  shows "unat ((s * E div PRICE_PRECISION + d * F div PRICE_PRECISION) * PRICE_PRECISION div t)
    = (S * unat E div 10 ^ 18 + f * unat F div 10 ^ 18) * 10 ^ 18 div (S + f)"
proof -
  have le: "S * unat E + f * unat F \<le> (S + f) * max (unat E) (unat F)"
    by (simp add: add_mult_distrib add_mono)
  have "unat (s * E) = S * unat E" "unat (d * F) = f * unat F"
    using assms le by (simp_all add: unat_mult_no_wrap)
  then have q: "unat (s * E div PRICE_PRECISION) = S * unat E div 10 ^ 18"
    "unat (d * F div PRICE_PRECISION) = f * unat F div 10 ^ 18"
    by (simp_all add: unat_div_distrib unat_precision)
  have b: "S * unat E div 10 ^ 18 * 10 ^ 18 + f * unat F div 10 ^ 18 * 10 ^ 18 \<le> S * unat E + f * unat F"
    by (intro add_mono div_times_less_eq_dividend)
  then have "(S * unat E div 10 ^ 18 + f * unat F div 10 ^ 18) * 10 ^ 18 < 2 ^ 256"
    using le assms(1) by (simp add: add_mult_distrib)
  then have "unat ((s * E div PRICE_PRECISION + d * F div PRICE_PRECISION) * PRICE_PRECISION) =
      (S * unat E div 10 ^ 18 + f * unat F div 10 ^ 18) * 10 ^ 18"
    using q by (simp add: unat_mult_no_wrap unat_add_no_wrap unat_precision)
  then show ?thesis by (simp add: unat_div_distrib assms(4))
qed

lemma abs_add_same_side:
  "sgn x = side_sign sd \<Longrightarrow> 0 \<le> k \<Longrightarrow> \<bar>x + side_sign sd * k\<bar> = \<bar>x\<bar> + k"
  by (cases sd) (auto simp: sgn_if split: if_splits)

text \<open>
  Property C24. Filling against a position adds the signed size exactly. In the position's own
  direction the entry price becomes the size-weighted average of both prices, rounded down, which
  never exceeds the larger of them; against it the old entry price stays while the position
  shrinks, and becomes the fill price once it is turned around. The margin is the notional value at
  the new entry price over the leverage. This holds while sizes and notional values fit their types.
\<close>

theorem update_position_exact:
  fixes pos :: position_data
  defines "S \<equiv> nat \<bar>sint (pos_size pos)\<bar>" and "E \<equiv> unat (pos_entry_price pos)"
  assumes "0 < unat filled" "S + unat filled < 2 ^ 127" "(S + unat filled) * max E (unat fill) < 2 ^ 256"
  shows "\<exists>p. update_position (Some pos) sd filled fill lev = Inr p \<and>
    sint (pos_size p) = sint (pos_size pos) + side_sign sd * int (unat filled) \<and>
    unat (pos_entry_price p) =
      (if sgn (sint (pos_size pos)) = side_sign sd
       then (S * E div 10 ^ 18 + unat filled * unat fill div 10 ^ 18) * 10 ^ 18 div (S + unat filled)
       else if \<bar>sint (pos_size p)\<bar> < \<bar>sint (pos_size pos)\<bar> then E else unat fill) \<and>
    unat (pos_entry_price p) \<le> max E (unat fill) \<and>
    unat (pos_margin p) = unat (pos_entry_price p) * nat \<bar>sint (pos_size p)\<bar> div 10 ^ 18 div unat lev"
proof -
  let ?d = "to_i128_or_max filled * direction sd" and ?f = "unat filled"
  let ?new = "pos_size pos + ?d"
  have "?f < 2 ^ 127" using assms(4) by linarith
  then have d: "sint ?d = side_sign sd * int ?f" by (rule sint_signed_size)
  have total: "\<bar>sint (pos_size pos)\<bar> + int ?f = int (S + ?f)" by (simp add: S_def)
  also have "int (S + ?f) < int (2 ^ 127)" using assms(4) by (simp only: of_nat_less_iff)
  also have "\<dots> = 2 ^ 127" by (simp only: of_nat_power of_nat_numeral)
  finally have bound: "\<bar>sint (pos_size pos)\<bar> + int ?f < 2 ^ 127" .
  have mag: "\<bar>side_sign sd * int ?f\<bar> = int ?f" by (cases sd) simp_all
  have new: "sint ?new = sint (pos_size pos) + side_sign sd * int ?f"
  proof -
    have "\<bar>sint (pos_size pos) + sint ?d\<bar> < 2 ^ 127"
      using bound mag abs_triangle_ineq [of "sint (pos_size pos)" "sint ?d"] unfolding d by linarith
    then show ?thesis using sint_add_i128 [of "pos_size pos" ?d] d by linarith
  qed
  obtain p where p: "update_position (Some pos) sd filled fill lev = Inr p" using update_position_total by blast
  have ps: "pos_size p = ?new"
    using p by (auto simp: update_position_def calculate_required_margin_def Let_def)
  have same: "i128_signum (pos_size pos) = i128_signum ?d \<longleftrightarrow> sgn (sint (pos_size pos)) = side_sign sd"
    using d assms(3) by (cases sd) (auto simp: i128_signum_def)
  have ua: "unat (i128_unsigned_abs (pos_size pos)) = S" "unat (i128_unsigned_abs ?d) = ?f"
    using d by (cases sd; simp add: unat_unsigned_abs S_def)+
  have un: "unat (i128_unsigned_abs ?new) = nat \<bar>sint ?new\<bar>" by (rule unat_unsigned_abs)
  have small: "nat \<bar>sint ?new\<bar> \<le> S + ?f"
  proof -
    have "\<bar>sint ?new\<bar> \<le> int (S + ?f)"
      using mag total abs_triangle_ineq [of "sint (pos_size pos)" "side_sign sd * int ?f"] unfolding new by linarith
    then show ?thesis by (simp only: nat_le_iff)
  qed
  have abs: "sint (i128_abs ?new) = \<bar>sint ?new\<bar>" "sint (i128_abs (pos_size pos)) = \<bar>sint (pos_size pos)\<bar>"
  proof -
    have "\<bar>sint ?new\<bar> < 2 ^ 127" "\<bar>sint (pos_size pos)\<bar> < 2 ^ 127"
      using bound mag abs_triangle_ineq [of "sint (pos_size pos)" "side_sign sd * int ?f"] unfolding new by linarith+
    then have "sint ?new \<noteq> - (2 ^ 127)" "sint (pos_size pos) \<noteq> - (2 ^ 127)" by linarith+
    then show "sint (i128_abs ?new) = \<bar>sint ?new\<bar>" "sint (i128_abs (pos_size pos)) = \<bar>sint (pos_size pos)\<bar>"
      by (simp_all only: sint_i128_abs not_False_eq_True)
  qed
  have entry: "unat (pos_entry_price p) =
      (if sgn (sint (pos_size pos)) = side_sign sd
       then (S * E div 10 ^ 18 + ?f * unat fill div 10 ^ 18) * 10 ^ 18 div (S + ?f)
       else if \<bar>sint (pos_size p)\<bar> < \<bar>sint (pos_size pos)\<bar> then E else unat fill)"
  proof (cases "sgn (sint (pos_size pos)) = side_sign sd")
    case True
    then have "\<bar>sint ?new\<bar> = int (S + ?f)"
      using abs_add_same_side [of "sint (pos_size pos)" sd "int ?f"] new total by linarith
    then have t: "unat (i128_unsigned_abs ?new) = S + ?f" by (simp only: un nat_int)
    then have "i128_unsigned_abs ?new > 0" using assms(3) by (auto simp: word_gt_0)
    then have "pos_entry_price p = (i128_unsigned_abs (pos_size pos) * pos_entry_price pos div PRICE_PRECISION +
        i128_unsigned_abs ?d * fill div PRICE_PRECISION) * PRICE_PRECISION div i128_unsigned_abs ?new"
      using p True same by (auto simp: update_position_def calculate_required_margin_def Let_def)
    then show ?thesis
      using True unat_average [OF assms(5) [unfolded E_def] ua t] by (simp add: E_def)
  next
    case False
    then show ?thesis
      using p same abs ps by (auto simp: update_position_def calculate_required_margin_def Let_def E_def)
  qed
  have le: "unat (pos_entry_price p) \<le> max E (unat fill)"
  proof (cases "sgn (sint (pos_size pos)) = side_sign sd")
    case True
    show ?thesis unfolding entry if_P [OF True] by (rule weighted_average_le)
  next
    case False
    show ?thesis unfolding entry if_not_P [OF False] by (cases "\<bar>sint (pos_size p)\<bar> < \<bar>sint (pos_size pos)\<bar>") simp_all
  qed
  have "unat (pos_entry_price p) * unat (i128_unsigned_abs ?new) \<le> max E (unat fill) * (S + ?f)"
    unfolding un by (rule mult_le_mono [OF le small])
  also have "\<dots> = (S + ?f) * max E (unat fill)" by (rule mult.commute)
  also have "\<dots> < 2 ^ 256" by (rule assms(5))
  finally have fits: "unat (pos_entry_price p) * unat (i128_unsigned_abs ?new) < 2 ^ 256" .
  have "calculate_required_margin (pos_entry_price p) (i128_unsigned_abs ?new) lev = Inr (pos_margin p)"
    using p by (auto simp: update_position_def calculate_required_margin_def Let_def)
  from required_margin_no_wrap [OF fits this]
  have "unat (pos_margin p) = unat (pos_entry_price p) * nat \<bar>sint ?new\<bar> div 10 ^ 18 div unat lev"
    unfolding un .
  then show ?thesis using new by (intro exI [of _ p] conjI p entry le) (simp_all only: ps)
qed

theorem update_position_exact_witness:
  "let pos = \<lparr>pos_size = 3, pos_entry_price = 10 ^ 18, pos_leverage = 1, pos_margin = 0, pos_unrealized_pnl = 0,
      pos_last_funding_index = 0\<rparr>
   in \<exists>p. update_position (Some pos) Long 1 (5 * 10 ^ 18) 2 = Inr p \<and>
    sint (pos_size p) = 4 \<and> unat (pos_entry_price p) \<le> 5 * 10 ^ 18"
proof -
  let ?pos = "\<lparr>pos_size = 3, pos_entry_price = 10 ^ 18, pos_leverage = 1, pos_margin = 0,
      pos_unrealized_pnl = 0, pos_last_funding_index = 0\<rparr>"
  have "0 < unat (1 :: u256)" "nat \<bar>sint (pos_size ?pos)\<bar> + unat (1 :: u256) < 2 ^ 127"
    "(nat \<bar>sint (pos_size ?pos)\<bar> + unat (1 :: u256)) * max (unat (pos_entry_price ?pos)) (unat (5 * 10 ^ 18 :: u256)) < 2 ^ 256"
    by simp_all
  from update_position_exact [OF this, of Long 2] obtain p where
    "update_position (Some ?pos) Long 1 (5 * 10 ^ 18) 2 = Inr p"
    "sint (pos_size p) = sint (pos_size ?pos) + side_sign Long * int (unat (1 :: u256))"
    "unat (pos_entry_price p) \<le> max (unat (pos_entry_price ?pos)) (unat (5 * 10 ^ 18 :: u256))"
    by blast
  then show ?thesis unfolding Let_def by (intro exI [of _ p] conjI) simp_all
qed

text \<open>
  Property C25. The unrealized profit of a position is its size times the distance of the mark price
  from the entry price, over the price precision and rounded towards zero: positive when the price
  moved the position's way, negative when it moved against it. This holds while the products fit
  their types.
\<close>

theorem unrealized_pnl_exact:
  fixes pos :: position_data and mark :: u256
  defines "S \<equiv> nat \<bar>sint (pos_size pos)\<bar>"
    and "D \<equiv> int (unat mark) - int (unat (pos_entry_price pos))"
  assumes "S * nat \<bar>D\<bar> < 2 ^ 256" "S * nat \<bar>D\<bar> div 10 ^ 18 < 2 ^ 127"
  shows "sint (calculate_unrealized_pnl pos mark) =
    sgn (sint (pos_size pos)) * sgn D * int (S * nat \<bar>D\<bar> div 10 ^ 18)"
proof -
  let ?diff = "if mark > pos_entry_price pos then mark - pos_entry_price pos else pos_entry_price pos - mark"
  let ?q = "i128_unsigned_abs (pos_size pos) * ?diff div PRICE_PRECISION"
  let ?v = "S * nat \<bar>D\<bar> div 10 ^ 18"
  have cmp: "mark > pos_entry_price pos \<longleftrightarrow> 0 < D"
    unfolding D_def word_less_nat_alt by linarith
  have diff: "unat ?diff = nat \<bar>D\<bar>"
  proof (cases "mark > pos_entry_price pos")
    case True
    have "nat \<bar>D\<bar> = unat mark - unat (pos_entry_price pos)" using cmp True unfolding D_def by linarith
    then show ?thesis using True unat_sub_le [OF order_less_imp_le [OF True]] by (simp only: if_True)
  next
    case False
    have "nat \<bar>D\<bar> = unat (pos_entry_price pos) - unat mark" using cmp False unfolding D_def by linarith
    moreover have "mark \<le> pos_entry_price pos" using False by (simp only: not_less)
    ultimately show ?thesis using False by (simp only: if_False unat_sub_le)
  qed
  have "unat (i128_unsigned_abs (pos_size pos) * ?diff) = S * nat \<bar>D\<bar>"
  proof -
    have "unat (i128_unsigned_abs (pos_size pos)) * unat ?diff = S * nat \<bar>D\<bar>"
      unfolding diff unat_unsigned_abs S_def ..
    then show ?thesis using unat_mult_no_wrap [of "i128_unsigned_abs (pos_size pos)" ?diff] assms(3) by simp
  qed
  then have q: "unat ?q = ?v" by (simp only: unat_div_distrib unat_precision)
  have "sint (to_i128_or_max ?q) = int (unat ?q)" by (rule sint_to_i128) (simp only: q assms(4))
  then have v: "sint (to_i128_or_max ?q) = int ?v" unfolding q .
  have nv: "sint (- to_i128_or_max ?q) = - int ?v"
  proof -
    have "0 \<le> sint (to_i128_or_max ?q)" unfolding v by (rule of_nat_0_le_iff)
    then show ?thesis unfolding v [symmetric] by (rule sint_uminus_nonneg_i128)
  qed
  have pnl: "calculate_unrealized_pnl pos mark =
    (if pos_size pos = 0 then 0
     else if 0 < sint (pos_size pos) \<longleftrightarrow> 0 < D then to_i128_or_max ?q else - to_i128_or_max ?q)"
    by (simp add: calculate_unrealized_pnl_def Let_def cmp)
  consider "sint (pos_size pos) = 0" | "sint (pos_size pos) \<noteq> 0" "D = 0"
    | "sint (pos_size pos) \<noteq> 0" "0 < sint (pos_size pos) \<longleftrightarrow> 0 < D" "D \<noteq> 0"
    | "sint (pos_size pos) \<noteq> 0" "(0 < sint (pos_size pos)) \<noteq> (0 < D)" "D \<noteq> 0" by blast
  then show ?thesis
  proof cases
    case 1
    then have "pos_size pos = 0" by (rule sint_0_i128)
    then show ?thesis by (simp add: pnl)
  next
    case 2
    then show ?thesis using v nv by (auto simp: pnl)
  next
    case 3
    then have "sgn (sint (pos_size pos)) * sgn D = 1" by (auto simp: sgn_if)
    moreover have "calculate_unrealized_pnl pos mark = to_i128_or_max ?q" using 3 by (auto simp: pnl)
    ultimately show ?thesis using v by (simp only: mult_1)
  next
    case 4
    then have "sgn (sint (pos_size pos)) * sgn D = - 1" by (auto simp: sgn_if)
    moreover have "calculate_unrealized_pnl pos mark = - to_i128_or_max ?q" using 4 by (auto simp: pnl)
    ultimately show ?thesis using nv by (simp only: mult_minus_left mult_1)
  qed
qed

theorem unrealized_pnl_exact_witness:
  "sint (calculate_unrealized_pnl \<lparr>pos_size = - 3, pos_entry_price = 5 * 10 ^ 18, pos_leverage = 1, pos_margin = 0,
      pos_unrealized_pnl = 0, pos_last_funding_index = 0\<rparr> (7 * 10 ^ 18)) = - 6"
  using unrealized_pnl_exact [of "\<lparr>pos_size = - 3, pos_entry_price = 5 * 10 ^ 18, pos_leverage = 1, pos_margin = 0,
      pos_unrealized_pnl = 0, pos_last_funding_index = 0\<rparr>" "7 * 10 ^ 18"]
  by simp

end
