(* ===== verification/Hybrid.thy ===== *)
theory Hybrid
  imports Perpdex_Types
begin

text \<open>
  The transactions of a hybrid block, \<^verbatim>\<open>hybrid.rs\<close>: telling the virtual machine of a transaction,
  and the byte format of PerpDex transactions, decoded and encoded. Reading a slice out of range is
  a panic, a value of its own, so that its absence is a theorem. The \<^verbatim>\<open>Transaction\<close> trait of
  the \<^verbatim>\<open>alloy\<close> crate is the record of the three methods the source calls.
\<close>

section \<open>Telling transactions apart\<close>

record alloy_transaction =
  alloy_to :: "address option"
  alloy_input :: "byte list"
  alloy_max_fee_per_gas :: "128 word"

datatype vm_type = VmEvm | VmPerpDex

datatype 'env parsed_transaction = ParsedEvm 'env | ParsedPerpDex perpdex_tx

definition PERPDEX_CONTRACT_ADDRESS :: address where
  "PERPDEX_CONTRACT_ADDRESS = of_nat (of_be_bytes (replicate 20 0xFF))"

definition identify_vm_type :: "alloy_transaction \<Rightarrow> vm_type" where
  "identify_vm_type tx =
     (case alloy_to tx of
        Some to \<Rightarrow> if to = PERPDEX_CONTRACT_ADDRESS then VmPerpDex else VmEvm
      | None \<Rightarrow> VmEvm)"

section \<open>Decoding\<close>

datatype decode_error = InvalidLength | InvalidFormat | InvalidSignature

datatype 'a decoded = Decoded 'a | DecodeErr decode_error | DecodePanic

fun with_decoded :: "'a decoded \<Rightarrow> ('a \<Rightarrow> 'b decoded) \<Rightarrow> 'b decoded" where
  "with_decoded (Decoded x) f = f x"
| "with_decoded (DecodeErr e) f = DecodeErr e"
| "with_decoded DecodePanic f = DecodePanic"

text \<open>\<^verbatim>\<open>data[o..o + n]\<close>, \<^verbatim>\<open>data[o]\<close> and the big-endian numbers read from slices.\<close>

definition slice :: "byte list \<Rightarrow> nat \<Rightarrow> nat \<Rightarrow> byte list decoded" where
  "slice data pos n = (if pos + n \<le> length data then Decoded (take n (drop pos data)) else DecodePanic)"

definition byte_at :: "byte list \<Rightarrow> nat \<Rightarrow> byte decoded" where
  "byte_at data pos = (if pos < length data then Decoded (data ! pos) else DecodePanic)"

definition u64_at :: "byte list \<Rightarrow> nat \<Rightarrow> u64 decoded" where
  "u64_at data pos = with_decoded (slice data pos 8) (\<lambda>bs. Decoded (of_nat (of_be_bytes bs)))"

definition u256_at :: "byte list \<Rightarrow> nat \<Rightarrow> u256 decoded" where
  "u256_at data pos = with_decoded (slice data pos 32) (\<lambda>bs. Decoded (of_nat (of_be_bytes bs)))"

fun decode_order_type :: "byte \<Rightarrow> order_type decoded" where
  "decode_order_type b =
     (if b = 0 then Decoded Limit else if b = 1 then Decoded Market
      else if b = 2 then Decoded StopLimit else if b = 3 then Decoded StopMarket
      else DecodeErr InvalidFormat)"

text \<open>
  The arms of the loop of \<^verbatim>\<open>decode_operations\<close>, after the byte of the operation type: each gives the
  operation and the offset behind it.
\<close>

definition decode_place_order :: "byte list \<Rightarrow> nat \<Rightarrow> (operation \<times> nat) decoded" where
  "decode_place_order data offset =
     (if offset + 89 > length data then DecodeErr InvalidFormat
      else
        with_decoded (u64_at data offset) (\<lambda>market_id.
        with_decoded (byte_at data (offset + 8)) (\<lambda>order_type_byte.
        with_decoded (decode_order_type order_type_byte) (\<lambda>ot.
        with_decoded (byte_at data (offset + 9)) (\<lambda>side_byte.
        with_decoded (u256_at data (offset + 10)) (\<lambda>price.
        with_decoded (u256_at data (offset + 42)) (\<lambda>sz.
        with_decoded (byte_at data (offset + 74)) (\<lambda>leverage.
        with_decoded (byte_at data (offset + 75)) (\<lambda>post_only.
        with_decoded (byte_at data (offset + 76)) (\<lambda>reduce_only.
        with_decoded (u64_at data (offset + 77)) (\<lambda>expires_at_raw.
        Decoded
          (PlaceOrder market_id ot (if side_byte = 0 then Long else Short) price sz leverage
             (post_only \<noteq> 0) (reduce_only \<noteq> 0) (if expires_at_raw = 0 then None else Some expires_at_raw),
           offset + 85))))))))))))"

fun decode_ids :: "byte list \<Rightarrow> nat \<Rightarrow> nat \<Rightarrow> (u64 list \<times> nat) decoded" where
  "decode_ids data offset 0 = Decoded ([], offset)"
| "decode_ids data offset (Suc n) =
     with_decoded (u64_at data offset) (\<lambda>i.
     with_decoded (decode_ids data (offset + 8) n) (\<lambda>(ids, offset'). Decoded (i # ids, offset')))"

text \<open>
  The count is multiplied at the width of \<^verbatim>\<open>usize\<close>; \<^verbatim>\<open>Vec::with_capacity\<close> panics when the
  bytes of the vector exceed \<open>2 ^ 63 - 1\<close>.
\<close>

definition decode_cancel_order :: "byte list \<Rightarrow> nat \<Rightarrow> (operation \<times> nat) decoded" where
  "decode_cancel_order data offset =
     (if offset + 16 > length data then DecodeErr InvalidFormat
      else
        with_decoded (u64_at data offset) (\<lambda>market_id.
        with_decoded (u64_at data (offset + 8)) (\<lambda>count.
        if usize_add (offset + 16) (unat (count * 8)) > length data then DecodeErr InvalidFormat
        else if unat count * 8 > 2 ^ 63 - 1 then DecodePanic
        else with_decoded (decode_ids data (offset + 16) (unat count)) (\<lambda>(order_ids, offset').
          Decoded (CancelOrder market_id order_ids, offset')))))"

definition decode_cancel_all :: "byte list \<Rightarrow> nat \<Rightarrow> (operation \<times> nat) decoded" where
  "decode_cancel_all data offset =
     (if offset + 8 > length data then DecodeErr InvalidFormat
      else with_decoded (u64_at data offset) (\<lambda>market_id_raw.
        Decoded (CancelAll (if market_id_raw = 0 then None else Some market_id_raw), offset + 8)))"

definition decode_set_leverage :: "byte list \<Rightarrow> nat \<Rightarrow> (operation \<times> nat) decoded" where
  "decode_set_leverage data offset =
     (if offset + 9 > length data then DecodeErr InvalidFormat
      else
        with_decoded (u64_at data offset) (\<lambda>market_id.
        with_decoded (byte_at data (offset + 8)) (\<lambda>leverage.
        Decoded (SetLeverage market_id leverage, offset + 9))))"

definition decode_adjust_margin :: "byte list \<Rightarrow> nat \<Rightarrow> (operation \<times> nat) decoded" where
  "decode_adjust_margin data offset =
     (if offset + 40 > length data then DecodeErr InvalidFormat
      else
        with_decoded (u64_at data offset) (\<lambda>market_id.
        with_decoded (u256_at data (offset + 8)) (\<lambda>amount.
        Decoded (AdjustMargin market_id amount, offset + 40))))"

text \<open>One iteration of the loop: the operation type selects the arm.\<close>

definition decode_operation :: "byte list \<Rightarrow> nat \<Rightarrow> (operation \<times> nat) decoded" where
  "decode_operation data offset =
     with_decoded (byte_at data offset) (\<lambda>op_type.
       if op_type = 0 then decode_place_order data (offset + 1)
       else if op_type = 1 then decode_cancel_order data (offset + 1)
       else if op_type = 2 then decode_cancel_all data (offset + 1)
       else if op_type = 3 then decode_set_leverage data (offset + 1)
       else if op_type = 4 then decode_adjust_margin data (offset + 1)
       else DecodeErr InvalidFormat)"

lemma with_decoded_eq_Decoded:
  "with_decoded r f = Decoded y \<longleftrightarrow> (\<exists>x. r = Decoded x \<and> f x = Decoded y)"
  by (cases r) auto

lemma decode_ids_offset: "decode_ids data offset n = Decoded (ids, offset') \<Longrightarrow> offset' = offset + 8 * n"
proof (induction n arbitrary: offset ids)
  case (Suc n)
  then obtain ids' where "decode_ids data (offset + 8) n = Decoded (ids', offset')"
    by (auto simp: with_decoded_eq_Decoded)
  from Suc.IH [OF this] show ?case by simp
qed simp

lemma decode_operation_advances: "decode_operation data offset = Decoded (op, offset') \<Longrightarrow> offset < offset'"
  by (auto simp: decode_operation_def decode_place_order_def decode_cancel_order_def decode_cancel_all_def
      decode_set_leverage_def decode_adjust_margin_def with_decoded_eq_Decoded
      split: if_splits dest!: decode_ids_offset)

function decode_loop :: "byte list \<Rightarrow> nat \<Rightarrow> operation list \<Rightarrow> operation list decoded" where
  "decode_loop data offset operations =
     (if offset < length data then
        if offset + 1 > length data then Decoded operations
        else (case decode_operation data offset of
                Decoded (op, offset') \<Rightarrow> decode_loop data offset' (operations @ [op])
              | DecodeErr e \<Rightarrow> DecodeErr e
              | DecodePanic \<Rightarrow> DecodePanic)
      else Decoded operations)"
  by pat_completeness auto
termination
  by (relation "measure (\<lambda>(data, offset, operations). length data - offset)")
    (auto dest!: decode_operation_advances)

declare decode_loop.simps [simp del]

definition decode_operations :: "byte list \<Rightarrow> operation list decoded" where
  "decode_operations data = (if data = [] then Decoded [] else decode_loop data 0 [])"

definition decode_perpdex_tx :: "alloy_transaction \<Rightarrow> perpdex_tx decoded" where
  "decode_perpdex_tx tx =
     (let input = alloy_input tx in
      if length input < 44 then DecodeErr InvalidLength
      else
        with_decoded (slice input 0 20) (\<lambda>user.
        with_decoded (u64_at input 20) (\<lambda>nonce.
        with_decoded (u64_at input 28) (\<lambda>gas_limit.
        with_decoded (slice input 44 (length input - 44)) (\<lambda>rest.
        with_decoded (decode_operations rest) (\<lambda>operations.
        Decoded
          \<lparr>tx_user = of_nat (of_be_bytes user), tx_operations = operations, tx_gas_limit = gas_limit,
           tx_gas_price = ucast (alloy_max_fee_per_gas tx), tx_nonce = nonce, tx_signature = None\<rparr>))))))"

section \<open>Encoding\<close>

fun encode_order_type :: "order_type \<Rightarrow> byte" where
  "encode_order_type Limit = 0"
| "encode_order_type Market = 1"
| "encode_order_type StopLimit = 2"
| "encode_order_type StopMarket = 3"

abbreviation be_u64 :: "u64 \<Rightarrow> byte list" where
  "be_u64 w \<equiv> be_bytes 8 (unat w)"

abbreviation be_u256 :: "u256 \<Rightarrow> byte list" where
  "be_u256 w \<equiv> be_bytes 32 (unat w)"

fun encode_operation :: "operation \<Rightarrow> byte list" where
  "encode_operation (PlaceOrder market_id ot sd price sz leverage post_only reduce_only expires_at) =
     [0] @ be_u64 market_id @ [encode_order_type ot] @ [if sd = Long then 0 else 1] @ be_u256 price @ be_u256 sz
       @ [leverage] @ [if post_only then 1 else 0] @ [if reduce_only then 1 else 0]
       @ be_u64 (case expires_at of Some t \<Rightarrow> t | None \<Rightarrow> 0)"
| "encode_operation (CancelOrder market_id order_ids) =
     [1] @ be_u64 market_id @ be_u64 (of_nat (length order_ids)) @ concat (map be_u64 order_ids)"
| "encode_operation (CancelAll market_id) = [2] @ be_u64 (case market_id of Some m \<Rightarrow> m | None \<Rightarrow> 0)"
| "encode_operation (SetLeverage market_id leverage) = [3] @ be_u64 market_id @ [leverage]"
| "encode_operation (AdjustMargin market_id amount) = [4] @ be_u64 market_id @ be_u256 amount"

definition encode_perpdex_tx :: "perpdex_tx \<Rightarrow> byte list" where
  "encode_perpdex_tx tx =
     be_bytes 20 (unat (tx_user tx)) @ be_u64 (tx_nonce tx) @ be_u64 (tx_gas_limit tx)
       @ drop 24 (be_u256 (tx_gas_price tx)) @ concat (map encode_operation (tx_operations tx))"

section \<open>Reading fields of an encoded buffer\<close>

text \<open>A buffer whose rest from \<open>pos\<close> on is \<open>xs\<close>: what the readers give at a distance from \<open>pos\<close>.\<close>

definition at_pos :: "byte list \<Rightarrow> nat \<Rightarrow> byte list \<Rightarrow> bool" where
  "at_pos data pos xs \<longleftrightarrow> pos \<le> length data \<and> drop pos data = xs"

lemma at_posD:
  assumes "at_pos data pos xs"
  shows "length data = pos + length xs" "drop (pos + k) data = drop k xs"
proof -
  have le: "pos \<le> length data" and xs: "drop pos data = xs" using assms by (simp_all add: at_pos_def)
  have "length xs = length data - pos" by (simp flip: xs)
  then show "length data = pos + length xs" using le by linarith
  show "drop (pos + k) data = drop k xs" by (simp add: add.commute flip: xs)
qed

lemma at_pos_step:
  assumes "at_pos data pos (xs @ ys)"
  shows "at_pos data (pos + length xs) ys"
  using at_posD(1) [OF assms] at_posD(2) [OF assms, of "length xs"] by (simp add: at_pos_def)

lemma slice_at:
  assumes "at_pos data pos (xs @ ys @ zs)"
  shows "slice data (pos + length xs) (length ys) = Decoded ys"
  using at_posD(1) [OF assms] at_posD(2) [OF assms, of "length xs"] by (simp add: slice_def)

lemma byte_at_pos: "at_pos data pos (xs @ b # zs) \<Longrightarrow> byte_at data (pos + length xs) = Decoded b"
proof -
  assume a: "at_pos data pos (xs @ b # zs)"
  then have "pos + length xs < length data" "drop (pos + length xs) data = b # zs"
    using at_posD(1) [OF a] at_posD(2) [OF a, of "length xs"] by simp_all
  then show ?thesis by (simp add: byte_at_def nth_via_drop)
qed

lemma u64_at_pos: "at_pos data pos (xs @ be_u64 w @ zs) \<Longrightarrow> u64_at data (pos + length xs) = Decoded w"
  using slice_at [of data pos xs "be_u64 w" zs] by (simp add: u64_at_def of_be_bytes_unat_word)

lemma u256_at_pos: "at_pos data pos (xs @ be_u256 w @ zs) \<Longrightarrow> u256_at data (pos + length xs) = Decoded w"
  using slice_at [of data pos xs "be_u256 w" zs] by (simp add: u256_at_def of_be_bytes_unat_word)

lemma decode_encode_order_type: "decode_order_type (encode_order_type ot) = Decoded ot"
  by (cases ot) simp_all

lemma decode_ids_at:
  "at_pos data pos (concat (map be_u64 ids) @ zs) \<Longrightarrow>
   decode_ids data pos (length ids) = Decoded (ids, pos + 8 * length ids)"
proof (induction ids arbitrary: pos)
  case (Cons i ids)
  have a: "at_pos data pos (be_u64 i @ concat (map be_u64 ids) @ zs)" using Cons.prems by simp
  have "u64_at data pos = Decoded i" using u64_at_pos [of data pos "[]"] a by simp
  moreover have "decode_ids data (pos + 8) (length ids) = Decoded (ids, pos + 8 + 8 * length ids)"
    using Cons.IH at_pos_step [OF a] by simp
  ultimately show ?case by simp
qed simp

section \<open>Decoding one encoded operation\<close>

lemma decode_place_order_at:
  assumes "at_pos data pos (encode_operation (PlaceOrder m ot sd price sz lev po ro ex) @ zs)"
    and "ex \<noteq> Some 0"
  shows "decode_operation data pos =
    (if length zs < 4 then DecodeErr InvalidFormat
     else Decoded (PlaceOrder m ot sd price sz lev po ro ex, pos + 86))"
proof -
  let ?ex = "case ex of Some t \<Rightarrow> t | None \<Rightarrow> 0"
  let ?sd = "(if sd = Long then 0 else 1) :: byte" and ?po = "(if po then 1 else 0) :: byte"
    and ?ro = "(if ro then 1 else 0) :: byte"
  define o1 where "o1 = pos + 1"
  have a: "at_pos data o1 (be_u64 m @ encode_order_type ot # ?sd # be_u256 price @ be_u256 sz @ lev # ?po # ?ro #
      be_u64 ?ex @ zs)"
    using at_pos_step [of data pos "[0]"] assms(1) by (simp add: o1_def)
  have len: "length data = o1 + 85 + length zs" using at_posD(1) [OF a] by simp
  have b0: "byte_at data pos = Decoded 0" using byte_at_pos [of data pos "[]" 0] assms(1) by simp
  have "u64_at data o1 = Decoded m" using u64_at_pos [of data o1 "[]"] a by simp
  moreover have "byte_at data (o1 + 8) = Decoded (encode_order_type ot)"
    using byte_at_pos [of data o1 "be_u64 m"] a by simp
  moreover have "byte_at data (o1 + 9) = Decoded ?sd"
    using byte_at_pos [of data o1 "be_u64 m @ [encode_order_type ot]"] a by simp
  moreover have "u256_at data (o1 + 10) = Decoded price"
    using u256_at_pos [of data o1 "be_u64 m @ [encode_order_type ot, ?sd]"] a by simp
  moreover have "u256_at data (o1 + 42) = Decoded sz"
    using u256_at_pos [of data o1 "be_u64 m @ [encode_order_type ot, ?sd] @ be_u256 price"] a by simp
  moreover have "byte_at data (o1 + 74) = Decoded lev"
    using byte_at_pos [of data o1 "be_u64 m @ [encode_order_type ot, ?sd] @ be_u256 price @ be_u256 sz"] a by simp
  moreover have "byte_at data (o1 + 75) = Decoded ?po"
    using byte_at_pos [of data o1 "be_u64 m @ [encode_order_type ot, ?sd] @ be_u256 price @ be_u256 sz @ [lev]"] a
    by simp
  moreover have "byte_at data (o1 + 76) = Decoded ?ro"
    using byte_at_pos [of data o1 "be_u64 m @ [encode_order_type ot, ?sd] @ be_u256 price @ be_u256 sz @ [lev, ?po]"] a
    by simp
  moreover have "u64_at data (o1 + 77) = Decoded ?ex"
    using u64_at_pos [of data o1 "be_u64 m @ [encode_order_type ot, ?sd] @ be_u256 price @ be_u256 sz @ [lev, ?po, ?ro]"] a
    by simp
  moreover have "(if ?sd = 0 then Long else Short) = sd" by (cases sd) simp_all
  moreover have "(if ?ex = 0 then None else Some ?ex) = ex" using assms(2) by (cases ex) auto
  ultimately have "decode_place_order data o1 =
      (if length zs < 4 then DecodeErr InvalidFormat
       else Decoded (PlaceOrder m ot sd price sz lev po ro ex, o1 + 85))"
    by (simp add: decode_place_order_def len decode_encode_order_type del: decode_order_type.simps)
  then show ?thesis by (simp add: decode_operation_def b0 o1_def)
qed

text \<open>
  The operations the format can express: zero stands for an absent expiry or market, and a count
  of order identifiers has to fit a vector.
\<close>

fun encodable :: "operation \<Rightarrow> bool" where
  "encodable (PlaceOrder m ot sd price sz lev po ro ex) = (ex \<noteq> Some 0)"
| "encodable (CancelOrder m ids) = True"
| "encodable (CancelAll m) = (m \<noteq> Some 0)"
| "encodable (SetLeverage m lev) = True"
| "encodable (AdjustMargin m amount) = True"

fun is_place_order :: "operation \<Rightarrow> bool" where
  "is_place_order (PlaceOrder m ot sd price sz lev po ro ex) = True"
| "is_place_order _ = False"

lemma length_concat_be_u64 [simp]: "length (concat (map be_u64 ids)) = 8 * length ids"
  by (induction ids) simp_all

lemma decode_cancel_order_at:
  assumes "at_pos data pos (encode_operation (CancelOrder m ids) @ zs)" "length data < 2 ^ 63"
  shows "decode_operation data pos = Decoded (CancelOrder m ids, pos + 17 + 8 * length ids)"
proof -
  let ?n = "length ids"
  define o1 where "o1 = pos + 1"
  have a: "at_pos data o1 (be_u64 m @ be_u64 (of_nat ?n) @ concat (map be_u64 ids) @ zs)"
    using at_pos_step [of data pos "[1]"] assms(1) by (simp add: o1_def)
  have len: "length data = o1 + 16 + 8 * ?n + length zs" using at_posD(1) [OF a] by simp
  have n: "unat (of_nat ?n :: u64) = ?n" "unat (of_nat ?n * 8 :: u64) = ?n * 8"
    using len assms(2) by (simp_all add: unat_word_ariths unat_of_nat)
  have b0: "byte_at data pos = Decoded 1" using byte_at_pos [of data pos "[]" 1] assms(1) by simp
  have "u64_at data o1 = Decoded m" using u64_at_pos [of data o1 "[]"] a by simp
  moreover have "u64_at data (o1 + 8) = Decoded (of_nat ?n)" using u64_at_pos [of data o1 "be_u64 m"] a by simp
  moreover have "decode_ids data (o1 + 16) ?n = Decoded (ids, o1 + 16 + 8 * ?n)"
  proof -
    have "at_pos data (o1 + 16) (concat (map be_u64 ids) @ zs)"
      using at_pos_step [of data o1 "be_u64 m @ be_u64 (of_nat ?n)" "concat (map be_u64 ids) @ zs"] a by simp
    then show ?thesis by (rule decode_ids_at)
  qed
  moreover have "usize_add (o1 + 16) (?n * 8) = o1 + 16 + ?n * 8"
    using len assms(2) by (intro usize_add_no_wrap) simp
  ultimately have "decode_cancel_order data o1 = Decoded (CancelOrder m ids, o1 + 16 + 8 * ?n)"
    using len assms(2) n by (simp add: decode_cancel_order_def)
  then show ?thesis by (simp add: decode_operation_def b0 o1_def)
qed

lemma decode_operation_at:
  assumes "at_pos data pos (encode_operation op @ zs)" "encodable op" "length data < 2 ^ 63"
  shows "decode_operation data pos =
    (if is_place_order op \<and> length zs < 4 then DecodeErr InvalidFormat
     else Decoded (op, pos + length (encode_operation op)))"
proof -
  define o1 where "o1 = pos + 1"
  have o1: "o1 = Suc pos" by (simp add: o1_def)
  show ?thesis
  proof (cases op)
    case (PlaceOrder m ot sd price sz lev po ro ex)
    then show ?thesis using decode_place_order_at assms by simp
  next
    case (CancelOrder m ids)
    then show ?thesis using decode_cancel_order_at assms by simp
  next
    case (CancelAll m)
    let ?m = "case m of Some k \<Rightarrow> k | None \<Rightarrow> 0"
    have a: "at_pos data pos ([2] @ be_u64 ?m @ zs)" using assms(1) CancelAll by simp
    from at_pos_step [OF a] have b: "at_pos data o1 (be_u64 ?m @ zs)" by (simp add: o1_def)
    have "byte_at data pos = Decoded 2" using byte_at_pos [of data pos "[]" 2] a by simp
    moreover have "u64_at data o1 = Decoded ?m" using u64_at_pos [of data o1 "[]"] b by simp
    moreover have "(if ?m = 0 then None else Some ?m) = m" using assms(2) CancelAll by (cases m) auto
    ultimately show ?thesis
      using at_posD(1) [OF b] CancelAll
      by (simp add: decode_operation_def decode_cancel_all_def flip: o1, (simp add: o1_def)?)
  next
    case (SetLeverage m lev)
    have a: "at_pos data pos ([3] @ be_u64 m @ lev # zs)" using assms(1) SetLeverage by simp
    from at_pos_step [OF a] have b: "at_pos data o1 (be_u64 m @ lev # zs)" by (simp add: o1_def)
    have "byte_at data pos = Decoded 3" using byte_at_pos [of data pos "[]" 3] a by simp
    moreover have "u64_at data o1 = Decoded m" using u64_at_pos [of data o1 "[]"] b by simp
    moreover have "byte_at data (o1 + 8) = Decoded lev" using byte_at_pos [of data o1 "be_u64 m"] b by simp
    ultimately show ?thesis
      using at_posD(1) [OF b] SetLeverage
      by (simp add: decode_operation_def decode_set_leverage_def flip: o1, (simp add: o1_def)?)
  next
    case (AdjustMargin m amount)
    have a: "at_pos data pos ([4] @ be_u64 m @ be_u256 amount @ zs)" using assms(1) AdjustMargin by simp
    from at_pos_step [OF a] have b: "at_pos data o1 (be_u64 m @ be_u256 amount @ zs)" by (simp add: o1_def)
    have "byte_at data pos = Decoded 4" using byte_at_pos [of data pos "[]" 4] a by simp
    moreover have "u64_at data o1 = Decoded m" using u64_at_pos [of data o1 "[]"] b by simp
    moreover have "u256_at data (o1 + 8) = Decoded amount" using u256_at_pos [of data o1 "be_u64 m"] b by simp
    ultimately show ?thesis
      using at_posD(1) [OF b] AdjustMargin
      by (simp add: decode_operation_def decode_adjust_margin_def flip: o1, (simp add: o1_def)?)
  qed
qed

lemma encode_operation_length: "2 \<le> length (encode_operation op)" "\<not> is_place_order op \<Longrightarrow> 4 \<le> length (encode_operation op)"
  "is_place_order op \<Longrightarrow> 4 \<le> length (encode_operation op)"
  by (cases op; simp)+

text \<open>The loop over a buffer of encoded operations.\<close>

lemma decode_loop_at:
  assumes "at_pos data pos (concat (map encode_operation ops))" "\<forall>op \<in> set ops. encodable op" "length data < 2 ^ 63"
  shows "decode_loop data pos acc =
    (if ops \<noteq> [] \<and> is_place_order (last ops) then DecodeErr InvalidFormat else Decoded (acc @ ops))"
  using assms(1,2)
proof (induction ops arbitrary: pos acc)
  case Nil
  then show ?case using at_posD(1) [of data pos "[]"] by (simp add: decode_loop.simps)
next
  case (Cons op ops)
  have a: "at_pos data pos (encode_operation op @ concat (map encode_operation ops))" using Cons.prems by simp
  have le: "pos < length data" "\<not> pos + 1 > length data"
    using at_posD(1) [OF a] encode_operation_length(1) [of op] unfolding length_append by linarith+
  note d = decode_operation_at [OF a _ assms(3)]
  show ?case
  proof (cases "ops = []")
    case True
    then show ?thesis
      using d Cons.prems le at_pos_step [OF a] at_posD(1) [OF a]
      by (subst decode_loop.simps) (simp add: decode_loop.simps)
  next
    case False
    then obtain op' ops' where ops: "ops = op' # ops'" by (cases ops) auto
    have "4 \<le> length (concat (map encode_operation ops))"
      using encode_operation_length(2,3) [of op'] by (cases "is_place_order op'") (simp_all add: ops)
    then have "decode_operation data pos = Decoded (op, pos + length (encode_operation op))"
      using d Cons.prems by simp
    then show ?thesis
      using Cons.IH [OF at_pos_step [OF a], of "acc @ [op]"] Cons.prems le False
      by (subst decode_loop.simps) simp
  qed
qed

lemma decode_encoded_operations:
  assumes "\<forall>op \<in> set ops. encodable op" "length (concat (map encode_operation ops)) < 2 ^ 63"
  shows "decode_operations (concat (map encode_operation ops)) =
    (if ops \<noteq> [] \<and> is_place_order (last ops) then DecodeErr InvalidFormat else Decoded ops)"
proof -
  let ?d = "concat (map encode_operation ops)"
  have ne: "encode_operation op \<noteq> []" for op by (cases op) simp_all
  have "?d = [] \<longleftrightarrow> ops = []" using ne by (cases ops) auto
  moreover have "at_pos ?d 0 ?d" by (simp add: at_pos_def)
  ultimately show ?thesis
    using decode_loop_at [of ?d 0 ops "[]"] assms by (auto simp: decode_operations_def)
qed

section \<open>Where decoding can panic\<close>

lemma with_decoded_eq_Panic:
  "with_decoded r f = DecodePanic \<longleftrightarrow> r = DecodePanic \<or> (\<exists>x. r = Decoded x \<and> f x = DecodePanic)"
  by (cases r) auto

lemma slice_no_panic [simp]: "pos + n \<le> length data \<Longrightarrow> slice data pos n \<noteq> DecodePanic"
  by (simp add: slice_def)

lemma byte_at_no_panic [simp]: "pos < length data \<Longrightarrow> byte_at data pos \<noteq> DecodePanic"
  by (simp add: byte_at_def)

lemma u64_at_no_panic [simp]: "pos + 8 \<le> length data \<Longrightarrow> u64_at data pos \<noteq> DecodePanic"
  by (simp add: u64_at_def with_decoded_eq_Panic)

lemma u256_at_no_panic [simp]: "pos + 32 \<le> length data \<Longrightarrow> u256_at data pos \<noteq> DecodePanic"
  by (simp add: u256_at_def with_decoded_eq_Panic)

lemma decode_ids_no_panic: "pos + 8 * n \<le> length data \<Longrightarrow> decode_ids data pos n \<noteq> DecodePanic"
  by (induction n arbitrary: pos) (auto simp: with_decoded_eq_Panic)

lemma decode_order_type_no_panic [simp]: "decode_order_type b \<noteq> DecodePanic"
  by simp

lemma arms_no_panic:
  "decode_place_order data pos \<noteq> DecodePanic" "decode_cancel_all data pos \<noteq> DecodePanic"
  "decode_set_leverage data pos \<noteq> DecodePanic" "decode_adjust_margin data pos \<noteq> DecodePanic"
  by (auto simp: decode_place_order_def decode_cancel_all_def decode_set_leverage_def decode_adjust_margin_def
      with_decoded_eq_Panic simp del: decode_order_type.simps)

lemma cancel_order_panic:
  assumes "decode_cancel_order data pos = DecodePanic" "length data < 2 ^ 63"
  obtains count where "pos + 16 \<le> length data" "u64_at data (pos + 8) = Decoded count" "2 ^ 60 \<le> unat count"
proof -
  have len: "pos + 16 \<le> length data"
    using assms(1) by (auto simp: decode_cancel_order_def split: if_splits)
  then obtain m count where c: "u64_at data pos = Decoded m" "u64_at data (pos + 8) = Decoded count"
    by (auto simp: u64_at_def slice_def)
  have "2 ^ 60 \<le> unat count"
  proof (rule ccontr)
    assume "\<not> 2 ^ 60 \<le> unat count"
    then have small: "unat count < 2 ^ 60" by simp
    then have u: "unat (count * 8) = unat count * 8" by (simp add: unat_word_ariths)
    have "usize_add (pos + 16) (unat count * 8) = pos + 16 + unat count * 8"
      using len assms(2) small by (intro usize_add_no_wrap) simp
    then have "decode_cancel_order data pos \<noteq> DecodePanic"
      using len c u small decode_ids_no_panic [of "pos + 16" "unat count" data]
      by (auto simp: decode_cancel_order_def with_decoded_eq_Panic)
    then show False using assms(1) by blast
  qed
  then show thesis using that len c(2) by blast
qed

lemma operation_panic:
  assumes "decode_operation data pos = DecodePanic" "pos < length data" "length data < 2 ^ 63"
  shows "\<exists>count. byte_at data pos = Decoded 1 \<and> u64_at data (pos + 9) = Decoded count \<and> 2 ^ 60 \<le> unat count"
proof -
  obtain t where t: "byte_at data pos = Decoded t" using assms(2) by (simp add: byte_at_def)
  have c: "t = 1 \<and> decode_cancel_order data (pos + 1) = DecodePanic"
    using assms(1) arms_no_panic by (auto simp: decode_operation_def t split: if_splits)
  then obtain count where "u64_at data (pos + 1 + 8) = Decoded count" "2 ^ 60 \<le> unat count"
    using cancel_order_panic [of data "pos + 1"] assms(3) by blast
  then show ?thesis using t c by (simp add: add.commute)
qed

lemma loop_panic:
  assumes "decode_loop data pos acc = DecodePanic" "length data < 2 ^ 63"
  shows "\<exists>q count. byte_at data q = Decoded 1 \<and> u64_at data (q + 9) = Decoded count \<and> 2 ^ 60 \<le> unat count"
  using assms
proof (induction data pos acc rule: decode_loop.induct)
  case (1 data pos acc)
  have lt: "pos < length data" "\<not> pos + 1 > length data"
    using 1(2) by (auto simp: decode_loop.simps [of data pos acc] split: if_splits)
  show ?case
  proof (cases "decode_operation data pos")
    case (Decoded r)
    obtain op pos' where r: "r = (op, pos')" by fastforce
    have "decode_loop data pos' (acc @ [op]) = DecodePanic"
      using 1(2) lt Decoded r by (simp add: decode_loop.simps [of data pos acc])
    then show ?thesis using 1(1) [OF lt Decoded r [symmetric]] 1(3) by blast
  next
    case (DecodeErr e)
    then show ?thesis using 1(2) lt by (simp add: decode_loop.simps [of data pos acc])
  next
    case DecodePanic
    then show ?thesis using operation_panic [OF _ lt(1) 1(3)] by blast
  qed
qed

text \<open>
  The size of a vector of \<open>2 ^ 60\<close> identifiers or more is never allocated; whether its check fails
  first depends on the wrapped end of the vector.
\<close>

lemma decode_huge_count:
  assumes "at_pos data pos ([1] @ be_u64 m @ be_u64 count @ rest)" "2 ^ 60 \<le> unat count"
  shows "decode_operation data pos =
    (if (pos + 17 + unat count * 8) mod 2 ^ 64 \<le> length data then DecodePanic else DecodeErr InvalidFormat)"
proof -
  define o1 where "o1 = pos + 1"
  have a: "at_pos data o1 (be_u64 m @ be_u64 count @ rest)"
    using at_pos_step [of data pos "[1]"] assms(1) by (simp add: o1_def)
  have b0: "byte_at data pos = Decoded 1" using byte_at_pos [of data pos "[]" 1] assms(1) by simp
  have "u64_at data o1 = Decoded m" using u64_at_pos [of data o1 "[]"] a by simp
  moreover have "u64_at data (o1 + 8) = Decoded count" using u64_at_pos [of data o1 "be_u64 m"] a by simp
  moreover have "o1 + 16 \<le> length data" using at_posD(1) [OF a] by simp
  moreover have "usize_add (o1 + 16) (unat (count * 8)) = (pos + 17 + unat count * 8) mod 2 ^ 64"
    by (simp add: usize_add_def unat_word_ariths o1_def mod_simps) (simp add: add.commute)
  ultimately have "decode_cancel_order data o1 =
      (if (pos + 17 + unat count * 8) mod 2 ^ 64 \<le> length data then DecodePanic else DecodeErr InvalidFormat)"
    using assms(2) by (simp add: decode_cancel_order_def)
  then show ?thesis by (simp add: decode_operation_def b0 o1_def)
qed

lemma decode_loop_prefix:
  assumes "at_pos data pos (concat (map encode_operation ops) @ tail)" "\<forall>op \<in> set ops. encodable op"
    "length data < 2 ^ 63" "4 \<le> length tail"
  shows "decode_loop data pos acc = decode_loop data (pos + length (concat (map encode_operation ops))) (acc @ ops)"
  using assms(1,2)
proof (induction ops arbitrary: pos acc)
  case (Cons op ops)
  have a: "at_pos data pos (encode_operation op @ concat (map encode_operation ops) @ tail)" using Cons.prems by simp
  have le: "pos < length data" "\<not> pos + 1 > length data"
    using at_posD(1) [OF a] encode_operation_length(1) [of op] unfolding length_append by linarith+
  have "decode_operation data pos = Decoded (op, pos + length (encode_operation op))"
    using decode_operation_at [OF a _ assms(3)] Cons.prems(2) assms(4) by simp
  then have "decode_loop data pos acc = decode_loop data (pos + length (encode_operation op)) (acc @ [op])"
    using le by (subst decode_loop.simps) simp
  then show ?case
    using Cons.IH [OF at_pos_step [OF a]] Cons.prems(2) by (simp add: add.assoc)
qed simp

lemma huge_count_decodes:
  assumes "\<forall>op \<in> set ops. encodable op" "2 ^ 60 \<le> unat count" "length data < 2 ^ 63"
    and "data = concat (map encode_operation ops) @ [1] @ be_u64 m @ be_u64 count @ rest"
  shows "decode_operations data =
    (if (length (concat (map encode_operation ops)) + 17 + unat count * 8) mod 2 ^ 64 \<le> length data
     then DecodePanic else DecodeErr InvalidFormat)"
proof -
  let ?n = "length (concat (map encode_operation ops))"
  have a: "at_pos data 0 (concat (map encode_operation ops) @ [1] @ be_u64 m @ be_u64 count @ rest)"
    by (simp add: at_pos_def assms(4))
  have "data \<noteq> []" "?n < length data" by (simp_all add: assms(4))
  moreover have "decode_loop data 0 [] = decode_loop data ?n ops"
    using decode_loop_prefix [OF a assms(1,3), of "[]"] by simp
  moreover have "decode_operation data ?n =
      (if (?n + 17 + unat count * 8) mod 2 ^ 64 \<le> length data then DecodePanic else DecodeErr InvalidFormat)"
    using decode_huge_count [OF at_pos_step [OF a] assms(2)] by simp
  ultimately show ?thesis
    unfolding decode_operations_def by (subst (asm) decode_loop.simps [of data ?n]) (simp del: concat.simps map_append)
qed

section \<open>Properties\<close>

text \<open>
  Property C20. A transaction with operations the format can express is decoded from its encoding as
  it was, up to the gas price, which is taken from the carrying transaction, and the signature,
  which is not encoded - unless its last operation places an order: that is rejected.
\<close>

theorem decode_encode_tx:
  assumes "\<forall>op \<in> set (tx_operations tx). encodable op" "length (encode_perpdex_tx tx) < 2 ^ 63"
    and "alloy_input atx = encode_perpdex_tx tx"
  shows "decode_perpdex_tx atx =
    (if tx_operations tx \<noteq> [] \<and> is_place_order (last (tx_operations tx)) then DecodeErr InvalidFormat
     else Decoded (tx\<lparr>tx_gas_price := ucast (alloy_max_fee_per_gas atx), tx_signature := None\<rparr>))"
proof -
  let ?d = "alloy_input atx" and ?ops = "concat (map encode_operation (tx_operations tx))"
  let ?u = "be_bytes 20 (unat (tx_user tx))" and ?g = "drop 24 (be_u256 (tx_gas_price tx))"
  have a: "at_pos ?d 0 (?u @ be_u64 (tx_nonce tx) @ be_u64 (tx_gas_limit tx) @ ?g @ ?ops)"
    using assms(3) by (simp add: at_pos_def encode_perpdex_tx_def)
  have len: "length ?d = 44 + length ?ops" using at_posD(1) [OF a] by simp
  have "slice ?d 0 20 = Decoded ?u" using slice_at [of ?d 0 "[]" ?u] a by simp
  moreover have "u64_at ?d 20 = Decoded (tx_nonce tx)" using u64_at_pos [of ?d 0 ?u] a by simp
  moreover have "u64_at ?d 28 = Decoded (tx_gas_limit tx)"
    using u64_at_pos [of ?d 0 "?u @ be_u64 (tx_nonce tx)"] a by simp
  moreover have "slice ?d 44 (length ?ops) = Decoded ?ops"
    using slice_at [of ?d 0 "?u @ be_u64 (tx_nonce tx) @ be_u64 (tx_gas_limit tx) @ ?g" ?ops "[]"] a by simp
  moreover have "decode_operations ?ops = (if tx_operations tx \<noteq> [] \<and> is_place_order (last (tx_operations tx))
      then DecodeErr InvalidFormat else Decoded (tx_operations tx))"
    using assms len by (intro decode_encoded_operations) simp_all
  moreover have "of_nat (of_be_bytes ?u) = tx_user tx" by (rule of_be_bytes_unat_word) simp
  ultimately show ?thesis
    using len by (cases tx) (simp add: decode_perpdex_tx_def Let_def)
qed

theorem decode_encode_tx_witness:
  "let tx = \<lparr>tx_user = 7, tx_operations = [SetLeverage 3 20], tx_gas_limit = 9, tx_gas_price = 5, tx_nonce = 2,
       tx_signature = None\<rparr>
   in decode_perpdex_tx \<lparr>alloy_to = None, alloy_input = encode_perpdex_tx tx, alloy_max_fee_per_gas = 5\<rparr> = Decoded tx"
  using decode_encode_tx [of
      "\<lparr>tx_user = 7, tx_operations = [SetLeverage 3 20], tx_gas_limit = 9, tx_gas_price = 5, tx_nonce = 2, tx_signature = None\<rparr>"
      "\<lparr>alloy_to = None, alloy_input = encode_perpdex_tx \<lparr>tx_user = 7, tx_operations = [SetLeverage 3 20],
        tx_gas_limit = 9, tx_gas_price = 5, tx_nonce = 2, tx_signature = None\<rparr>, alloy_max_fee_per_gas = 5\<rparr>"]
  by (simp add: Let_def encode_perpdex_tx_def)

text \<open>
  An encoding whose last operation places an order is never decoded: the decoder asks
  for four bytes more than an order takes.
\<close>

theorem last_order_rejected:
  assumes "\<forall>op \<in> set ops. encodable op" "ex \<noteq> Some 0"
    and "length (concat (map encode_operation (ops @ [PlaceOrder m ot sd price sz lev po ro ex]))) < 2 ^ 63"
  shows "decode_operations (concat (map encode_operation (ops @ [PlaceOrder m ot sd price sz lev po ro ex]))) =
    DecodeErr InvalidFormat"
  using decode_encoded_operations [of "ops @ [PlaceOrder m ot sd price sz lev po ro ex]"] assms by simp

theorem last_order_rejected_witness:
  "decode_operations (concat (map encode_operation ([] @ [PlaceOrder 1 Limit Long 1000 1 10 False False None]))) =
    DecodeErr InvalidFormat"
  by (rule last_order_rejected) simp_all

text \<open>
  Property C28. Decoding the operations of a buffer panics only if the byte of a cancellation stands
  somewhere in it and, nine bytes on, a count of at least \<open>2 ^ 60\<close> orders: every slice is otherwise in
  range.
\<close>

theorem decode_panics_only_on_count:
  assumes "decode_operations data = DecodePanic" "length data < 2 ^ 63"
  shows "\<exists>q count. byte_at data q = Decoded 1 \<and> u64_at data (q + 9) = Decoded count \<and> 2 ^ 60 \<le> unat count"
  using assms loop_panic [of data 0 "[]"] by (simp add: decode_operations_def split: if_splits)

theorem decode_panics_only_on_count_witness:
  "\<exists>q count. byte_at ([1] @ be_u64 7 @ be_u64 (2 ^ 61)) q = Decoded 1 \<and>
    u64_at ([1] @ be_u64 7 @ be_u64 (2 ^ 61)) (q + 9) = Decoded count \<and> 2 ^ 60 \<le> unat count"
  by (rule decode_panics_only_on_count, subst huge_count_decodes [where ops = "[]" and rest = "[]" and m = 7 and count = "2 ^ 61"]) simp_all

text \<open>
  Property C40. It does panic, and exactly so: wherever in a buffer of operations a cancellation counts
  \<open>2 ^ 60\<close> orders or more, decoding panics when the end of its identifiers, wrapped around at the
  width of \<^verbatim>\<open>usize\<close>, is not beyond the buffer, and is an error otherwise. No such count is ever
  accepted.
\<close>

theorem huge_count_panics_or_fails:
  assumes "\<forall>op \<in> set ops. encodable op" "2 ^ 60 \<le> unat count" "length data < 2 ^ 63"
    and "data = concat (map encode_operation ops) @ [1] @ be_u64 m @ be_u64 count @ rest"
  shows "decode_operations data =
    (if (length (concat (map encode_operation ops)) + 17 + unat count * 8) mod 2 ^ 64 \<le> length data
     then DecodePanic else DecodeErr InvalidFormat)"
  by (rule huge_count_decodes [OF assms])

text \<open>Behind a change of leverage, \<open>2 ^ 61 + 1\<close> orders pass as one and \<open>2 ^ 61 + 2\<close> as two, of which there is one.\<close>

theorem huge_count_panics_or_fails_witness:
  "decode_operations (encode_operation (SetLeverage 3 20) @ [1] @ be_u64 7 @ be_u64 (2 ^ 61 + 1) @ be_u64 5) = DecodePanic \<and>
   decode_operations (encode_operation (SetLeverage 3 20) @ [1] @ be_u64 7 @ be_u64 (2 ^ 61 + 2) @ be_u64 5) = DecodeErr InvalidFormat"
proof -
  have e: "encode_operation (SetLeverage 3 20) = concat (map encode_operation [SetLeverage 3 20])" by simp
  have "unat (2 ^ 61 + 1 :: u64) = 2 ^ 61 + 1" "unat (2 ^ 61 + 2 :: u64) = 2 ^ 61 + 2" by simp_all
  then show ?thesis
    unfolding e by (subst (1 2) huge_count_panics_or_fails [OF _ _ _ refl]) simp_all
qed

end
