(* ===== verification/Ordered_Map.thy ===== *)
theory Ordered_Map
  imports Pevm_Prelude
begin

text \<open>
  \<^verbatim>\<open>std::collections::BTreeMap\<close> with \<^verbatim>\<open>usize\<close> keys, as the multi-version memory
  uses it: insertion, removal, lookup, iteration in key order and \<^verbatim>\<open>range(..i)\<close> read
  backwards. The interface is the locale \<open>ordered_map\<close>; the implementation is an association
  list kept strictly sorted by key.
\<close>

section \<open>The implementation\<close>

type_synonym 'v btree = "(nat \<times> 'v) list"

fun bt_insert :: "nat \<Rightarrow> 'v \<Rightarrow> 'v btree \<Rightarrow> 'v btree" where
  "bt_insert k v [] = [(k, v)]"
| "bt_insert k v ((j, w) # m) =
     (if k < j then (k, v) # (j, w) # m
      else if k = j then (k, v) # m
      else (j, w) # bt_insert k v m)"

definition bt_remove :: "nat \<Rightarrow> 'v btree \<Rightarrow> 'v btree" where
  "bt_remove k m = filter (\<lambda>(j, _). j \<noteq> k) m"

definition bt_get :: "'v btree \<Rightarrow> nat \<Rightarrow> 'v option" where
  "bt_get m = map_of m"

definition bt_below :: "'v btree \<Rightarrow> nat \<Rightarrow> (nat \<times> 'v) list" where
  "bt_below m i = rev (takeWhile (\<lambda>(j, _). j < i) m)"

text \<open>\<^verbatim>\<open>FromIterator\<close>: a later pair replaces an earlier one with the same key.\<close>

definition bt_of_list :: "(nat \<times> 'v) list \<Rightarrow> 'v btree" where
  "bt_of_list kvs = fold (\<lambda>(k, v). bt_insert k v) kvs []"

definition bt_ok :: "'v btree \<Rightarrow> bool" where
  "bt_ok m \<longleftrightarrow> sorted_wrt (<) (map fst m)"

section \<open>The interface\<close>

text \<open>
  \<open>below m i\<close> is the sequence that repeated calls of \<^verbatim>\<open>range(..i).next_back()\<close> yield:
  the entries with a key less than \<open>i\<close>, the greatest key first.
\<close>

locale ordered_map =
  fixes empty :: "'m"
    and insert :: "nat \<Rightarrow> 'v \<Rightarrow> 'm \<Rightarrow> 'm"
    and remove :: "nat \<Rightarrow> 'm \<Rightarrow> 'm"
    and get :: "'m \<Rightarrow> nat \<Rightarrow> 'v option"
    and below :: "'m \<Rightarrow> nat \<Rightarrow> (nat \<times> 'v) list"
    and invar :: "'m \<Rightarrow> bool"
  assumes invar_empty: "invar empty"
    and invar_insert: "invar m \<Longrightarrow> invar (insert k v m)"
    and invar_remove: "invar m \<Longrightarrow> invar (remove k m)"
    and get_empty: "get empty k = None"
    and get_insert: "invar m \<Longrightarrow> get (insert k v m) = (get m)(k \<mapsto> v)"
    and get_remove: "invar m \<Longrightarrow> get (remove k m) = (get m)(k := None)"
    and set_below: "invar m \<Longrightarrow> (k, v) \<in> set (below m i) \<longleftrightarrow> k < i \<and> get m k = Some v"
    and sorted_below: "invar m \<Longrightarrow> sorted_wrt (>) (map fst (below m i))"
begin

text \<open>What a client observes below \<open>i\<close> depends only on the keys below \<open>i\<close>.\<close>

lemma below_cong:
  assumes "invar m" "invar m'" and "\<And>k. k < i \<Longrightarrow> get m k = get m' k"
  shows "below m i = below m' i"
proof (rule descending_unique [of fst])
  show "set (below m i) = set (below m' i)"
    using assms by (auto simp: set_below)
qed (use assms in \<open>simp_all add: sorted_below\<close>)

lemma below_insert_ge: "invar m \<Longrightarrow> i \<le> k \<Longrightarrow> below (insert k v m) i = below m i"
  by (rule below_cong) (simp_all add: invar_insert get_insert)

lemma below_remove_ge: "invar m \<Longrightarrow> i \<le> k \<Longrightarrow> below (remove k m) i = below m i"
  by (rule below_cong) (simp_all add: invar_remove get_remove)

text \<open>The first entry is the closest lower writer.\<close>

lemma below_Cons:
  assumes "invar m" "below m i = (k, v) # rest"
  shows "k < i" "get m k = Some v" "\<And>j. k < j \<Longrightarrow> j < i \<Longrightarrow> get m j = None"
proof -
  show "k < i" "get m k = Some v"
    using set_below [OF assms(1), of k v i] assms(2) by simp_all
  fix j
  assume j: "k < j" "j < i"
  show "get m j = None"
  proof (cases "get m j")
    case (Some w)
    then have "(j, w) \<in> set rest"
      using set_below [OF assms(1), of j w i] assms(2) j by auto
    then show ?thesis
      using sorted_below [OF assms(1), of i] assms(2) j by auto
  qed
qed

lemma below_Nil: "invar m \<Longrightarrow> below m i = [] \<longleftrightarrow> (\<forall>j<i. get m j = None)"
  using set_below [of m _ _ i] by (metis empty_iff empty_set not_None_eq list.set_intros(1) neq_Nil_conv surj_pair)

text \<open>What follows the closest lower writer is what that writer itself would see.\<close>

lemma below_tail:
  assumes "invar m" "below m i = (k, v) # rest"
  shows "rest = below m k"
proof (rule descending_unique [of fst])
  have s: "sorted_wrt (>) (map fst ((k, v) # rest))"
    using sorted_below [OF assms(1), of i] assms(2) by simp
  have gap: "j \<le> k" if "j < i" "get m j = Some w" for j w
    using below_Cons(3) [OF assms, of j] that by (cases "k < j") auto
  show "set rest = set (below m k)"
  proof (intro set_eqI, clarify)
    fix j w
    have "(j, w) \<in> set rest \<longleftrightarrow> (j, w) \<in> set (below m i) \<and> j < k"
      using s assms(2) by auto
    then show "(j, w) \<in> set rest \<longleftrightarrow> (j, w) \<in> set (below m k)"
      using below_Cons(1) [OF assms] by (auto simp: set_below [OF assms(1)])
  qed
  show "sorted_wrt (>) (map fst rest)" using s by simp
  show "sorted_wrt (>) (map fst (below m k))" by (rule sorted_below [OF assms(1)])
qed

end

section \<open>The implementation meets the interface\<close>

lemma set_bt_insert: "fst ` set (bt_insert k v m) = Set.insert k (fst ` set m)"
  by (induction k v m rule: bt_insert.induct) auto

lemma bt_get_Nil [simp]: "bt_get [] k = None"
  by (simp add: bt_get_def)

lemma bt_ok_Nil [simp]: "bt_ok []"
  by (simp add: bt_ok_def)

lemma bt_ok_Cons: "bt_ok ((k, v) # m) \<longleftrightarrow> (\<forall>j \<in> fst ` set m. k < j) \<and> bt_ok m"
  by (auto simp: bt_ok_def)

lemma bt_ok_insert: "bt_ok m \<Longrightarrow> bt_ok (bt_insert k v m)"
  by (induction k v m rule: bt_insert.induct) (auto simp: bt_ok_Cons set_bt_insert)

lemma bt_ok_remove: "bt_ok m \<Longrightarrow> bt_ok (bt_remove k m)"
  by (induction m) (auto simp: bt_remove_def bt_ok_Cons)

lemma bt_get_insert: "bt_get (bt_insert k v m) = (bt_get m)(k \<mapsto> v)"
  by (induction k v m rule: bt_insert.induct) (auto simp: bt_get_def)

lemma bt_get_remove: "bt_get (bt_remove k m) = (bt_get m)(k := None)"
  by (induction m) (auto simp: bt_get_def bt_remove_def fun_eq_iff)

lemma bt_ok_distinct: "bt_ok m \<Longrightarrow> distinct (map fst m)"
  by (simp add: bt_ok_def strict_sorted_iff)

lemma bt_takeWhile: "bt_ok m \<Longrightarrow> takeWhile (\<lambda>(j, _). j < i) m = filter (\<lambda>(j, _). j < i) m"
  by (induction m) (force simp: bt_ok_Cons intro!: filter_False [symmetric])+

lemma bt_sorted_filter: "bt_ok m \<Longrightarrow> sorted_wrt (<) (map fst (filter P m))"
  by (induction m) (force simp: bt_ok_Cons)+

interpretation bt: ordered_map "[]" bt_insert bt_remove bt_get bt_below bt_ok
proof unfold_locales
  fix m :: "'a btree" and k i v
  assume ok: "bt_ok m"
  show "(k, v) \<in> set (bt_below m i) \<longleftrightarrow> k < i \<and> bt_get m k = Some v"
    using bt_ok_distinct [OF ok] by (auto simp: bt_below_def bt_takeWhile [OF ok] bt_get_def)
  show "sorted_wrt (>) (map fst (bt_below m i))"
    using bt_sorted_filter [OF ok]
    by (simp add: bt_below_def bt_takeWhile [OF ok] rev_map [symmetric] sorted_wrt_rev)
qed (simp_all add: bt_ok_insert bt_ok_remove bt_get_insert bt_get_remove)

lemma bt_ok_of_list [simp]: "bt_ok (bt_of_list kvs)"
proof -
  have "bt_ok m \<Longrightarrow> bt_ok (fold (\<lambda>(k, v). bt_insert k v) kvs m)" for m :: "'a btree"
    by (induction kvs arbitrary: m) (auto simp: bt_ok_insert)
  then show ?thesis by (simp add: bt_of_list_def)
qed

lemma bt_get_of_list: "bt_get (bt_of_list kvs) = map_of (rev kvs)"
proof -
  have "bt_get (fold (\<lambda>(k, v). bt_insert k v) kvs m) = bt_get m ++ map_of (rev kvs)"
    for m :: "'a btree"
    by (induction kvs arbitrary: m) (auto simp: bt_get_insert map_add_def fun_eq_iff
          split: option.splits)
  then show ?thesis by (simp add: bt_of_list_def bt_get_def)
qed

end
