(* ===== verification/Core_Types.thy ===== *)
theory Core_Types
  imports Ordered_Map
begin

text \<open>
  The types of \<^verbatim>\<open>crates/pevm/src/lib.rs\<close>: memory locations and values, entries of the
  multi-version memory, transaction versions and statuses, read origins, tasks, the flags of a
  finished execution and the two pass-through hashers. \<^verbatim>\<open>AccountBasic\<close> is the account type
  of \<^verbatim>\<open>storage.rs\<close> that memory values carry.
\<close>

section \<open>Memory locations and values\<close>

datatype memory_location =
    LocBasic address
  | LocCodeHash address
  | LocStorage address u256

type_synonym memory_location_hash = u64

record account_basic =
  balance :: u256
  nonce :: u64

definition default_account :: account_basic where
  "default_account = \<lparr>balance = 0, nonce = 0\<rparr>"

datatype memory_value =
    ValBasic account_basic
  | ValCodeHash b256
  | ValStorage u256
  | LazyRecipient u256
  | LazySender u256
  | SelfDestructed

type_synonym tx_idx_t = nat
type_synonym tx_incarnation_t = nat

datatype memory_entry =
    Data tx_incarnation_t memory_value
  | Estimate

section \<open>Transaction versions, statuses and tasks\<close>

datatype incarnation_status = ReadyToExecute | Executing | Executed | Validated | Aborting

record tx_status =
  incarnation :: tx_incarnation_t
  status :: incarnation_status

record tx_version =
  tx_idx :: tx_idx_t
  tx_incarnation :: tx_incarnation_t

datatype read_origin = OriginMvMemory tx_version | OriginStorage

type_synonym read_origins = "read_origin list"

text \<open>
  A read set is a hash map from location hashes to origins; it is an association list here,
  because validation iterates over it.
\<close>

type_synonym read_set = "(memory_location_hash \<times> read_origins) list"
type_synonym write_set = "(memory_location_hash \<times> memory_value) list"

datatype task = Execution tx_version | Validation tx_version

fun task_version :: "task \<Rightarrow> tx_version" where
  "task_version (Execution v) = v"
| "task_version (Validation v) = v"

section \<open>Flags of a finished execution\<close>

text \<open>
  The two bits of \<^verbatim>\<open>FinishExecFlags\<close>. Their methods come from the \<^verbatim>\<open>bitflags\<close> crate, so
  \<^verbatim>\<open>contains\<close> is an argument of the definitions that call it. \<open>bitflags_contains c\<close> is what the
  crate documents of it: all bits of the second value are set in the first.
\<close>

type_synonym finish_exec_flags = u8

definition NeedValidation :: finish_exec_flags where
  "NeedValidation = 0"

definition WroteNewLocation :: finish_exec_flags where
  "WroteNewLocation = 1"

definition bitflags_contains :: "(u8 \<Rightarrow> u8 \<Rightarrow> bool) \<Rightarrow> bool" where
  "bitflags_contains c \<longleftrightarrow> (\<forall>a b. c a b = (a AND b = b))"

lemma contains_NeedValidation: "bitflags_contains c \<Longrightarrow> c flags NeedValidation"
  by (simp add: bitflags_contains_def NeedValidation_def)

section \<open>Indexed vectors of mutexes\<close>

text \<open>
  \<^verbatim>\<open>index_mutex!\<close> reads a vector without a bounds check. An index out of range is undefined
  behaviour and has the value \<^const>\<open>None\<close>.
\<close>

definition index_mutex :: "'a list \<Rightarrow> nat \<Rightarrow> 'a option" where
  "index_mutex xs i = (if i < length xs then Some (xs ! i) else None)"

lemma index_mutex_in [simp]: "i < length xs \<Longrightarrow> index_mutex xs i = Some (xs ! i)"
  by (simp add: index_mutex_def)

lemma index_mutex_Some_iff: "index_mutex xs i = Some x \<longleftrightarrow> i < length xs \<and> x = xs ! i"
  by (auto simp: index_mutex_def)

section \<open>Hashers\<close>

text \<open>
  \<^verbatim>\<open>SuffixHasher\<close> keeps the last eight bytes it is given, and panics (\<^const>\<open>None\<close>) on fewer.
  \<^verbatim>\<open>IdentityHasher\<close> passes integers through; writing bytes to it is unreachable.
\<close>

definition suffix_hasher_write :: "u64 \<Rightarrow> byte list \<Rightarrow> u64 option" where
  "suffix_hasher_write h bytes =
     (if length bytes < 8 then None
      else Some (of_nat (of_be_bytes (drop (length bytes - 8) bytes))))"

definition suffix_hasher_finish :: "u64 \<Rightarrow> u64" where
  "suffix_hasher_finish h = h"

definition identity_hasher_write_u64 :: "u64 \<Rightarrow> u64 \<Rightarrow> u64" where
  "identity_hasher_write_u64 h i = i"

definition identity_hasher_write_usize :: "u64 \<Rightarrow> nat \<Rightarrow> u64" where
  "identity_hasher_write_usize h i = of_nat i"

definition identity_hasher_write :: "u64 \<Rightarrow> byte list \<Rightarrow> u64 option" where
  "identity_hasher_write h bytes = None"

definition identity_hasher_finish :: "u64 \<Rightarrow> u64" where
  "identity_hasher_finish h = h"

lemma drop_be_bytes: "j \<le> k \<Longrightarrow> drop (k - j) (be_bytes k n) = be_bytes j n"
proof (induction k arbitrary: j n)
  case 0
  then show ?case by simp
next
  case (Suc k)
  then show ?case by (cases j) (auto simp: Suc_diff_le)
qed

lemma suffix_hasher_word:
  assumes "8 \<le> k"
  shows "suffix_hasher_write h (be_bytes k (unat w)) = Some (ucast w)"
proof -
  have "word_of_nat (unat w mod 2 ^ 64) = (word_of_nat (unat w) :: u64)"
    by (rule word_of_nat_eq_iff [THEN iffD2]) (simp add: take_bit_eq_mod)
  with assms show ?thesis
    by (simp add: suffix_hasher_write_def drop_be_bytes of_be_be_bytes)
qed

end
