(* ===== verification/Scheduler.thy ===== *)
theory Scheduler
  imports Core_Types
begin

text \<open>
  The collaborative scheduler of \<^verbatim>\<open>crates/pevm/src/scheduler.rs\<close>, one definition per method.
  A result \<^const>\<open>None\<close> is a run the sources rule out: an unchecked index out of range, a failing
  \<^verbatim>\<open>debug_assert\<close>, or a thread locking a mutex it already holds. The loop of
  \<^verbatim>\<open>next_task\<close> is given by its pieces, so that threads can be interleaved between them, and
  by the iteration that composes them.
\<close>

section \<open>State\<close>

record scheduler =
  block_size :: nat
  transactions_status :: "tx_status list"
  transactions_dependents :: "tx_idx_t list list"
  execution_idx :: nat
  validation_idx :: nat
  min_validation_idx :: nat
  num_validated :: nat
  aborted :: bool

definition sched_new :: "nat \<Rightarrow> scheduler" where
  "sched_new n =
     \<lparr>block_size = n,
      transactions_status = replicate n \<lparr>incarnation = 0, status = ReadyToExecute\<rparr>,
      transactions_dependents = replicate n [],
      execution_idx = 0, validation_idx = n, min_validation_idx = n,
      num_validated = 0, aborted = False\<rparr>"

definition sched_abort :: "scheduler \<Rightarrow> scheduler" where
  "sched_abort s = s\<lparr>aborted := True\<rparr>"

text \<open>Write the status of a transaction whose mutex is held.\<close>

definition set_status :: "scheduler \<Rightarrow> tx_idx_t \<Rightarrow> incarnation_status \<Rightarrow> scheduler" where
  "set_status s i st =
     s\<lparr>transactions_status := (transactions_status s)[i := (transactions_status s ! i)\<lparr>status := st\<rparr>]\<rparr>"

section \<open>Picking a task\<close>

definition try_execute :: "scheduler \<Rightarrow> tx_idx_t \<Rightarrow> (scheduler \<times> tx_version option) option" where
  "try_execute s i =
     (if i < block_size s then
        do {
          tx \<leftarrow> index_mutex (transactions_status s) i;
          if status tx = ReadyToExecute
          then Some (set_status s i Executing, Some \<lparr>tx_idx = i, tx_incarnation = incarnation tx\<rparr>)
          else Some (s, None)
        }
      else Some (s, None))"

text \<open>
  What the block under \<^verbatim>\<open>if validation_idx < execution_idx\<close> does with the index it took:
  it returns a task, starts a new iteration, or falls through to the execution job.
\<close>

datatype slot_outcome = Found task | Again | FallThrough

definition validation_slot :: "scheduler \<Rightarrow> tx_idx_t \<Rightarrow> (scheduler \<times> slot_outcome) option" where
  "validation_slot s i =
     (if i < block_size s then
        do {
          tx \<leftarrow> index_mutex (transactions_status s) i;
          let v = \<lparr>tx_idx = i, tx_incarnation = incarnation tx\<rparr>;
          if status tx = ReadyToExecute then Some (set_status s i Executing, Found (Execution v))
          else if status tx \<in> {Executed, Validated} then Some (s, Found (Validation v))
          else if status tx = Aborting then Some (s, Again)
          else Some (s, FallThrough)
        }
      else Some (s, FallThrough))"

text \<open>The two \<^verbatim>\<open>fetch_add\<close>s: the index taken, and the state with the counter advanced.\<close>

definition take_validation_idx :: "scheduler \<Rightarrow> scheduler \<times> nat" where
  "take_validation_idx s = (s\<lparr>validation_idx := usize_add (validation_idx s) 1\<rparr>, validation_idx s)"

definition take_execution_idx :: "scheduler \<Rightarrow> scheduler \<times> nat" where
  "take_execution_idx s = (s\<lparr>execution_idx := usize_add (execution_idx s) 1\<rparr>, execution_idx s)"

definition all_validated :: "scheduler \<Rightarrow> bool" where
  "all_validated s \<longleftrightarrow> num_validated s \<ge> usize_sub (block_size s) (min_validation_idx s)"

text \<open>
  One iteration of the loop of \<^verbatim>\<open>next_task\<close>: \<open>Return\<close> leaves the loop with the method's result;
  \<open>Yield\<close> is the iteration that found nothing to do and gives up the processor; \<open>Continue\<close> is any
  other new iteration.
\<close>

datatype iteration = Return "task option" | Yield | Continue

definition execution_job :: "scheduler \<Rightarrow> (scheduler \<times> iteration) option" where
  "execution_job s =
     (let (s1, i) = take_execution_idx s
      in do {
           (s2, r) \<leftarrow> try_execute s1 i;
           Some (s2, case r of Some v \<Rightarrow> Return (Some (Execution v)) | None \<Rightarrow> Continue)
         })"

definition next_task_iteration :: "scheduler \<Rightarrow> (scheduler \<times> iteration) option" where
  "next_task_iteration s =
     (if aborted s then Some (s, Return None)
      else if execution_idx s \<ge> block_size s \<and> validation_idx s \<ge> block_size s then
        Some (s, if all_validated s then Return None else Yield)
      else if validation_idx s < execution_idx s then
        (let (s1, i) = take_validation_idx s
         in do {
              (s2, r) \<leftarrow> validation_slot s1 i;
              (case r of
                 Found t \<Rightarrow> Some (s2, Return (Some t))
               | Again \<Rightarrow> Some (s2, Continue)
               | FallThrough \<Rightarrow> execution_job s2)
            })
      else execution_job s)"

text \<open>
  The loop run by one thread alone, up to its first \<open>Return\<close> or \<open>Yield\<close>. With no fuel left the
  result is \<open>Continue\<close>.
\<close>

fun next_task :: "nat \<Rightarrow> scheduler \<Rightarrow> (scheduler \<times> iteration) option" where
  "next_task 0 s = Some (s, Continue)"
| "next_task (Suc fuel) s =
     do {
       (s1, r) \<leftarrow> next_task_iteration s;
       (case r of Continue \<Rightarrow> next_task fuel s1 | _ \<Rightarrow> Some (s1, r))
     }"

section \<open>Dependencies\<close>

definition add_dependency :: "scheduler \<Rightarrow> tx_idx_t \<Rightarrow> tx_idx_t \<Rightarrow> (scheduler \<times> bool) option" where
  "add_dependency s i b =
     do {
       blocking_tx \<leftarrow> index_mutex (transactions_status s) b;
       if status blocking_tx \<in> {Executed, Validated} then Some (s, False)
       else if i = b then None
       else do {
         tx \<leftarrow> index_mutex (transactions_status s) i;
         if status tx \<noteq> Executing then None
         else do {
           let s1 = set_status s i Aborting;
           blocking_dependents \<leftarrow> index_mutex (transactions_dependents s1) b;
           Some (s1\<lparr>transactions_dependents :=
                      (transactions_dependents s1)[b := blocking_dependents @ [i]]\<rparr>, True)
         }
       }
     }"

definition set_ready_status :: "scheduler \<Rightarrow> tx_idx_t \<Rightarrow> scheduler option" where
  "set_ready_status s i =
     do {
       tx \<leftarrow> index_mutex (transactions_status s) i;
       if status tx \<noteq> Aborting then None
       else Some (s\<lparr>transactions_status := (transactions_status s)
              [i := \<lparr>incarnation = usize_add (incarnation tx) 1, status = ReadyToExecute\<rparr>]\<rparr>)
     }"

section \<open>Finishing an execution\<close>

text \<open>
  The loop that resumes the drained dependents, run while the mutex of transaction \<open>i\<close> is held.
\<close>

fun resume_dependents :: "tx_idx_t \<Rightarrow> tx_idx_t list \<Rightarrow> scheduler \<Rightarrow> scheduler option" where
  "resume_dependents i [] s = Some s"
| "resume_dependents i (d # ds) s =
     (if d = i then None
      else do {
        s1 \<leftarrow> set_ready_status s d;
        resume_dependents i ds (s1\<lparr>execution_idx := min (execution_idx s1) d\<rparr>)
      })"

definition count_validated :: "scheduler \<Rightarrow> tx_idx_t \<Rightarrow> scheduler" where
  "count_validated s i =
     (set_status s i Validated)\<lparr>num_validated := usize_add (num_validated s) 1\<rparr>"

definition finish_execution ::
    "(u8 \<Rightarrow> u8 \<Rightarrow> bool) \<Rightarrow> scheduler \<Rightarrow> tx_version \<Rightarrow> finish_exec_flags \<Rightarrow> (scheduler \<times> task option) option" where
  "finish_execution contains s v flags =
     do {
       let i = tx_idx v;
       tx \<leftarrow> index_mutex (transactions_status s) i;
       if status tx \<noteq> Executing \<or> incarnation tx \<noteq> tx_incarnation v then None
       else do {
         dependents \<leftarrow> index_mutex (transactions_dependents s) i;
         s1 \<leftarrow> resume_dependents i dependents s;
         let s2 = s1\<lparr>transactions_dependents := (transactions_dependents s1)[i := []]\<rparr>;
         let need = contains flags NeedValidation;
         let wrote = contains flags WroteNewLocation;
         let min_idx = (if need then min (min_validation_idx s2) i else min_validation_idx s2);
         let s3 = (if need then s2\<lparr>min_validation_idx := min (min_validation_idx s2) i\<rparr> else s2);
         let finish = (\<lambda>s. Some (if need then set_status s i Executed else count_validated s i, None));
         if min_idx < block_size s3 then
           (if i < min_idx then
              finish (if wrote then s3\<lparr>validation_idx := min (validation_idx s3) min_idx\<rparr> else s3)
            else if i < validation_idx s3 then
              (let s4 = (if wrote then s3\<lparr>validation_idx := min (validation_idx s3) (i + 1)\<rparr> else s3)
               in if need then Some (set_status s4 i Executed, Some (Validation v))
                  else finish (count_validated s4 i))
            else finish s3)
         else finish s3
       }
     }"

section \<open>Validation\<close>

definition try_validation_abort :: "scheduler \<Rightarrow> tx_version \<Rightarrow> (scheduler \<times> bool) option" where
  "try_validation_abort s v =
     do {
       tx \<leftarrow> index_mutex (transactions_status s) (tx_idx v);
       let s1 = (if status tx = Validated then s\<lparr>num_validated := usize_sub (num_validated s) 1\<rparr> else s);
       let aborting = (status tx \<in> {Executed, Validated});
       Some (if aborting then set_status s1 (tx_idx v) Aborting else s1, aborting)
     }"

text \<open>
  \<^verbatim>\<open>finish_validation\<close> of an aborted version, in two parts: the transaction becomes ready and
  the validation index is lowered; then the transaction is executed if its turn has passed.
\<close>

definition reschedule_aborted :: "scheduler \<Rightarrow> tx_version \<Rightarrow> scheduler option" where
  "reschedule_aborted s v =
     do {
       s1 \<leftarrow> set_ready_status s (tx_idx v);
       Some (s1\<lparr>validation_idx := min (validation_idx s1) (tx_idx v + 1)\<rparr>)
     }"

definition execute_aborted :: "scheduler \<Rightarrow> tx_version \<Rightarrow> (scheduler \<times> task option) option" where
  "execute_aborted s v =
     (if execution_idx s > tx_idx v then
        do {
          (s1, r) \<leftarrow> try_execute s (tx_idx v);
          Some (s1, map_option Execution r)
        }
      else Some (s, None))"

definition finish_validation :: "scheduler \<Rightarrow> tx_version \<Rightarrow> bool \<Rightarrow> (scheduler \<times> task option) option" where
  "finish_validation s v was_aborted =
     (if was_aborted then
        do {
          s1 \<leftarrow> reschedule_aborted s v;
          execute_aborted s1 v
        }
      else
        do {
          tx \<leftarrow> index_mutex (transactions_status s) (tx_idx v);
          Some (if status tx = Executed then count_validated s (tx_idx v) else s, None)
        })"

section \<open>Views of the state\<close>

definition st :: "scheduler \<Rightarrow> tx_idx_t \<Rightarrow> incarnation_status" where
  "st s i = status (transactions_status s ! i)"

definition inc :: "scheduler \<Rightarrow> tx_idx_t \<Rightarrow> tx_incarnation_t" where
  "inc s i = incarnation (transactions_status s ! i)"

definition deps :: "scheduler \<Rightarrow> tx_idx_t \<Rightarrow> tx_idx_t list" where
  "deps s b = transactions_dependents s ! b"

definition n_validated :: "scheduler \<Rightarrow> nat" where
  "n_validated s = length (filter (\<lambda>t. status t = Validated) (transactions_status s))"

text \<open>The vectors have one entry per transaction.\<close>

definition sized :: "scheduler \<Rightarrow> bool" where
  "sized s \<longleftrightarrow> length (transactions_status s) = block_size s \<and>
     length (transactions_dependents s) = block_size s \<and> block_size s < 2 ^ 64"

text \<open>
  The dependents of a transaction are higher transactions of the block that wait in
  \<^const>\<open>Aborting\<close>; a transaction waits for at most one other, once; and a transaction with
  dependents has yet to finish an execution. The counter counts the validated transactions.
\<close>

definition deps_ok :: "scheduler \<Rightarrow> bool" where
  "deps_ok s \<longleftrightarrow>
     (\<forall>b < block_size s. distinct (deps s b)) \<and>
     (\<forall>b < block_size s. \<forall>d \<in> set (deps s b). b < d \<and> d < block_size s \<and> st s d = Aborting) \<and>
     (\<forall>b < block_size s. \<forall>b' < block_size s. \<forall>d \<in> set (deps s b). d \<in> set (deps s b') \<longrightarrow> b = b') \<and>
     (\<forall>b < block_size s. \<forall>d \<in> set (deps s b). st s b \<noteq> Executed \<and> st s b \<noteq> Validated)"

definition sched_ok :: "scheduler \<Rightarrow> bool" where
  "sched_ok s \<longleftrightarrow> sized s \<and> min_validation_idx s \<le> block_size s \<and>
     num_validated s = n_validated s \<and> deps_ok s"

lemma sched_okD:
  assumes "sched_ok s"
  shows "sized s" "min_validation_idx s \<le> block_size s" "num_validated s = n_validated s" "deps_ok s"
  using assms by (simp_all add: sched_ok_def)

lemma deps_okD:
  assumes "deps_ok s" "b < block_size s"
  shows "distinct (deps s b)" "d \<in> set (deps s b) \<Longrightarrow> b < d"
    "d \<in> set (deps s b) \<Longrightarrow> d < block_size s" "d \<in> set (deps s b) \<Longrightarrow> st s d = Aborting"
    "b' < block_size s \<Longrightarrow> d \<in> set (deps s b) \<Longrightarrow> d \<in> set (deps s b') \<Longrightarrow> b = b'"
    "d \<in> set (deps s b) \<Longrightarrow> st s b \<noteq> Executed" "d \<in> set (deps s b) \<Longrightarrow> st s b \<noteq> Validated"
proof -
  from assms(1) have
    1: "\<forall>b < block_size s. distinct (deps s b)" and
    2: "\<forall>b < block_size s. \<forall>d \<in> set (deps s b). b < d \<and> d < block_size s \<and> st s d = Aborting" and
    3: "\<forall>b < block_size s. \<forall>b' < block_size s. \<forall>d \<in> set (deps s b). d \<in> set (deps s b') \<longrightarrow> b = b'" and
    4: "\<forall>b < block_size s. \<forall>d \<in> set (deps s b). st s b \<noteq> Executed \<and> st s b \<noteq> Validated"
    unfolding deps_ok_def by blast+
  show "distinct (deps s b)" using 1 assms(2) by blast
  show "d \<in> set (deps s b) \<Longrightarrow> b < d" "d \<in> set (deps s b) \<Longrightarrow> d < block_size s"
    "d \<in> set (deps s b) \<Longrightarrow> st s d = Aborting" using 2 assms(2) by blast+
  show "b' < block_size s \<Longrightarrow> d \<in> set (deps s b) \<Longrightarrow> d \<in> set (deps s b') \<Longrightarrow> b = b'"
    using 3 assms(2) by blast
  show "d \<in> set (deps s b) \<Longrightarrow> st s b \<noteq> Executed" "d \<in> set (deps s b) \<Longrightarrow> st s b \<noteq> Validated"
    using 4 assms(2) by blast+
qed

lemma deps_okI:
  assumes "\<And>b. b < block_size s \<Longrightarrow> distinct (deps s b)"
    and "\<And>b d. b < block_size s \<Longrightarrow> d \<in> set (deps s b) \<Longrightarrow>
           b < d \<and> d < block_size s \<and> st s d = Aborting \<and> st s b \<noteq> Executed \<and> st s b \<noteq> Validated"
    and "\<And>b b' d. b < block_size s \<Longrightarrow> b' < block_size s \<Longrightarrow> d \<in> set (deps s b) \<Longrightarrow>
           d \<in> set (deps s b') \<Longrightarrow> b = b'"
  shows "deps_ok s"
  unfolding deps_ok_def using assms by blast

lemma n_validated_le: "n_validated s \<le> length (transactions_status s)"
  by (simp add: n_validated_def)

lemma n_validated_update:
  assumes "i < length (transactions_status s)"
  shows "length (filter (\<lambda>t. status t = Validated) ((transactions_status s)[i := t])) +
      (if st s i = Validated then 1 else 0) = n_validated s + (if status t = Validated then 1 else 0)"
  using count_list_update_le [OF assms, of "\<lambda>t. status t = Validated" t] by (simp add: n_validated_def st_def)

section \<open>Effects of the primitive operations\<close>

lemma set_status_fields [simp]:
  "block_size (set_status s i x) = block_size s"
  "transactions_dependents (set_status s i x) = transactions_dependents s"
  "execution_idx (set_status s i x) = execution_idx s"
  "validation_idx (set_status s i x) = validation_idx s"
  "min_validation_idx (set_status s i x) = min_validation_idx s"
  "num_validated (set_status s i x) = num_validated s"
  "aborted (set_status s i x) = aborted s"
  "length (transactions_status (set_status s i x)) = length (transactions_status s)"
  "deps (set_status s i x) b = deps s b"
  "sized (set_status s i x) = sized s"
  by (simp_all add: set_status_def deps_def sized_def)

lemma st_set_status: "i < length (transactions_status s) \<Longrightarrow> st (set_status s i x) j = (if j = i then x else st s j)"
  by (simp add: st_def set_status_def nth_list_update)

lemma inc_set_status [simp]: "inc (set_status s i x) j = inc s j"
  by (cases "i < length (transactions_status s)")
    (auto simp: inc_def set_status_def nth_list_update list_update_beyond)

lemma n_validated_set_status:
  "i < length (transactions_status s) \<Longrightarrow>
   n_validated (set_status s i x) + (if st s i = Validated then 1 else 0)
     = n_validated s + (if x = Validated then 1 else 0)"
  using n_validated_update [of i s "(transactions_status s ! i)\<lparr>status := x\<rparr>"]
  by (simp add: n_validated_def set_status_def)

text \<open>Only the counters differ.\<close>

lemma view_counters [simp]:
  "st (s\<lparr>execution_idx := e\<rparr>) i = st s i" "st (s\<lparr>validation_idx := e\<rparr>) i = st s i"
  "st (s\<lparr>min_validation_idx := e\<rparr>) i = st s i" "st (s\<lparr>num_validated := e\<rparr>) i = st s i"
  "st (s\<lparr>transactions_dependents := ds\<rparr>) i = st s i" "st (s\<lparr>aborted := a\<rparr>) i = st s i"
  "inc (s\<lparr>execution_idx := e\<rparr>) i = inc s i" "inc (s\<lparr>validation_idx := e\<rparr>) i = inc s i"
  "inc (s\<lparr>min_validation_idx := e\<rparr>) i = inc s i" "inc (s\<lparr>num_validated := e\<rparr>) i = inc s i"
  "inc (s\<lparr>transactions_dependents := ds\<rparr>) i = inc s i" "inc (s\<lparr>aborted := a\<rparr>) i = inc s i"
  "deps (s\<lparr>execution_idx := e\<rparr>) i = deps s i" "deps (s\<lparr>validation_idx := e\<rparr>) i = deps s i"
  "deps (s\<lparr>min_validation_idx := e\<rparr>) i = deps s i" "deps (s\<lparr>num_validated := e\<rparr>) i = deps s i"
  "deps (s\<lparr>aborted := a\<rparr>) i = deps s i"
  "n_validated (s\<lparr>execution_idx := e\<rparr>) = n_validated s" "n_validated (s\<lparr>validation_idx := e\<rparr>) = n_validated s"
  "n_validated (s\<lparr>min_validation_idx := e\<rparr>) = n_validated s" "n_validated (s\<lparr>num_validated := e\<rparr>) = n_validated s"
  "n_validated (s\<lparr>transactions_dependents := ds\<rparr>) = n_validated s" "n_validated (s\<lparr>aborted := a\<rparr>) = n_validated s"
  "sized (s\<lparr>execution_idx := e\<rparr>) = sized s" "sized (s\<lparr>validation_idx := e\<rparr>) = sized s"
  "sized (s\<lparr>min_validation_idx := e\<rparr>) = sized s" "sized (s\<lparr>num_validated := e\<rparr>) = sized s"
  "sized (s\<lparr>aborted := a\<rparr>) = sized s"
  by (simp_all add: st_def inc_def deps_def n_validated_def sized_def)

lemma deps_ok_counters [simp]:
  "deps_ok (s\<lparr>execution_idx := e\<rparr>) = deps_ok s" "deps_ok (s\<lparr>validation_idx := e\<rparr>) = deps_ok s"
  "deps_ok (s\<lparr>min_validation_idx := e\<rparr>) = deps_ok s" "deps_ok (s\<lparr>num_validated := e\<rparr>) = deps_ok s"
  "deps_ok (s\<lparr>aborted := a\<rparr>) = deps_ok s"
  by (simp_all add: deps_ok_def)

lemma sched_ok_counters [simp]:
  "sched_ok (s\<lparr>execution_idx := e\<rparr>) = sched_ok s" "sched_ok (s\<lparr>validation_idx := e\<rparr>) = sched_ok s"
  "sched_ok (s\<lparr>aborted := a\<rparr>) = sched_ok s"
  by (simp_all add: sched_ok_def)

text \<open>The initial state.\<close>

lemma sched_new_ok: "n < 2 ^ 64 \<Longrightarrow> sched_ok (sched_new n)"
  by (auto simp: sched_ok_def sized_def deps_ok_def deps_def n_validated_def sched_new_def)

lemma sched_new_views:
  "block_size (sched_new n) = n" "i < n \<Longrightarrow> st (sched_new n) i = ReadyToExecute"
  "i < n \<Longrightarrow> deps (sched_new n) i = []" "execution_idx (sched_new n) = 0"
  "validation_idx (sched_new n) = n" "aborted (sched_new n) = False"
  by (simp_all add: sched_new_def st_def deps_def)

text \<open>
  A change of one status keeps the dependents in order when neither the old nor the new status
  is one they rely on.
\<close>

lemma deps_ok_set_status:
  assumes "sized s" "deps_ok s" "i < block_size s"
    and "x \<in> {Executed, Validated} \<Longrightarrow> deps s i = []"
    and "x = Aborting \<or> (\<forall>b < block_size s. i \<notin> set (deps s b))"
  shows "deps_ok (set_status s i x)"
proof (rule deps_okI, goal_cases)
  case (1 b)
  then show ?case using deps_okD(1) [OF assms(2)] by simp
next
  case (2 b d)
  have i: "i < length (transactions_status s)" using assms(1,3) by (simp add: sized_def)
  from 2 have b: "b < block_size s" and d: "d \<in> set (deps s b)" by simp_all
  note D = deps_okD [OF assms(2) b]
  show ?case
    using D(2-4,6,7) [OF d] b d assms(4,5) by (auto simp: st_set_status [OF i])
next
  case (3 b b' d)
  then show ?case using deps_okD(5) [OF assms(2), of b b' d] by simp
qed

lemma not_waiting:
  "deps_ok s \<Longrightarrow> st s i \<noteq> Aborting \<Longrightarrow> \<forall>b < block_size s. i \<notin> set (deps s b)"
  by (auto dest: deps_okD(4))

lemma deps_empty:
  "deps_ok s \<Longrightarrow> i < block_size s \<Longrightarrow> st s i \<in> {Executed, Validated} \<Longrightarrow> deps s i = []"
  using deps_okD(6,7) [of s i "hd (deps s i)"] by (cases "deps s i") auto

text \<open>The counter only depends on which transactions are validated.\<close>

lemma n_validated_card:
  "sized s \<Longrightarrow> n_validated s = card {j. j < block_size s \<and> st s j = Validated}"
  by (simp add: n_validated_def length_filter_conv_card st_def sized_def)

lemma n_validated_cong:
  assumes "sized s" "sized s'" "block_size s' = block_size s"
    and "\<And>j. j < block_size s \<Longrightarrow> st s' j = Validated \<longleftrightarrow> st s j = Validated"
  shows "n_validated s' = n_validated s"
proof -
  have "{j. j < block_size s' \<and> st s' j = Validated} = {j. j < block_size s \<and> st s j = Validated}"
    using assms(3,4) by auto
  then show ?thesis using assms(1,2) by (simp add: n_validated_card)
qed

lemma n_validated_all:
  assumes "sized s" "n_validated s \<ge> block_size s" "i < block_size s"
  shows "st s i = Validated"
proof -
  let ?V = "{j. j < block_size s \<and> st s j = Validated}"
  have "?V = {..< block_size s}"
    using assms(1,2) by (intro card_seteq) (auto simp: n_validated_card)
  then show ?thesis using assms(3) by blast
qed

section \<open>Taking a transaction for execution\<close>

lemma sched_ok_executing:
  assumes "sched_ok s" "i < block_size s" "st s i = ReadyToExecute"
  shows "sched_ok (set_status s i Executing)"
proof -
  note ok = sched_okD [OF assms(1)]
  have "deps_ok (set_status s i Executing)"
    using ok assms not_waiting [of s i] by (intro deps_ok_set_status) auto
  moreover have "n_validated (set_status s i Executing) = n_validated s"
    using ok assms n_validated_set_status [of i s Executing] by (simp add: sized_def)
  ultimately show ?thesis using ok by (simp add: sched_ok_def)
qed

lemma st_in: "sized s \<Longrightarrow> i < block_size s \<Longrightarrow> index_mutex (transactions_status s) i =
    Some \<lparr>incarnation = inc s i, status = st s i\<rparr>"
  by (simp add: sized_def inc_def st_def)

lemma deps_in: "sized s \<Longrightarrow> i < block_size s \<Longrightarrow> index_mutex (transactions_dependents s) i = Some (deps s i)"
  by (simp add: sized_def deps_def)

lemma try_execute_cases:
  assumes "sized s"
  shows "try_execute s i =
    (if i < block_size s \<and> st s i = ReadyToExecute
     then Some (set_status s i Executing, Some \<lparr>tx_idx = i, tx_incarnation = inc s i\<rparr>)
     else Some (s, None))"
  using assms by (simp add: try_execute_def st_in)

lemma validation_slot_cases:
  assumes "sized s"
  shows "validation_slot s i =
    (let v = \<lparr>tx_idx = i, tx_incarnation = inc s i\<rparr> in
     if i < block_size s \<and> st s i = ReadyToExecute then Some (set_status s i Executing, Found (Execution v))
     else if i < block_size s \<and> st s i \<in> {Executed, Validated} then Some (s, Found (Validation v))
     else if i < block_size s \<and> st s i = Aborting then Some (s, Again)
     else Some (s, FallThrough))"
  using assms by (simp add: validation_slot_def st_in Let_def)

section \<open>Adding a dependency\<close>

lemma add_dependency_refused:
  "sized s \<Longrightarrow> b < block_size s \<Longrightarrow> st s b \<in> {Executed, Validated} \<Longrightarrow> add_dependency s i b = Some (s, False)"
  by (auto simp: add_dependency_def st_in)

definition with_dependency :: "scheduler \<Rightarrow> tx_idx_t \<Rightarrow> tx_idx_t \<Rightarrow> scheduler" where
  "with_dependency s i b =
     (set_status s i Aborting)\<lparr>transactions_dependents := (transactions_dependents s)[b := deps s b @ [i]]\<rparr>"

lemma add_dependency_added:
  assumes "sized s" "i < block_size s" "b < i" "st s i = Executing" "st s b \<notin> {Executed, Validated}"
  shows "add_dependency s i b = Some (with_dependency s i b, True)"
  using assms by (simp add: add_dependency_def st_in [OF assms(1)] with_dependency_def deps_def) (simp add: sized_def)

lemma with_dependency_fields [simp]:
  "block_size (with_dependency s i b) = block_size s"
  "execution_idx (with_dependency s i b) = execution_idx s"
  "validation_idx (with_dependency s i b) = validation_idx s"
  "min_validation_idx (with_dependency s i b) = min_validation_idx s"
  "num_validated (with_dependency s i b) = num_validated s"
  "aborted (with_dependency s i b) = aborted s"
  "inc (with_dependency s i b) j = inc s j"
  by (simp_all add: with_dependency_def)

lemma with_dependency_views:
  assumes "sized s" "i < block_size s" "b < block_size s"
  shows "st (with_dependency s i b) j = (if j = i then Aborting else st s j)"
    "deps (with_dependency s i b) c = (if c = b then deps s b @ [i] else deps s c)"
    "sized (with_dependency s i b)"
  using assms by (auto simp: with_dependency_def st_set_status sized_def deps_def nth_list_update)

lemma sched_ok_with_dependency:
  assumes "sched_ok s" "i < block_size s" "b < i" "st s i = Executing" "st s b \<notin> {Executed, Validated}"
  shows "sched_ok (with_dependency s i b)"
proof -
  let ?s = "with_dependency s i b"
  note ok = sched_okD [OF assms(1)]
  have b: "b < block_size s" using assms(2,3) by simp
  note V = with_dependency_views [OF ok(1) assms(2) b]
  have nw: "i \<notin> set (deps s c)" if "c < block_size s" for c
    using not_waiting [OF ok(4), of i] assms(4) that by auto
  have "deps_ok ?s"
  proof (rule deps_okI, goal_cases)
    case (1 c)
    then show ?case using deps_okD(1) [OF ok(4), of c] nw by (auto simp: V)
  next
    case (2 c d)
    then show ?case
      using deps_okD(2-4,6,7) [OF ok(4), of c d] assms(2-5) by (auto simp: V split: if_splits)
  next
    case (3 c c' d)
    then show ?case
      using deps_okD(5) [OF ok(4), of c c' d] nw [of c] nw [of c'] by (auto simp: V split: if_splits)
  qed
  moreover have "n_validated ?s = n_validated s"
    by (rule n_validated_cong [OF ok(1) V(3)]) (use assms(4) in \<open>auto simp: V(1)\<close>)
  ultimately show ?thesis using ok V(3) by (simp add: sched_ok_def)
qed

section \<open>Making a transaction ready again\<close>

definition readied :: "scheduler \<Rightarrow> tx_idx_t \<Rightarrow> scheduler" where
  "readied s i = s\<lparr>transactions_status := (transactions_status s)
     [i := \<lparr>incarnation = usize_add (inc s i) 1, status = ReadyToExecute\<rparr>]\<rparr>"

lemma set_ready_status_eq:
  "sized s \<Longrightarrow> i < block_size s \<Longrightarrow> st s i = Aborting \<Longrightarrow> set_ready_status s i = Some (readied s i)"
  by (simp add: set_ready_status_def st_in readied_def)

lemma readied_fields [simp]:
  "block_size (readied s i) = block_size s"
  "transactions_dependents (readied s i) = transactions_dependents s"
  "execution_idx (readied s i) = execution_idx s"
  "validation_idx (readied s i) = validation_idx s"
  "min_validation_idx (readied s i) = min_validation_idx s"
  "num_validated (readied s i) = num_validated s"
  "aborted (readied s i) = aborted s"
  "deps (readied s i) b = deps s b"
  "sized (readied s i) = sized s"
  by (simp_all add: readied_def deps_def sized_def)

lemma readied_views:
  assumes "sized s" "i < block_size s"
  shows "st (readied s i) j = (if j = i then ReadyToExecute else st s j)"
    "inc (readied s i) j = (if j = i then usize_add (inc s i) 1 else inc s j)"
  using assms by (auto simp: readied_def st_def inc_def sized_def nth_list_update)

lemma sched_ok_readied:
  assumes "sched_ok s" "i < block_size s" "st s i = Aborting"
    and "\<And>b. b < block_size s \<Longrightarrow> i \<notin> set (deps s b)"
  shows "sched_ok (readied s i)"
proof -
  note ok = sched_okD [OF assms(1)]
  note V = readied_views [OF ok(1) assms(2)]
  have "deps_ok (readied s i)"
  proof (rule deps_okI, goal_cases)
    case (1 b)
    then show ?case using deps_okD(1) [OF ok(4), of b] by simp
  next
    case (2 b d)
    then show ?case using deps_okD(2-4,6,7) [OF ok(4), of b d] assms(4) [of b] by (auto simp: V)
  next
    case (3 b b' d)
    then show ?case using deps_okD(5) [OF ok(4), of b b' d] by simp
  qed
  moreover have "n_validated (readied s i) = n_validated s"
    by (rule n_validated_cong) (use ok assms(3) in \<open>auto simp: V\<close>)
  ultimately show ?thesis using ok by (simp add: sched_ok_def)
qed

text \<open>
  Draining the dependents of \<open>i\<close>: each becomes ready in its next incarnation, and the execution
  index is lowered to the smallest of them.
\<close>

lemma resume_dependents_effect:
  assumes "sized s" "distinct ds" "i \<notin> set ds" "\<And>d. d \<in> set ds \<Longrightarrow> d < block_size s \<and> st s d = Aborting"
  shows "\<exists>s'. resume_dependents i ds s = Some s' \<and> sized s' \<and>
    (\<forall>j. st s' j = (if j \<in> set ds then ReadyToExecute else st s j)) \<and>
    (\<forall>j. inc s' j = (if j \<in> set ds then usize_add (inc s j) 1 else inc s j)) \<and>
    transactions_dependents s' = transactions_dependents s \<and> block_size s' = block_size s \<and>
    execution_idx s' = fold min ds (execution_idx s) \<and> validation_idx s' = validation_idx s \<and>
    min_validation_idx s' = min_validation_idx s \<and> num_validated s' = num_validated s \<and>
    aborted s' = aborted s"
  using assms
proof (induction ds arbitrary: s)
  case Nil
  then show ?case by simp
next
  case (Cons d ds)
  let ?s = "(readied s d)\<lparr>execution_idx := min (execution_idx s) d\<rparr>"
  have d: "d < block_size s" "st s d = Aborting" using Cons.prems(4) by auto
  note V = readied_views [OF Cons.prems(1) d(1)]
  have "\<exists>s'. resume_dependents i ds ?s = Some s' \<and> sized s' \<and>
    (\<forall>j. st s' j = (if j \<in> set ds then ReadyToExecute else st ?s j)) \<and>
    (\<forall>j. inc s' j = (if j \<in> set ds then usize_add (inc ?s j) 1 else inc ?s j)) \<and>
    transactions_dependents s' = transactions_dependents ?s \<and> block_size s' = block_size ?s \<and>
    execution_idx s' = fold min ds (execution_idx ?s) \<and> validation_idx s' = validation_idx ?s \<and>
    min_validation_idx s' = min_validation_idx ?s \<and> num_validated s' = num_validated ?s \<and>
    aborted s' = aborted ?s"
    by (rule Cons.IH) (use Cons.prems V in auto)
  moreover have "resume_dependents i (d # ds) s = resume_dependents i ds ?s"
    using Cons.prems d by (simp add: set_ready_status_eq)
  ultimately show ?case
    using Cons.prems(2) V by (auto simp: min.commute)
qed

lemma fold_min_le: "fold min ds (e :: nat) \<le> e"
  by (induction ds arbitrary: e) (simp_all, metis min.boundedE)

lemma fold_min_member: "d \<in> set ds \<Longrightarrow> fold min ds (e :: nat) \<le> d"
proof (induction ds arbitrary: e)
  case (Cons a ds)
  then show ?case using fold_min_le [of ds "min a e"] by (cases "d = a") auto
qed simp

section \<open>Finishing an execution\<close>

lemma sched_ok_drained:
  assumes "sched_ok s" "i < block_size s" "st s i = Executing"
    and "sized s'" "block_size s' = block_size s" "num_validated s' = num_validated s"
      "min_validation_idx s' \<le> block_size s"
    and st': "\<And>j. st s' j = (if j = i then Executed else if j \<in> set (deps s i) then ReadyToExecute else st s j)"
    and deps': "\<And>b. b < block_size s \<Longrightarrow> deps s' b = (if b = i then [] else deps s b)"
  shows "sched_ok s'"
proof -
  note ok = sched_okD [OF assms(1)]
  note D = deps_okD [OF ok(4) assms(2)]
  have "deps_ok s'"
  proof (rule deps_okI, goal_cases)
    case (1 b)
    then show ?case using deps_okD(1) [OF ok(4), of b] by (simp add: assms(5) deps')
  next
    case (2 b d)
    then have "b \<noteq> i" "d \<in> set (deps s b)" "b < block_size s"
      by (auto simp: assms(5) deps' split: if_splits)
    moreover have "d \<noteq> i" "d \<notin> set (deps s i)"
      using calculation deps_okD(4) [OF ok(4), of b d] D(5) assms(3) by auto
    ultimately show ?case
      using deps_okD(2-4,6,7) [OF ok(4), of b d] by (auto simp: assms(5) st')
  next
    case (3 b b' d)
    then show ?case using deps_okD(5) [OF ok(4), of b b' d] by (auto simp: assms(5) deps' split: if_splits)
  qed
  moreover have "n_validated s' = n_validated s"
    using D(4) assms(3) by (intro n_validated_cong [OF ok(1) assms(4,5)]) (auto simp: st')
  ultimately show ?thesis using ok assms(4-7) by (simp add: sched_ok_def)
qed

text \<open>
  The effect of \<^const>\<open>finish_execution\<close> when validation is needed: \<open>i\<close> becomes executed, its
  dependents become ready below the execution index, and either the validation index is at most
  \<open>i\<close> or the caller gets the validation of \<open>i\<close>. A write to a new location brings the validation
  index down to the transactions above \<open>i\<close>.
\<close>

lemma finish_execution_effect:
  assumes "sched_ok s" "i < block_size s" "st s i = Executing" "c flags NeedValidation"
    and v: "v = \<lparr>tx_idx = i, tx_incarnation = inc s i\<rparr>"
  shows "\<exists>s' r. finish_execution c s v flags = Some (s', r) \<and> sched_ok s' \<and>
    block_size s' = block_size s \<and> aborted s' = aborted s \<and>
    (\<forall>j. st s' j = (if j = i then Executed else if j \<in> set (deps s i) then ReadyToExecute else st s j)) \<and>
    (\<forall>j. inc s' j = (if j \<in> set (deps s i) then usize_add (inc s j) 1 else inc s j)) \<and>
    (\<forall>b. b < block_size s \<longrightarrow> deps s' b = (if b = i then [] else deps s b)) \<and>
    execution_idx s' = fold min (deps s i) (execution_idx s) \<and>
    validation_idx s' =
      (if c flags WroteNewLocation then min (validation_idx s) (i + 1) else validation_idx s) \<and>
    min_validation_idx s' = min (min_validation_idx s) i \<and>
    r = (if i < validation_idx s then Some (Validation v) else None)"
proof -
  note ok = sched_okD [OF assms(1)]
  note D = deps_okD [OF ok(4) assms(2)]
  have "i \<notin> set (deps s i)" using D(2) by blast
  then obtain s1 where
    res: "resume_dependents i (deps s i) s = Some s1" and sz: "sized s1" and
    st1: "\<And>j. st s1 j = (if j \<in> set (deps s i) then ReadyToExecute else st s j)" and
    inc1: "\<And>j. inc s1 j = (if j \<in> set (deps s i) then usize_add (inc s j) 1 else inc s j)" and
    td: "transactions_dependents s1 = transactions_dependents s" and
    bs: "block_size s1 = block_size s" and
    ex: "execution_idx s1 = fold min (deps s i) (execution_idx s)" and
    vi: "validation_idx s1 = validation_idx s" and mi: "min_validation_idx s1 = min_validation_idx s" and
    nv: "num_validated s1 = num_validated s" and ab: "aborted s1 = aborted s"
    using resume_dependents_effect [OF ok(1) D(1), of i] D(3,4) by blast
  let ?w = "if c flags WroteNewLocation then min (validation_idx s) (i + 1) else validation_idx s"
  define s' where "s' = (set_status s1 i Executed)\<lparr>
    transactions_dependents := (transactions_dependents s)[i := []],
    min_validation_idx := min (min_validation_idx s) i, validation_idx := ?w\<rparr>"
  have il: "i < length (transactions_status s1)" using sz assms(2) bs by (simp add: sized_def)
  have m: "min (min_validation_idx s) i < block_size s" using assms(2) by simp
  have fe: "finish_execution c s v flags = Some (s', if i < validation_idx s then Some (Validation v) else None)"
    using assms(2-4) res bs vi mi td m
    by (simp add: finish_execution_def v st_in [OF ok(1)] deps_in [OF ok(1)] Let_def s'_def set_status_def)
  have st': "st s' j = (if j = i then Executed else if j \<in> set (deps s i) then ReadyToExecute else st s j)" for j
    by (simp add: s'_def st_set_status [OF il] st1)
  have inc': "inc s' j = (if j \<in> set (deps s i) then usize_add (inc s j) 1 else inc s j)" for j
    by (simp add: s'_def inc1)
  have deps': "deps s' b = (if b = i then [] else deps s b)" if "b < block_size s" for b
    using that ok(1) by (simp add: s'_def deps_def sized_def)
  have sz': "sized s'" using sz bs ok(1) by (simp add: s'_def sized_def)
  have bs': "block_size s' = block_size s" by (simp add: s'_def bs)
  have F: "num_validated s' = num_validated s" "min_validation_idx s' = min (min_validation_idx s) i"
    "validation_idx s' = ?w" "execution_idx s' = fold min (deps s i) (execution_idx s)"
    "aborted s' = aborted s"
    by (simp_all add: s'_def nv ex ab)
  have "sched_ok s'"
    using F ok(2) by (intro sched_ok_drained [OF assms(1-3) sz' bs' _ _ st' deps']) auto
  then show ?thesis
    using F fe st' inc' deps' bs' by auto
qed

section \<open>Finishing a validation\<close>

lemma try_validation_abort_eq:
  assumes "sched_ok s" "tx_idx v < block_size s"
  shows "try_validation_abort s v =
    (if st s (tx_idx v) \<in> {Executed, Validated}
     then Some ((set_status s (tx_idx v) Aborting)\<lparr>num_validated :=
        if st s (tx_idx v) = Validated then usize_sub (num_validated s) 1 else num_validated s\<rparr>, True)
     else Some (s, False))"
  using assms by (auto simp: try_validation_abort_def st_in sched_ok_def set_status_def)

lemma sched_ok_aborting:
  assumes "sched_ok s" "i < block_size s" "st s i \<in> {Executed, Validated}"
  shows "sched_ok ((set_status s i Aborting)\<lparr>num_validated :=
    if st s i = Validated then usize_sub (num_validated s) 1 else num_validated s\<rparr>)"
proof -
  note ok = sched_okD [OF assms(1)]
  have "deps_ok (set_status s i Aborting)"
    using ok assms by (intro deps_ok_set_status) auto
  then show ?thesis
    using ok assms(2) n_validated_set_status [of i s Aborting] by (auto simp: sched_ok_def sized_def)
qed

lemma reschedule_aborted_eq:
  assumes "sched_ok s" "tx_idx v < block_size s" "st s (tx_idx v) = Aborting"
  shows "reschedule_aborted s v =
    Some ((readied s (tx_idx v))\<lparr>validation_idx := min (validation_idx s) (tx_idx v + 1)\<rparr>)"
  using assms by (simp add: reschedule_aborted_def set_ready_status_eq sched_okD)

lemma execute_aborted_eq:
  assumes "sized s"
  shows "execute_aborted s v =
    (if tx_idx v < execution_idx s \<and> tx_idx v < block_size s \<and> st s (tx_idx v) = ReadyToExecute
     then Some (set_status s (tx_idx v) Executing,
       Some (Execution \<lparr>tx_idx = tx_idx v, tx_incarnation = inc s (tx_idx v)\<rparr>))
     else Some (s, None))"
  using assms by (simp add: execute_aborted_def try_execute_cases)

lemma finish_validation_kept_eq:
  assumes "sized s" "tx_idx v < block_size s"
  shows "finish_validation s v False =
    Some (if st s (tx_idx v) = Executed then count_validated s (tx_idx v) else s, None)"
  using assms by (simp add: finish_validation_def st_in)

lemma count_validated_fields [simp]:
  "block_size (count_validated s i) = block_size s"
  "deps (count_validated s i) b = deps s b"
  "execution_idx (count_validated s i) = execution_idx s"
  "validation_idx (count_validated s i) = validation_idx s"
  "min_validation_idx (count_validated s i) = min_validation_idx s"
  "aborted (count_validated s i) = aborted s"
  "inc (count_validated s i) j = inc s j"
  "sized (count_validated s i) = sized s"
  by (simp_all add: count_validated_def)

lemma st_count_validated:
  "sized s \<Longrightarrow> i < block_size s \<Longrightarrow> st (count_validated s i) j = (if j = i then Validated else st s j)"
  by (simp add: count_validated_def st_set_status sized_def)

lemma sched_ok_count_validated:
  assumes "sched_ok s" "i < block_size s" "st s i = Executed"
  shows "sched_ok (count_validated s i)"
proof -
  note ok = sched_okD [OF assms(1)]
  have "deps_ok (set_status s i Validated)"
    using ok assms deps_empty [of s i] not_waiting [of s i] by (intro deps_ok_set_status) auto
  moreover have n: "n_validated (set_status s i Validated) = n_validated s + 1"
    using ok assms n_validated_set_status [of i s Validated] by (simp add: sized_def)
  moreover have "n_validated (set_status s i Validated) \<le> block_size s" "block_size s < 2 ^ 64"
    using ok(1) n_validated_le [of "set_status s i Validated"] by (simp_all add: sized_def)
  then have "usize_add (num_validated s) 1 = n_validated s + 1"
    using n ok(3) by (intro trans [OF usize_add_no_wrap]) auto
  ultimately show ?thesis using ok by (simp add: sched_ok_def count_validated_def)
qed

section \<open>The scan for a task\<close>

text \<open>
  A task that \<open>next_task\<close> may hand out in state \<open>s\<close>, with \<open>s'\<close> the state after it: executing a
  ready transaction, which is marked, or validating one whose execution has finished.
\<close>

fun granted :: "scheduler \<Rightarrow> scheduler \<Rightarrow> task \<Rightarrow> bool" where
  "granted s s' (Execution v) \<longleftrightarrow>
     tx_idx v < block_size s \<and> st s (tx_idx v) = ReadyToExecute \<and> inc s (tx_idx v) = tx_incarnation v \<and>
     (\<forall>j. st s' j = (if j = tx_idx v then Executing else st s j))"
| "granted s s' (Validation v) \<longleftrightarrow>
     tx_idx v < block_size s \<and> st s (tx_idx v) \<in> {Executed, Validated} \<and>
     inc s (tx_idx v) = tx_incarnation v \<and> (\<forall>j. st s' j = st s j)"

text \<open>Work the scan has not passed yet.\<close>

definition available :: "scheduler \<Rightarrow> bool" where
  "available s \<longleftrightarrow> (\<exists>i < block_size s. st s i = ReadyToExecute \<and> execution_idx s \<le> i
     \<or> st s i \<in> {ReadyToExecute, Executed, Validated} \<and> validation_idx s \<le> i)"

definition scan_left :: "scheduler \<Rightarrow> nat" where
  "scan_left s = (block_size s - execution_idx s) + (block_size s - validation_idx s)"

text \<open>The state with the two indices moved.\<close>

abbreviation at_indices :: "scheduler \<Rightarrow> nat \<Rightarrow> nat \<Rightarrow> scheduler" where
  "at_indices s e v \<equiv> s\<lparr>execution_idx := e, validation_idx := v\<rparr>"

lemma execution_job_eq:
  assumes "sized s"
  shows "execution_job s =
    (let i = execution_idx s; s1 = s\<lparr>execution_idx := usize_add i 1\<rparr> in
     if i < block_size s \<and> st s i = ReadyToExecute
     then Some (set_status s1 i Executing, Return (Some (Execution \<lparr>tx_idx = i, tx_incarnation = inc s i\<rparr>)))
     else Some (s1, Continue))"
  using assms by (simp add: execution_job_def take_execution_idx_def try_execute_cases Let_def)

lemma execution_job_outcome:
  assumes "sched_ok s" "execution_job s = Some (s', r)"
  shows "(\<exists>t. r = Return (Some t) \<and> granted s s' t \<and> sched_ok s') \<or>
    r = Continue \<and> s' = s\<lparr>execution_idx := usize_add (execution_idx s) 1\<rparr> \<and>
      \<not> (execution_idx s < block_size s \<and> st s (execution_idx s) = ReadyToExecute)"
proof -
  note ok = sched_okD [OF assms(1)]
  have "sched_ok (set_status (s\<lparr>execution_idx := usize_add i 1\<rparr>) i Executing)"
    if "i < block_size s" "st s i = ReadyToExecute" for i
    using sched_ok_executing [of "s\<lparr>execution_idx := usize_add i 1\<rparr>" i] assms(1) that by simp
  then show ?thesis
    using assms(2) ok(1)
    by (auto simp: execution_job_eq Let_def st_set_status sized_def split: if_splits)
qed

lemma execution_job_total: "sized s \<Longrightarrow> \<exists>s' r. execution_job s = Some (s', r)"
  by (simp add: execution_job_eq Let_def)

lemma execution_job_spec:
  assumes "sched_ok s"
  obtains (Task) s' t where "execution_job s = Some (s', Return (Some t))" "granted s s' t" "sched_ok s'"
  | (Next) "execution_job s = Some (s\<lparr>execution_idx := usize_add (execution_idx s) 1\<rparr>, Continue)"
      "\<not> (execution_idx s < block_size s \<and> st s (execution_idx s) = ReadyToExecute)"
  using execution_job_total [of s] execution_job_outcome [OF assms] sched_okD(1) [OF assms] by blast

lemma granted_counters [simp]:
  "granted (s\<lparr>validation_idx := v\<rparr>) s' t = granted s s' t"
  "granted (s\<lparr>execution_idx := e\<rparr>) s' t = granted s s' t"
  by (cases t; simp)+

lemma same_index [simp]:
  "s\<lparr>execution_idx := execution_idx s\<rparr> = s" "s\<lparr>validation_idx := validation_idx s\<rparr> = s"
  by (cases s; simp)+

lemma same_index_updated [simp]:
  "s\<lparr>execution_idx := e, validation_idx := validation_idx s\<rparr> = s\<lparr>execution_idx := e\<rparr>"
  "s\<lparr>execution_idx := execution_idx s, validation_idx := v\<rparr> = s\<lparr>validation_idx := v\<rparr>"
  by (cases s; simp)+

lemma usize_inc: "n < m \<Longrightarrow> m < 2 ^ 64 \<Longrightarrow> usize_add n 1 = n + 1"
  by (rule usize_add_no_wrap) simp

text \<open>The validation part of an iteration, on an index inside the block.\<close>

lemma validation_slot_spec:
  assumes "sched_ok s" "i < block_size s"
  obtains (Task) s' t where "validation_slot s i = Some (s', Found t)" "granted s s' t" "sched_ok s'"
  | (Skip) r where "validation_slot s i = Some (s, r)" "r = Again \<or> r = FallThrough"
      "st s i \<notin> {ReadyToExecute, Executed, Validated}"
proof (cases "st s i = ReadyToExecute")
  case True
  have "i < length (transactions_status s)" using assms sched_okD(1) [OF assms(1)] by (simp add: sized_def)
  with True show thesis
    using Task [of "set_status s i Executing" "Execution \<lparr>tx_idx = i, tx_incarnation = inc s i\<rparr>"] assms
      sched_ok_executing [OF assms] sched_okD(1) [OF assms(1)]
    by (simp add: validation_slot_cases Let_def st_set_status)
next
  case False
  show thesis
  proof (cases "st s i \<in> {Executed, Validated}")
    case True
    then show thesis
      using Task [of s "Validation \<lparr>tx_idx = i, tx_incarnation = inc s i\<rparr>"] assms sched_okD(1) [OF assms(1)]
      by (auto simp: validation_slot_cases Let_def)
  next
    case F: False
    then show thesis
      using Skip [of "if st s i = Aborting then Again else FallThrough"] False assms sched_okD(1) [OF assms(1)]
      by (simp add: validation_slot_cases Let_def)
  qed
qed

text \<open>
  An iteration that is not the last one either finds a task or advances an index past a
  transaction with no work for it.
\<close>

lemma next_task_iteration_spec:
  assumes ok: "sched_ok s" and "\<not> aborted s" "\<not> (execution_idx s \<ge> block_size s \<and> validation_idx s \<ge> block_size s)"
    and room: "execution_idx s + scan_left s < 2 ^ 64"
  obtains (Task) s' t where "next_task_iteration s = Some (s', Return (Some t))" "granted s s' t" "sched_ok s'"
  | (Next) e v where "next_task_iteration s = Some (at_indices s e v, Continue)"
      "scan_left (at_indices s e v) < scan_left s"
      "e + scan_left (at_indices s e v) \<le> execution_idx s + scan_left s"
      "available s \<Longrightarrow> available (at_indices s e v)"
proof (cases "validation_idx s < execution_idx s")
  case True
  let ?v = "validation_idx s" and ?e = "execution_idx s"
  let ?s1 = "s\<lparr>validation_idx := ?v + 1\<rparr>"
  have v: "?v < block_size s" using True assms(3) by linarith
  have bs: "block_size s < 2 ^ 64" using sched_okD(1) [OF ok] by (simp add: sized_def)
  have left: "scan_left s \<ge> 1" using v by (simp add: scan_left_def)
  have it: "next_task_iteration s = do {
      (s2, r) \<leftarrow> validation_slot ?s1 ?v;
      (case r of Found t \<Rightarrow> Some (s2, Return (Some t)) | Again \<Rightarrow> Some (s2, Continue)
       | FallThrough \<Rightarrow> execution_job s2)}"
    using True assms(2) v usize_inc [OF v bs]
    by (simp add: next_task_iteration_def take_validation_idx_def)
  have ok1: "sched_ok ?s1" "?v < block_size ?s1" using ok v by simp_all
  have av: "available (at_indices s e (?v + 1))"
    if "available s" "st s ?v \<notin> {ReadyToExecute, Executed, Validated}"
      "e = ?e \<or> e = ?e + 1 \<and> \<not> (?e < block_size s \<and> st s ?e = ReadyToExecute)" for e
    using that unfolding available_def by (auto simp: Suc_le_eq le_less)
  from ok1 show thesis
  proof (cases rule: validation_slot_spec)
    case (Task s' t)
    then show thesis using that(1) [of s' t] by (simp add: it)
  next
    case (Skip r)
    show thesis
    proof (cases "r = Again")
      case True
      then show thesis using that(2) [where e = ?e and v = "?v + 1"] Skip av [of ?e] v
        by (simp add: it scan_left_def)
    next
      case False
      then have it': "next_task_iteration s = execution_job ?s1" using Skip by (simp add: it)
      from ok1(1) show thesis
      proof (cases rule: execution_job_spec)
        case (Task s' t)
        then show thesis using that(1) [of s' t] by (simp add: it')
      next
        case Next
        moreover have "usize_add ?e 1 = ?e + 1" using room left by (intro usize_add_no_wrap) linarith
        ultimately show thesis using that(2) [where e = "?e + 1" and v = "?v + 1"] av [of "?e + 1"] Skip(3) v
          by (simp add: it' scan_left_def)
      qed
    qed
  qed
next
  case False
  let ?e = "execution_idx s"
  have e: "?e < block_size s" using False assms(3) by linarith
  have it: "next_task_iteration s = execution_job s"
    using False assms(2) e by (simp add: next_task_iteration_def)
  from ok show thesis
  proof (cases rule: execution_job_spec)
    case (Task s' t)
    then show thesis using that(1) [of s' t] by (simp add: it)
  next
    case Next
    have bs: "block_size s < 2 ^ 64" using sched_okD(1) [OF ok] by (simp add: sized_def)
    have "available (at_indices s (?e + 1) (validation_idx s))" if "available s"
      using that Next(2) unfolding available_def by (auto simp: Suc_le_eq le_less)
    then show thesis using that(2) [where e = "?e + 1" and v = "validation_idx s"] Next(1) e usize_inc [OF e bs]
      by (simp add: it scan_left_def)
  qed
qed

text \<open>
  The scan of one thread running alone ends within one iteration per index left, and finds a task
  whenever there is one.
\<close>

definition scan_ended :: "scheduler \<Rightarrow> scheduler \<Rightarrow> iteration \<Rightarrow> bool" where
  "scan_ended s s' r \<longleftrightarrow> sched_ok s' \<and>
     (case r of
        Return (Some t) \<Rightarrow> \<not> aborted s \<and> granted s s' t
      | Return None \<Rightarrow> aborted s \<or> \<not> available s \<and> all_validated s
      | Yield \<Rightarrow> \<not> aborted s \<and> \<not> available s \<and> \<not> all_validated s
      | Continue \<Rightarrow> False)"

lemma next_task_stops:
  assumes "aborted s \<or> execution_idx s \<ge> block_size s \<and> validation_idx s \<ge> block_size s" "sched_ok s"
  shows "\<exists>r. next_task (Suc n) s = Some (s, r) \<and> scan_ended s s r"
proof -
  have "\<not> available s" if "execution_idx s \<ge> block_size s \<and> validation_idx s \<ge> block_size s"
    using that by (auto simp: available_def)
  then show ?thesis using assms by (auto simp: next_task_iteration_def scan_ended_def)
qed

lemma all_validated_indices [simp]: "all_validated (at_indices s e v) = all_validated s"
  by (simp add: all_validated_def)

lemma scan_ended_indices:
  "scan_ended (at_indices s e v) s' r \<Longrightarrow> (available s \<Longrightarrow> available (at_indices s e v)) \<Longrightarrow> scan_ended s s' r"
  by (auto simp: scan_ended_def split: iteration.splits option.splits)

lemma next_task_ends:
  assumes "sched_ok s" "execution_idx s + scan_left s < 2 ^ 64" "scan_left s < n"
  shows "\<exists>s' r. next_task n s = Some (s', r) \<and> scan_ended s s' r"
  using assms
proof (induction n arbitrary: s)
  case (Suc n)
  show ?case
  proof (cases "aborted s \<or> execution_idx s \<ge> block_size s \<and> validation_idx s \<ge> block_size s")
    case True
    then show ?thesis using next_task_stops [OF True Suc.prems(1)] by blast
  next
    case False
    then have "\<not> aborted s" and busy: "\<not> (execution_idx s \<ge> block_size s \<and> validation_idx s \<ge> block_size s)"
      by blast+
    from Suc.prems(1) \<open>\<not> aborted s\<close> busy Suc.prems(2) show ?thesis
    proof (cases rule: next_task_iteration_spec)
      case (Task s' t)
      then show ?thesis using \<open>\<not> aborted s\<close> by (simp add: scan_ended_def)
    next
      case (Next e v)
      have "\<exists>s' r. next_task n (at_indices s e v) = Some (s', r) \<and> scan_ended (at_indices s e v) s' r"
        using Suc.prems Next(2,3) by (intro Suc.IH) auto
      then show ?thesis using Next(1) scan_ended_indices [OF _ Next(4)] by fastforce
    qed
  qed
qed simp

section \<open>Properties\<close>

text \<open>
  Property C15. Called by one thread, \<^verbatim>\<open>next_task\<close> ends within one iteration per transaction
  index left to scan (fuel above \<^const>\<open>scan_left\<close>), without touching an index out of range. It
  returns a task that may be run (a ready transaction, now marked as executing, or the current
  incarnation of an executed one) whenever work is left past the indices; it returns no task only
  when the scheduler was aborted or enough transactions are validated, and otherwise yields.
\<close>

theorem next_task_finds_work:
  assumes "sched_ok s" "execution_idx s + scan_left s < 2 ^ 64" "scan_left s < fuel"
  shows "\<exists>s' r. next_task fuel s = Some (s', r) \<and> sched_ok s' \<and>
    (case r of
       Return (Some t) \<Rightarrow> \<not> aborted s \<and> granted s s' t
     | Return None \<Rightarrow> aborted s \<or> \<not> available s \<and> all_validated s
     | Yield \<Rightarrow> \<not> aborted s \<and> \<not> available s \<and> \<not> all_validated s
     | Continue \<Rightarrow> False)"
  using next_task_ends [OF assms] by (simp add: scan_ended_def)

theorem next_task_finds_work_witness:
  "\<exists>s' r. next_task 4 (sched_new 2) = Some (s', r) \<and> sched_ok s' \<and>
    (case r of
       Return (Some t) \<Rightarrow> \<not> aborted (sched_new 2) \<and> granted (sched_new 2) s' t
     | Return None \<Rightarrow> aborted (sched_new 2) \<or> \<not> available (sched_new 2) \<and> all_validated (sched_new 2)
     | Yield \<Rightarrow> \<not> aborted (sched_new 2) \<and> \<not> available (sched_new 2) \<and> \<not> all_validated (sched_new 2)
     | Continue \<Rightarrow> False)"
  by (rule next_task_finds_work) (simp_all add: sched_new_ok scan_left_def sched_new_views)

text \<open>
  Property C14. \<^verbatim>\<open>finish_execution\<close> of the running incarnation of a transaction marks it as
  executed, makes every dependent ready in its next incarnation and brings the execution index
  down to it, empties the dependents, and leaves its validation either to the validation index,
  which is then at most the transaction, or to the caller. A write to a new location also brings
  the validation index down to the transactions above. The scheduler's invariant is kept.
\<close>

theorem finish_execution_resumes:
  assumes "sched_ok s" "i < block_size s" "st s i = Executing" "bitflags_contains c"
  shows "\<exists>s' r. finish_execution c s \<lparr>tx_idx = i, tx_incarnation = inc s i\<rparr> flags = Some (s', r) \<and>
    sched_ok s' \<and> st s' i = Executed \<and> deps s' i = [] \<and>
    (\<forall>d \<in> set (deps s i). st s' d = ReadyToExecute \<and> inc s' d = usize_add (inc s d) 1 \<and> execution_idx s' \<le> d) \<and>
    (\<forall>j. j \<noteq> i \<and> j \<notin> set (deps s i) \<longrightarrow> st s' j = st s j \<and> inc s' j = inc s j) \<and>
    (r = None \<and> validation_idx s' \<le> i \<or> r = Some (Validation \<lparr>tx_idx = i, tx_incarnation = inc s i\<rparr>)) \<and>
    (flags AND WroteNewLocation = WroteNewLocation \<longrightarrow> validation_idx s' \<le> i + 1) \<and>
    min_validation_idx s' \<le> i"
proof -
  have w: "c flags WroteNewLocation \<longleftrightarrow> flags AND WroteNewLocation = WroteNewLocation"
    using assms(4) by (simp add: bitflags_contains_def)
  have "i \<notin> set (deps s i)"
    using deps_okD(2) [OF sched_okD(4) [OF assms(1)] assms(2), of i] by auto
  with finish_execution_effect [where c = c and flags = flags, OF assms(1-3) contains_NeedValidation [OF assms(4)] refl]
    w assms(2)
  show ?thesis
    by (elim exE conjE) (rule exI, rule exI, auto simp: fold_min_member not_less)
qed

text \<open>A block of two transactions that both execute, the second waiting for the first.\<close>

definition example_waiting :: scheduler where
  "example_waiting =
     \<lparr>block_size = 2,
      transactions_status = [\<lparr>incarnation = 0, status = Executing\<rparr>, \<lparr>incarnation = 0, status = Aborting\<rparr>],
      transactions_dependents = [[1], []],
      execution_idx = 2, validation_idx = 2, min_validation_idx = 2, num_validated = 0, aborted = False\<rparr>"

lemma example_waiting_ok: "sched_ok example_waiting"
  by (auto simp: sched_ok_def sized_def deps_ok_def deps_def n_validated_def example_waiting_def st_def
      less_2_cases_iff)

theorem finish_execution_resumes_witness:
  "\<exists>s' r. finish_execution (\<lambda>a b. a AND b = b) example_waiting \<lparr>tx_idx = 0, tx_incarnation = inc example_waiting 0\<rparr> 1
       = Some (s', r) \<and>
    sched_ok s' \<and> st s' 0 = Executed \<and> deps s' 0 = [] \<and>
    (\<forall>d \<in> set (deps example_waiting 0). st s' d = ReadyToExecute \<and>
       inc s' d = usize_add (inc example_waiting d) 1 \<and> execution_idx s' \<le> d) \<and>
    (\<forall>j. j \<noteq> 0 \<and> j \<notin> set (deps example_waiting 0) \<longrightarrow> st s' j = st example_waiting j \<and> inc s' j = inc example_waiting j) \<and>
    (r = None \<and> validation_idx s' \<le> 0 \<or>
     r = Some (Validation \<lparr>tx_idx = 0, tx_incarnation = inc example_waiting 0\<rparr>)) \<and>
    ((1 :: u8) AND WroteNewLocation = WroteNewLocation \<longrightarrow> validation_idx s' \<le> 0 + 1) \<and>
    min_validation_idx s' \<le> 0"
  by (rule finish_execution_resumes [OF example_waiting_ok])
    (simp_all add: example_waiting_def st_def bitflags_contains_def)

text \<open>
  Property C19. A successful validation abort excludes a second one until the transaction has run
  again: a validation of the same transaction that fails afterwards does not abort, and finishing
  the aborted validation makes the transaction ready in its next incarnation, with every higher
  transaction at or above the validation index; the transaction is then at or above the execution
  index, or the caller executes it.
\<close>

theorem validation_abort_once:
  assumes "sched_ok s" "i < block_size s" "try_validation_abort s v = Some (s1, True)" "tx_idx v = i"
  shows "(tx_idx w = i \<longrightarrow> try_validation_abort s1 w = Some (s1, False)) \<and>
    (\<exists>s2 r. finish_validation s1 v True = Some (s2, r) \<and>
      validation_idx s2 \<le> i + 1 \<and> inc s2 i = usize_add (inc s i) 1 \<and>
      (st s2 i = ReadyToExecute \<and> execution_idx s2 \<le> i \<and> r = None \<or>
       st s2 i = Executing \<and> r = Some (Execution \<lparr>tx_idx = i, tx_incarnation = inc s2 i\<rparr>)) \<and>
      (\<forall>j. j \<noteq> i \<longrightarrow> st s2 j = st s j \<and> inc s2 j = inc s j))"
proof -
  let ?s1 = "(set_status s i Aborting)\<lparr>num_validated :=
      if st s i = Validated then usize_sub (num_validated s) 1 else num_validated s\<rparr>"
  note ok = sched_okD [OF assms(1)]
  have s1: "s1 = ?s1" and "st s i \<in> {Executed, Validated}"
    using assms by (auto simp: try_validation_abort_eq split: if_splits)
  then have ok1: "sched_ok s1" using sched_ok_aborting [OF assms(1,2)] by simp
  have il: "i < length (transactions_status s)" using ok(1) assms(2) by (simp add: sized_def)
  have st1: "st s1 j = (if j = i then Aborting else st s j)" "inc s1 j = inc s j" for j
    by (simp_all add: s1 st_set_status [OF il])
  have i1: "i < block_size s1" using assms(2) by (simp add: s1)
  note R = readied_views [OF sched_okD(1) [OF ok1] i1]
  let ?s2 = "(readied s1 i)\<lparr>validation_idx := min (validation_idx s1) (i + 1)\<rparr>"
  have "sized ?s2" "i < block_size ?s2" using sched_okD(1) [OF ok1] i1 by simp_all
  then have "i < length (transactions_status ?s2)" by (simp add: sized_def)
  note S = st_set_status [OF this, simplified]
  have "finish_validation s1 v True = execute_aborted ?s2 v"
    using assms(4) st1 by (simp add: finish_validation_def reschedule_aborted_eq [OF ok1] i1)
  then have "\<exists>s2 r. finish_validation s1 v True = Some (s2, r) \<and>
      validation_idx s2 \<le> i + 1 \<and> inc s2 i = usize_add (inc s i) 1 \<and>
      (st s2 i = ReadyToExecute \<and> execution_idx s2 \<le> i \<and> r = None \<or>
       st s2 i = Executing \<and> r = Some (Execution \<lparr>tx_idx = i, tx_incarnation = inc s2 i\<rparr>)) \<and>
      (\<forall>j. j \<noteq> i \<longrightarrow> st s2 j = st s j \<and> inc s2 j = inc s j)"
    using i1 \<open>sized ?s2\<close> by (auto simp: execute_aborted_eq R S st1 assms(4))
  then show ?thesis
    using ok1 i1 st1(1) by (auto simp: try_validation_abort_eq)
qed

theorem validation_abort_once_witness:
  "let s = \<lparr>block_size = 1, transactions_status = [\<lparr>incarnation = 0, status = Validated\<rparr>],
        transactions_dependents = [[]], execution_idx = 1, validation_idx = 1, min_validation_idx = 0,
        num_validated = 1, aborted = False\<rparr>;
       v = \<lparr>tx_idx = 0, tx_incarnation = 0\<rparr>;
       s1 = fst (the (try_validation_abort s v))
   in (tx_idx v = 0 \<longrightarrow> try_validation_abort s1 v = Some (s1, False)) \<and>
    (\<exists>s2 r. finish_validation s1 v True = Some (s2, r) \<and>
      validation_idx s2 \<le> 0 + 1 \<and> inc s2 0 = usize_add (inc s 0) 1 \<and>
      (st s2 0 = ReadyToExecute \<and> execution_idx s2 \<le> 0 \<and> r = None \<or>
       st s2 0 = Executing \<and> r = Some (Execution \<lparr>tx_idx = 0, tx_incarnation = inc s2 0\<rparr>)) \<and>
      (\<forall>j. j \<noteq> 0 \<longrightarrow> st s2 j = st s j \<and> inc s2 j = inc s j))"
  unfolding Let_def
  by (rule validation_abort_once)
    (simp_all add: sched_ok_def sized_def deps_ok_def deps_def n_validated_def
      try_validation_abort_def set_status_def)

text \<open>
  Property C31. The flag \<^const>\<open>NeedValidation\<close> has no bits, so an execution always counts as needing
  validation: whatever the flags say, \<^verbatim>\<open>finish_execution\<close> leaves the transaction executed and
  never validated, and the number of validated transactions as it was.
\<close>

theorem finish_execution_never_validates:
  assumes "sched_ok s" "i < block_size s" "st s i = Executing" "bitflags_contains c"
    and "finish_execution c s \<lparr>tx_idx = i, tx_incarnation = inc s i\<rparr> flags = Some (s', r)"
  shows "st s' i = Executed \<and> num_validated s' = num_validated s"
proof -
  let ?v = "\<lparr>tx_idx = i, tx_incarnation = inc s i\<rparr>"
  have "sched_ok s'" and st': "\<forall>j. st s' j = (if j = i then Executed else if j \<in> set (deps s i) then ReadyToExecute else st s j)"
    and bs: "block_size s' = block_size s"
    using finish_execution_effect [where c = c and flags = flags and v = ?v, OF assms(1-3) contains_NeedValidation [OF assms(4)] refl]
      assms(5) by auto
  moreover have "n_validated s' = n_validated s"
    using sched_okD(1) [OF assms(1)] sched_okD(1) [OF \<open>sched_ok s'\<close>] bs assms(2,3)
      deps_okD(4) [OF sched_okD(4) [OF assms(1)] assms(2)]
    by (intro n_validated_cong) (auto simp: st')
  ultimately show ?thesis
    using sched_okD(3) [OF assms(1)] sched_okD(3) [OF \<open>sched_ok s'\<close>] by simp
qed

theorem finish_execution_never_validates_witness:
  "let r = the (finish_execution (\<lambda>a b. a AND b = b) example_waiting
       \<lparr>tx_idx = 0, tx_incarnation = inc example_waiting 0\<rparr> 0)
   in st (fst r) 0 = Executed \<and> num_validated (fst r) = num_validated example_waiting"
proof -
  have x: "0 < block_size example_waiting" "st example_waiting 0 = Executing"
    "bitflags_contains (\<lambda>a b. a AND b = b)"
    by (simp_all add: example_waiting_def st_def bitflags_contains_def)
  obtain s' r where f: "finish_execution (\<lambda>a b. a AND b = b) example_waiting
       \<lparr>tx_idx = 0, tx_incarnation = inc example_waiting 0\<rparr> 0 = Some (s', r)"
    using finish_execution_effect [where c = "\<lambda>a b. a AND b = b", OF example_waiting_ok x(1,2) contains_NeedValidation [OF x(3)] refl]
    by blast
  then show ?thesis
    using finish_execution_never_validates [OF example_waiting_ok x f] by (simp add: Let_def)
qed

text \<open>
  Were the flag's test ever false, an execution that finishes between the smallest
  validated index and the validation index would be counted as validated twice: once in the branch
  that moves the validation index and once more on the way out.
\<close>

theorem finish_execution_counts_twice:
  assumes "sized s" "i < block_size s" "st s i = Executing" "deps s i = []" "\<not> c flags NeedValidation"
    and "min_validation_idx s \<le> i" "i < validation_idx s" "num_validated s + 2 < 2 ^ 64"
  shows "\<exists>s'. finish_execution c s \<lparr>tx_idx = i, tx_incarnation = inc s i\<rparr> flags = Some (s', None) \<and>
    st s' i = Validated \<and> num_validated s' = num_validated s + 2"
proof -
  have "i < length (transactions_status s)" using assms(1,2) by (simp add: sized_def)
  moreover have "min_validation_idx s < block_size s" using assms(2,6) by simp
  ultimately show ?thesis
    using assms by (simp add: finish_execution_def st_in deps_in Let_def count_validated_def
      usize_add_no_wrap st_set_status del: index_mutex_in)
qed

theorem finish_execution_counts_twice_witness:
  "let s = \<lparr>block_size = 2,
        transactions_status = [\<lparr>incarnation = 0, status = Validated\<rparr>, \<lparr>incarnation = 0, status = Executing\<rparr>],
        transactions_dependents = [[], []], execution_idx = 2, validation_idx = 2, min_validation_idx = 0,
        num_validated = 1, aborted = False\<rparr>
   in \<exists>s'. finish_execution (\<lambda>a b. False) s \<lparr>tx_idx = 1, tx_incarnation = inc s 1\<rparr> 0 = Some (s', None) \<and>
    st s' 1 = Validated \<and> num_validated s' = num_validated s + 2"
  unfolding Let_def
  by (rule finish_execution_counts_twice) (simp_all add: sized_def st_def deps_def)

end
