(* ===== verification/Transition_System.thy ===== *)
theory Transition_System
  imports Pevm_Prelude
begin

text \<open>
  The interface of the interleaved machines of the development: initial states, a step relation
  and an invariant. What is proved here once is the induction over runs.
\<close>

locale transition_invariant =
  fixes init :: "'m \<Rightarrow> bool"
    and step :: "'m \<Rightarrow> 'm \<Rightarrow> bool"
    and inv :: "'m \<Rightarrow> bool"
  assumes inv_init: "init m \<Longrightarrow> inv m"
    and inv_step: "inv m \<Longrightarrow> step m m' \<Longrightarrow> inv m'"
begin

lemma inv_run: "step\<^sup>*\<^sup>* m m' \<Longrightarrow> inv m \<Longrightarrow> inv m'"
  by (induction rule: rtranclp_induct) (auto intro: inv_step)

lemma inv_reachable: "init m \<Longrightarrow> step\<^sup>*\<^sup>* m m' \<Longrightarrow> inv m'"
  using inv_run inv_init by blast

end

text \<open>
  A transition system with a law that every state that satisfies the invariant and is not final
  can step: then no run gets stuck.
\<close>

locale live_transitions = transition_invariant init step inv
  for init :: "'m \<Rightarrow> bool" and step :: "'m \<Rightarrow> 'm \<Rightarrow> bool" and inv :: "'m \<Rightarrow> bool" +
  fixes final :: "'m \<Rightarrow> bool"
  assumes progress: "inv m \<Longrightarrow> \<not> final m \<Longrightarrow> \<exists>m'. step m m'"
begin

lemma not_stuck: "init m \<Longrightarrow> step\<^sup>*\<^sup>* m m' \<Longrightarrow> final m' \<or> (\<exists>m''. step m' m'')"
  using inv_reachable progress by blast

end

end
