(* ===== verification/Scheduler_Machine.thy ===== *)
theory Scheduler_Machine
  imports Scheduler Transition_System
begin

text \<open>
  The worker threads of \<^verbatim>\<open>Pexe::execute_revm_parallel\<close> (\<^verbatim>\<open>pexe.rs\<close>) over one scheduler.
  Each thread runs the loop over tasks, with \<^verbatim>\<open>try_execute\<close>, \<^verbatim>\<open>try_validate\<close> and
  \<^verbatim>\<open>Scheduler::next_task\<close>; its program counter names the next shared access. Every load, every
  atomic update and every critical section under a transaction's mutex is one step, and the threads
  interleave in any order. What the virtual machine and the validation of a read set answer is
  chosen freely at each step, subject only to a blocking transaction being a lower one.
\<close>

section \<open>The machine\<close>

datatype choice =
    ExecOk finish_exec_flags
  | ExecRetry
  | ExecBlocking tx_idx_t
  | ExecFatal
  | ReadsValid bool

datatype pc =
    Loop
  | LoadExecution
  | LoadValidation nat
  | LoadNumValidated
  | LoadMinValidation nat
  | TakeValidation
  | ValidationSlot nat
  | TakeExecution
  | ExecutionSlot nat
  | HasTask task
  | CheckRetry tx_version
  | SetReason
  | AbortSucceeded tx_version
  | Readied tx_version
  | Lowered tx_version
  | Reexecute tx_version
  | ReadsChecked tx_version
  | AfterTask "task option"
  | Exit

fun execution_outcome ::
    "(u8 \<Rightarrow> u8 \<Rightarrow> bool) \<Rightarrow> choice \<Rightarrow> scheduler \<Rightarrow> tx_version \<Rightarrow> (scheduler \<times> pc) option" where
  "execution_outcome c (ExecOk flags) s v = map_option (apsnd AfterTask) (finish_execution c s v flags)"
| "execution_outcome c ExecRetry s v = Some (s, CheckRetry v)"
| "execution_outcome c (ExecBlocking b) s v =
     do {
       (s1, added) \<leftarrow> add_dependency s (tx_idx v) b;
       Some (s1, if added then AfterTask None else CheckRetry v)
     }"
| "execution_outcome c ExecFatal s v = Some (sched_abort s, SetReason)"
| "execution_outcome c (ReadsValid b) s v = None"

fun validation_outcome :: "choice \<Rightarrow> scheduler \<Rightarrow> tx_version \<Rightarrow> (scheduler \<times> pc) option" where
  "validation_outcome (ReadsValid True) s v = Some (s, ReadsChecked v)"
| "validation_outcome (ReadsValid False) s v =
     do {
       (s1, aborted) \<leftarrow> try_validation_abort s v;
       Some (s1, if aborted then AbortSucceeded v else ReadsChecked v)
     }"
| "validation_outcome _ s v = None"

text \<open>
  One step of a thread: the scheduler, whether an abort reason is set, and the thread's program
  counter, before and after. A result \<^const>\<open>None\<close> is a run the sources rule out.
\<close>

fun thread_step ::
    "(u8 \<Rightarrow> u8 \<Rightarrow> bool) \<Rightarrow> choice \<Rightarrow> scheduler \<Rightarrow> bool \<Rightarrow> pc \<Rightarrow> (scheduler \<times> bool \<times> pc) option" where
  "thread_step c x s reason Loop = Some (s, reason, if aborted s then Exit else LoadExecution)"
| "thread_step c x s reason LoadExecution = Some (s, reason, LoadValidation (execution_idx s))"
| "thread_step c x s reason (LoadValidation e) =
     (let v = validation_idx s
      in Some (s, reason,
           if e \<ge> block_size s \<and> v \<ge> block_size s then LoadNumValidated
           else if v < e then TakeValidation else TakeExecution))"
| "thread_step c x s reason LoadNumValidated = Some (s, reason, LoadMinValidation (num_validated s))"
| "thread_step c x s reason (LoadMinValidation n) =
     Some (s, reason, if n \<ge> usize_sub (block_size s) (min_validation_idx s) then Exit else Loop)"
| "thread_step c x s reason TakeValidation =
     (let (s1, i) = take_validation_idx s in Some (s1, reason, ValidationSlot i))"
| "thread_step c x s reason (ValidationSlot i) =
     do {
       (s1, r) \<leftarrow> validation_slot s i;
       Some (s1, reason, case r of Found t \<Rightarrow> HasTask t | Again \<Rightarrow> Loop | FallThrough \<Rightarrow> TakeExecution)
     }"
| "thread_step c x s reason TakeExecution =
     (let (s1, i) = take_execution_idx s in Some (s1, reason, ExecutionSlot i))"
| "thread_step c x s reason (ExecutionSlot i) =
     do {
       (s1, r) \<leftarrow> Scheduler.try_execute s i;
       Some (s1, reason, case r of Some v \<Rightarrow> HasTask (Execution v) | None \<Rightarrow> Loop)
     }"
| "thread_step c x s reason (HasTask (Execution v)) =
     map_option (\<lambda>(s1, p). (s1, reason, p)) (execution_outcome c x s v)"
| "thread_step c x s reason (HasTask (Validation v)) =
     map_option (\<lambda>(s1, p). (s1, reason, p)) (validation_outcome x s v)"
| "thread_step c x s reason (CheckRetry v) =
     Some (s, reason, if reason then AfterTask None else HasTask (Execution v))"
| "thread_step c x s reason SetReason = Some (s, True, AfterTask None)"
| "thread_step c x s reason (AbortSucceeded v) =
     do {
       s1 \<leftarrow> set_ready_status s (tx_idx v);
       Some (s1, reason, Readied v)
     }"
| "thread_step c x s reason (Readied v) =
     Some (s\<lparr>validation_idx := min (validation_idx s) (tx_idx v + 1)\<rparr>, reason, Lowered v)"
| "thread_step c x s reason (Lowered v) =
     Some (s, reason, if execution_idx s > tx_idx v then Reexecute v else AfterTask None)"
| "thread_step c x s reason (Reexecute v) =
     do {
       (s1, r) \<leftarrow> Scheduler.try_execute s (tx_idx v);
       Some (s1, reason, AfterTask (map_option Execution r))
     }"
| "thread_step c x s reason (ReadsChecked v) =
     do {
       (s1, r) \<leftarrow> finish_validation s v False;
       Some (s1, reason, AfterTask r)
     }"
| "thread_step c x s reason (AfterTask r) =
     Some (s, reason, if reason then Exit else case r of Some t \<Rightarrow> HasTask t | None \<Rightarrow> Loop)"
| "thread_step c x s reason Exit = None"

text \<open>The answers a thread can get at a program counter.\<close>

fun admissible :: "choice \<Rightarrow> pc \<Rightarrow> bool" where
  "admissible x (HasTask (Execution v)) =
     (case x of ExecBlocking b \<Rightarrow> b < tx_idx v | ReadsValid _ \<Rightarrow> False | _ \<Rightarrow> True)"
| "admissible x (HasTask (Validation v)) = (case x of ReadsValid _ \<Rightarrow> True | _ \<Rightarrow> False)"
| "admissible x p = True"

record machine =
  sched :: scheduler
  abort_reason :: bool
  pcs :: "pc list"

definition machine_init :: "nat \<Rightarrow> nat \<Rightarrow> machine" where
  "machine_init n concurrency_level =
     \<lparr>sched = sched_new n, abort_reason = False, pcs = replicate concurrency_level Loop\<rparr>"

inductive machine_step :: "(u8 \<Rightarrow> u8 \<Rightarrow> bool) \<Rightarrow> machine \<Rightarrow> machine \<Rightarrow> bool" for c where
  thread:
    "\<lbrakk> k < length (pcs m); admissible x (pcs m ! k);
       thread_step c x (sched m) (abort_reason m) (pcs m ! k) = Some (s', reason', p') \<rbrakk>
     \<Longrightarrow> machine_step c m \<lparr>sched = s', abort_reason = reason', pcs = (pcs m)[k := p']\<rparr>"

inductive_cases machine_stepE: "machine_step c m m'"

section \<open>Claims\<close>

text \<open>
  A thread claims the transaction it executes, or the one whose validation it has aborted and has
  yet to make ready. Claims are what the mutexes of the statuses are there to protect.
\<close>

datatype claim = ClaimExec tx_version | ClaimAbort tx_idx_t

fun claim_idx :: "claim \<Rightarrow> tx_idx_t" where
  "claim_idx (ClaimExec v) = tx_idx v"
| "claim_idx (ClaimAbort i) = i"

fun pc_claim :: "pc \<Rightarrow> claim option" where
  "pc_claim (HasTask (Execution v)) = Some (ClaimExec v)"
| "pc_claim (CheckRetry v) = Some (ClaimExec v)"
| "pc_claim (AfterTask (Some (Execution v))) = Some (ClaimExec v)"
| "pc_claim (AbortSucceeded v) = Some (ClaimAbort (tx_idx v))"
| "pc_claim _ = None"

definition waiting :: "scheduler \<Rightarrow> tx_idx_t \<Rightarrow> bool" where
  "waiting s i \<longleftrightarrow> (\<exists>b < block_size s. i \<in> set (deps s b))"

text \<open>The claims the statuses allow.\<close>

fun claimable :: "scheduler \<Rightarrow> claim \<Rightarrow> bool" where
  "claimable s (ClaimExec v) \<longleftrightarrow>
     tx_idx v < block_size s \<and> st s (tx_idx v) = Executing \<and> inc s (tx_idx v) = tx_incarnation v"
| "claimable s (ClaimAbort i) \<longleftrightarrow> i < block_size s \<and> st s i = Aborting \<and> \<not> waiting s i"

text \<open>A thread that will look at transaction \<open>i\<close> as an execution, or as a validation.\<close>

fun pends_execution :: "pc \<Rightarrow> tx_idx_t \<Rightarrow> bool" where
  "pends_execution (ExecutionSlot j) i = (j = i)"
| "pends_execution (Readied v) i = (tx_idx v = i)"
| "pends_execution (Lowered v) i = (tx_idx v = i)"
| "pends_execution (Reexecute v) i = (tx_idx v = i)"
| "pends_execution _ i = False"

fun pends_validation :: "pc \<Rightarrow> tx_idx_t \<Rightarrow> bool" where
  "pends_validation (ValidationSlot j) i = (j = i)"
| "pends_validation (HasTask (Validation v)) i = (tx_idx v = i)"
| "pends_validation (ReadsChecked v) i = (tx_idx v = i)"
| "pends_validation (AfterTask (Some (Validation v))) i = (tx_idx v = i)"
| "pends_validation _ i = False"

text \<open>A thread that only looks for work, or has left.\<close>

fun idle :: "pc \<Rightarrow> bool" where
  "idle Loop = True"
| "idle LoadExecution = True"
| "idle (LoadValidation e) = True"
| "idle LoadNumValidated = True"
| "idle (LoadMinValidation n) = True"
| "idle Exit = True"
| "idle _ = False"

text \<open>An idle thread whose loads still agree with the scheduler.\<close>

definition drained :: "scheduler \<Rightarrow> bool" where
  "drained s \<longleftrightarrow> execution_idx s \<ge> block_size s \<and> validation_idx s \<ge> block_size s"

fun fresh :: "scheduler \<Rightarrow> pc \<Rightarrow> bool" where
  "fresh s (LoadValidation e) = (e = execution_idx s)"
| "fresh s LoadNumValidated = drained s"
| "fresh s (LoadMinValidation n) = (drained s \<and> n = num_validated s)"
| "fresh s Exit = (drained s \<and> all_validated s)"
| "fresh s _ = True"

text \<open>Program counters mention transactions of the block.\<close>

fun pc_in :: "nat \<Rightarrow> pc \<Rightarrow> bool" where
  "pc_in n (HasTask t) = (tx_idx (task_version t) < n)"
| "pc_in n (CheckRetry v) = (tx_idx v < n)"
| "pc_in n (AbortSucceeded v) = (tx_idx v < n)"
| "pc_in n (Readied v) = (tx_idx v < n)"
| "pc_in n (Lowered v) = (tx_idx v < n)"
| "pc_in n (Reexecute v) = (tx_idx v < n)"
| "pc_in n (ReadsChecked v) = (tx_idx v < n)"
| "pc_in n (AfterTask r) = (case r of None \<Rightarrow> True | Some t \<Rightarrow> tx_idx (task_version t) < n)"
| "pc_in n _ = True"

section \<open>The invariant\<close>

definition claims_ok :: "scheduler \<Rightarrow> pc list \<Rightarrow> bool" where
  "claims_ok s ps \<longleftrightarrow>
     (\<forall>k < length ps. \<forall>c. pc_claim (ps ! k) = Some c \<longrightarrow> claimable s c) \<and>
     (\<forall>k < length ps. \<forall>l < length ps. \<forall>c d. pc_claim (ps ! k) = Some c \<and> pc_claim (ps ! l) = Some d \<and>
        claim_idx c = claim_idx d \<longrightarrow> k = l)"

text \<open>While the scheduler runs, nothing is forgotten.\<close>

definition covered :: "scheduler \<Rightarrow> pc list \<Rightarrow> bool" where
  "covered s ps \<longleftrightarrow>
     (\<forall>c. claimable s c \<longrightarrow> (\<exists>p \<in> set ps. pc_claim p = Some c)) \<and>
     (\<forall>i < block_size s. st s i = ReadyToExecute \<longrightarrow>
        execution_idx s \<le> i \<or> (\<exists>p \<in> set ps. pends_execution p i)) \<and>
     (\<forall>i < block_size s. st s i = Executed \<longrightarrow>
        validation_idx s \<le> i \<or> (\<exists>p \<in> set ps. pends_validation p i)) \<and>
     ((\<forall>p \<in> set ps. idle p) \<longrightarrow> (\<exists>p \<in> set ps. fresh s p))"

definition machine_inv :: "nat \<Rightarrow> machine \<Rightarrow> bool" where
  "machine_inv n m \<longleftrightarrow>
     sched_ok (sched m) \<and> block_size (sched m) = n \<and> (\<forall>p \<in> set (pcs m). pc_in n p) \<and>
     (\<forall>i < n. st (sched m) i \<in> {Executed, Validated} \<longrightarrow> min_validation_idx (sched m) \<le> i) \<and>
     claims_ok (sched m) (pcs m) \<and>
     (\<not> aborted (sched m) \<longrightarrow> covered (sched m) (pcs m)) \<and>
     (abort_reason m \<or> SetReason \<in> set (pcs m) \<longrightarrow> aborted (sched m)) \<and>
     (aborted (sched m) \<longrightarrow> abort_reason m \<or> SetReason \<in> set (pcs m))"

text \<open>
  What one thread's step from \<open>s\<close>, \<open>p\<close> to \<open>s'\<close>, \<open>p'\<close> has to respect so that the other threads'
  parts of the invariant survive.
\<close>

definition claims_step :: "scheduler \<Rightarrow> pc \<Rightarrow> scheduler \<Rightarrow> pc \<Rightarrow> bool" where
  "claims_step s p s' p' \<longleftrightarrow>
     (\<forall>c. claimable s c \<longrightarrow> pc_claim p = Some c \<or> claimable s' c) \<and>
     (\<forall>c. pc_claim p' = Some c \<longrightarrow> claimable s' c \<and>
        (pc_claim p = Some c \<or> (\<forall>d. claim_idx d = claim_idx c \<longrightarrow> \<not> claimable s d)))"

definition cover_step :: "scheduler \<Rightarrow> pc \<Rightarrow> scheduler \<Rightarrow> pc \<Rightarrow> bool" where
  "cover_step s p s' p' \<longleftrightarrow>
     (\<forall>c. claimable s' c \<longrightarrow> pc_claim p' = Some c \<or> claimable s c \<and> pc_claim p \<noteq> Some c) \<and>
     (\<forall>i < block_size s. st s' i = ReadyToExecute \<longrightarrow> execution_idx s' \<le> i \<or> pends_execution p' i \<or>
        st s i = ReadyToExecute \<and> \<not> execution_idx s \<le> i \<and> \<not> pends_execution p i) \<and>
     (\<forall>i < block_size s. st s' i = Executed \<longrightarrow> validation_idx s' \<le> i \<or> pends_validation p' i \<or>
        st s i = Executed \<and> \<not> validation_idx s \<le> i \<and> \<not> pends_validation p i) \<and>
     (idle p' \<longrightarrow> \<not> idle p \<and> fresh s' p' \<or> idle p \<and> s' = s \<and> (fresh s p \<longrightarrow> fresh s p'))"

definition step_ok :: "scheduler \<Rightarrow> bool \<Rightarrow> pc \<Rightarrow> scheduler \<Rightarrow> bool \<Rightarrow> pc \<Rightarrow> bool" where
  "step_ok s reason p s' reason' p' \<longleftrightarrow>
     sched_ok s' \<and> block_size s' = block_size s \<and> pc_in (block_size s) p' \<and>
     min_validation_idx s' \<le> min_validation_idx s \<and>
     (\<forall>i < block_size s. st s' i \<in> {Executed, Validated} \<longrightarrow>
        st s i \<in> {Executed, Validated} \<or> min_validation_idx s' \<le> i) \<and>
     claims_step s p s' p' \<and>
     (aborted s \<longrightarrow> aborted s') \<and> (reason \<longrightarrow> reason') \<and>
     (\<not> aborted s' \<longrightarrow> cover_step s p s' p') \<and>
     (reason' \<longrightarrow> reason \<or> p = SetReason) \<and> (p' = SetReason \<longrightarrow> aborted s') \<and>
     (aborted s' \<longrightarrow> aborted s \<and> (p = SetReason \<longrightarrow> reason') \<or> p' = SetReason)"

text \<open>The pieces of the invariant are kept by such a step.\<close>

lemma claims_ok_update:
  assumes "claims_ok s ps" "k < length ps" "claims_step s (ps ! k) s' p'"
  shows "claims_ok s' (ps[k := p'])"
proof -
  have held: "claimable s c" if "l < length ps" "pc_claim (ps ! l) = Some c" for l c
    using assms(1) that unfolding claims_ok_def by blast
  have uniq: "j = l" if "j < length ps" "l < length ps" "pc_claim (ps ! j) = Some c"
    "pc_claim (ps ! l) = Some d" "claim_idx c = claim_idx d" for j l c d
    using assms(1) that unfolding claims_ok_def by blast
  have new: "claimable s' c" "pc_claim (ps ! k) = Some c \<or> (\<forall>d. claim_idx d = claim_idx c \<longrightarrow> \<not> claimable s d)"
    if "pc_claim p' = Some c" for c
    using assms(3) that unfolding claims_step_def by blast+
  have kept: "claimable s' c" if "l < length ps" "l \<noteq> k" "pc_claim (ps ! l) = Some c" for l c
    using assms(3) held [OF that(1,3)] uniq [OF that(1) assms(2) that(3)] that(2)
    unfolding claims_step_def by blast
  have apart: False if "l < length ps" "l \<noteq> k" "pc_claim (ps ! l) = Some d" "pc_claim p' = Some c"
    "claim_idx d = claim_idx c" for l c d
    using new(2) [OF that(4)] held [OF that(1,3)] uniq [OF that(1) assms(2) that(3) _ that(5)] that(2,5)
    by blast
  have at: "ps[k := p'] ! l = (if l = k then p' else ps ! l)" if "l < length ps" for l
    using that by (simp add: nth_list_update)
  have 1: "claimable s' c" if "l < length ps" "pc_claim (ps[k := p'] ! l) = Some c" for l c
    using that kept [of l c] new(1) [of c] at [of l] by (cases "l = k") auto
  have 2: "j = l" if "j < length ps" "l < length ps" "pc_claim (ps[k := p'] ! j) = Some c"
    "pc_claim (ps[k := p'] ! l) = Some d" "claim_idx c = claim_idx d" for j l c d
  proof (rule ccontr)
    assume "j \<noteq> l"
    then consider "j = k" "l \<noteq> k" | "l = k" "j \<noteq> k" | "j \<noteq> k" "l \<noteq> k" by blast
    then show False
    proof cases
      case 1
      then show False using apart [OF that(2), of d c] that(3-5) at [OF that(1)] at [OF that(2)] by simp
    next
      case 2
      then show False using apart [OF that(1), of c d] that(3-5) at [OF that(1)] at [OF that(2)] by simp
    next
      case 3
      then show False using uniq [OF that(1,2) _ _ that(5)] that(3,4) at [OF that(1)] at [OF that(2)] \<open>j \<noteq> l\<close>
        by simp
    qed
  qed
  show ?thesis
    unfolding claims_ok_def length_list_update using 1 2 by blast
qed

lemma set_update_same: "k < length xs \<Longrightarrow> x \<in> set xs \<Longrightarrow> x = xs ! k \<or> x \<in> set (xs[k := y])"
  by (metis in_set_conv_nth length_list_update nth_list_update_neq)

lemma bex_update:
  assumes "k < length xs" "\<exists>x \<in> set xs. P x"
  shows "P (xs ! k) \<or> (\<exists>x \<in> set (xs[k := y]). P x)"
  using assms set_update_same by metis

lemma covered_update:
  assumes "covered s ps" "k < length ps" "cover_step s (ps ! k) s' p'" "block_size s' = block_size s"
  shows "covered s' (ps[k := p'])"
proof -
  let ?ps = "ps[k := p']"
  have mem: "p' \<in> set ?ps" by (rule set_update_memI [OF assms(2)])
  have 1: "\<exists>p \<in> set ?ps. pc_claim p = Some c" if "claimable s' c" for c
    using assms(3) that bex_update [OF assms(2), of "\<lambda>p. pc_claim p = Some c" p'] mem assms(1)
    unfolding cover_step_def covered_def by blast
  have 2: "execution_idx s' \<le> i \<or> (\<exists>p \<in> set ?ps. pends_execution p i)"
    if "i < block_size s" "st s' i = ReadyToExecute" for i
    using assms(3) that bex_update [OF assms(2), of "\<lambda>p. pends_execution p i" p'] mem assms(1)
    unfolding cover_step_def covered_def by blast
  have 3: "validation_idx s' \<le> i \<or> (\<exists>p \<in> set ?ps. pends_validation p i)"
    if "i < block_size s" "st s' i = Executed" for i
    using assms(3) that bex_update [OF assms(2), of "\<lambda>p. pends_validation p i" p'] mem assms(1)
    unfolding cover_step_def covered_def by blast
  have 4: "\<exists>p \<in> set ?ps. fresh s' p" if all: "\<forall>p \<in> set ?ps. idle p"
  proof -
    have "idle p'" using all mem by blast
    with assms(3) consider "fresh s' p'" | "idle (ps ! k)" "s' = s" "fresh s (ps ! k) \<longrightarrow> fresh s p'"
      unfolding cover_step_def by blast
    then show ?thesis
    proof cases
      case 2
      have "\<forall>p \<in> set ps. idle p" using all 2(1) set_update_same [OF assms(2)] by metis
      then have "\<exists>p \<in> set ps. fresh s p" using assms(1) unfolding covered_def by blast
      then show ?thesis using bex_update [OF assms(2), of "fresh s" p'] 2 mem by blast
    qed (use mem in blast)
  qed
  show ?thesis unfolding covered_def assms(4) using 1 2 3 4 by blast
qed

lemma machine_inv_update:
  assumes inv: "machine_inv n m" and k: "k < length (pcs m)"
    and ok: "step_ok (sched m) (abort_reason m) (pcs m ! k) s' reason' p'"
  shows "machine_inv n \<lparr>sched = s', abort_reason = reason', pcs = (pcs m)[k := p']\<rparr>"
proof -
  let ?ps = "(pcs m)[k := p']"
  note I = inv [unfolded machine_inv_def] and S = ok [unfolded step_ok_def]
  have p': "p' \<in> set ?ps" by (rule set_update_memI [OF k])
  have "claims_ok s' ?ps" using I S claims_ok_update [OF _ k] by blast
  moreover have "covered s' ?ps" if "\<not> aborted s'"
    using I S that covered_update [OF _ k] by blast
  moreover have "\<forall>p \<in> set ?ps. pc_in n p"
    using I S set_update_subset_insert [of "pcs m" k p'] by blast
  moreover have "\<forall>i < n. st s' i \<in> {Executed, Validated} \<longrightarrow> min_validation_idx s' \<le> i"
    using I S order_trans by blast
  moreover have "reason' \<or> SetReason \<in> set ?ps \<longrightarrow> aborted s'"
  proof -
    have "pcs m ! k = SetReason \<Longrightarrow> SetReason \<in> set (pcs m)" using k nth_mem by metis
    moreover have "SetReason \<in> set ?ps \<Longrightarrow> SetReason = p' \<or> SetReason \<in> set (pcs m)"
      using set_update_subset_insert [of "pcs m" k p'] by blast
    ultimately show ?thesis using I S by argo
  qed
  moreover have "aborted s' \<longrightarrow> reason' \<or> SetReason \<in> set ?ps"
    using I S p' set_update_same [OF k, of SetReason p'] by metis
  ultimately show ?thesis using I S unfolding machine_inv_def by simp
qed

section \<open>The steps of one thread\<close>

text \<open>Steps that change no status and no dependents.\<close>

lemma claimable_cong:
  assumes "block_size s' = block_size s" "\<And>i. st s' i = st s i" "\<And>i. inc s' i = inc s i"
    "\<And>b. deps s' b = deps s b"
  shows "claimable s' c = claimable s c"
  using assms by (cases c) (simp_all add: waiting_def)

lemma step_ok_views:
  assumes s': "sched_ok s'" "block_size s' = block_size s" "\<And>i. st s' i = st s i" "\<And>i. inc s' i = inc s i"
      "\<And>b. deps s' b = deps s b" "min_validation_idx s' = min_validation_idx s" "aborted s' = aborted s"
    and p: "pc_in (block_size s) p'" "p' \<noteq> SetReason" "p \<noteq> SetReason"
    and claims: "\<And>c. pc_claim p = Some c \<Longrightarrow> claimable s c"
    and claim: "pc_claim p' = pc_claim p \<or> pc_claim p' = None \<and> aborted s"
    and ex: "\<And>i. \<not> aborted s \<Longrightarrow> i < block_size s \<Longrightarrow> st s i = ReadyToExecute \<Longrightarrow>
        execution_idx s \<le> i \<or> pends_execution p i \<Longrightarrow> execution_idx s' \<le> i \<or> pends_execution p' i"
    and va: "\<And>i. \<not> aborted s \<Longrightarrow> i < block_size s \<Longrightarrow> st s i = Executed \<Longrightarrow>
        validation_idx s \<le> i \<or> pends_validation p i \<Longrightarrow> validation_idx s' \<le> i \<or> pends_validation p' i"
    and id: "\<not> aborted s \<Longrightarrow> idle p' \<Longrightarrow>
        \<not> idle p \<and> fresh s' p' \<or> idle p \<and> s' = s \<and> (fresh s p \<longrightarrow> fresh s p')"
  shows "step_ok s reason p s' reason p'"
proof -
  have cl: "claimable s' c = claimable s c" for c by (rule claimable_cong [OF s'(2-5)])
  have "claims_step s p s' p'"
    unfolding claims_step_def cl using claims claim by auto
  moreover have "cover_step s p s' p'" if "\<not> aborted s"
    unfolding cover_step_def cl s'(3) using that claim ex va id by auto
  ultimately show ?thesis
    unfolding step_ok_def using s' p by simp
qed

text \<open>A step that leaves the scheduler alone.\<close>

lemma step_ok_same:
  assumes "sched_ok s" "pc_in (block_size s) p'" "p' \<noteq> SetReason" "p \<noteq> SetReason"
    and "\<And>c. pc_claim p = Some c \<Longrightarrow> claimable s c"
    and "pc_claim p' = pc_claim p \<or> pc_claim p' = None \<and> aborted s"
    and "\<And>i. \<not> aborted s \<Longrightarrow> i < block_size s \<Longrightarrow> st s i = ReadyToExecute \<Longrightarrow>
        pends_execution p i \<Longrightarrow> execution_idx s \<le> i \<or> pends_execution p' i"
    and "\<And>i. \<not> aborted s \<Longrightarrow> i < block_size s \<Longrightarrow> st s i = Executed \<Longrightarrow>
        pends_validation p i \<Longrightarrow> validation_idx s \<le> i \<or> pends_validation p' i"
    and "\<not> aborted s \<Longrightarrow> idle p' \<Longrightarrow> fresh s p \<longrightarrow> fresh s p'" "\<not> aborted s \<Longrightarrow> idle p' \<Longrightarrow> idle p \<or> fresh s p'"
  shows "step_ok s reason p s reason p'"
  by (rule step_ok_views [OF assms(1) _ _ _ _ _ _ assms(2-6)]) (use assms(7-) in blast)+

text \<open>Taking a ready transaction for execution.\<close>

lemma version_eq_iff: "v = \<lparr>tx_idx = i, tx_incarnation = n\<rparr> \<longleftrightarrow> tx_idx v = i \<and> tx_incarnation v = n"
  by (cases v) auto

lemma step_ok_grab:
  assumes "sched_ok s" "i < block_size s" "st s i = ReadyToExecute"
    and "p' = HasTask t \<or> p' = AfterTask (Some t)" "t = Execution \<lparr>tx_idx = i, tx_incarnation = inc s i\<rparr>"
    and "pc_claim p = None" "\<And>j. pends_execution p j \<Longrightarrow> j = i" "\<And>j. pends_validation p j \<Longrightarrow> j = i" "p \<noteq> SetReason"
  shows "step_ok s reason p (set_status s i Executing) reason p'"
proof -
  let ?s' = "set_status s i Executing" and ?c = "ClaimExec \<lparr>tx_idx = i, tx_incarnation = inc s i\<rparr>"
  have il: "i < length (transactions_status s)" using assms(1,2) by (simp add: sched_ok_def sized_def)
  have cl: "claimable ?s' c \<longleftrightarrow> claimable s c \<or> c = ?c" for c
    using assms(2,3) by (cases c) (auto simp: st_set_status [OF il] waiting_def version_eq_iff)
  have un: "\<not> claimable s d" if "claim_idx d = i" for d
    using that assms(3) by (cases d) auto
  have p': "pc_claim p' = Some ?c" "\<not> idle p'" "pc_in (block_size s) p'" "p' \<noteq> SetReason"
    using assms(2,4,5) by auto
  have "claims_step s p ?s' p'"
    unfolding claims_step_def cl p'(1) using un by auto
  moreover have "cover_step s p ?s' p'"
    unfolding cover_step_def cl p'(1) using p'(2) assms(3,6-8) by (auto simp: st_set_status [OF il])
  ultimately show ?thesis
    unfolding step_ok_def using p' sched_ok_executing [OF assms(1-3)] assms(2,9)
    by (auto simp: st_set_status [OF il])
qed

text \<open>Finishing an execution.\<close>

lemma step_ok_finish_execution:
  assumes "sched_ok s" "claimable s (ClaimExec v)" "bitflags_contains c"
  shows "\<exists>s' r. finish_execution c s v flags = Some (s', r) \<and>
    step_ok s reason (HasTask (Execution v)) s' reason (AfterTask r)"
proof -
  let ?i = "tx_idx v"
  have v: "?i < block_size s" "st s ?i = Executing" "v = \<lparr>tx_idx = ?i, tx_incarnation = inc s ?i\<rparr>"
    using assms(2) by auto
  obtain s' r where
    f: "finish_execution c s v flags = Some (s', r)" and ok: "sched_ok s'" and
    bs: "block_size s' = block_size s" and ab: "aborted s' = aborted s" and
    st': "\<And>j. st s' j = (if j = ?i then Executed else if j \<in> set (deps s ?i) then ReadyToExecute else st s j)" and
    inc': "\<And>j. inc s' j = (if j \<in> set (deps s ?i) then usize_add (inc s j) 1 else inc s j)" and
    deps': "\<And>b. b < block_size s \<Longrightarrow> deps s' b = (if b = ?i then [] else deps s b)" and
    ex: "execution_idx s' = fold min (deps s ?i) (execution_idx s)" and
    va: "validation_idx s' \<le> validation_idx s" and
    mi: "min_validation_idx s' = min (min_validation_idx s) ?i" and
    r: "r = (if ?i < validation_idx s then Some (Validation v) else None)"
    using finish_execution_effect [where c = c and flags = flags,
        OF assms(1) v(1,2) contains_NeedValidation [OF assms(3)] v(3)]
    by (elim exE conjE) (auto split: if_splits)
  have w: "j \<in> set (deps s ?i) \<Longrightarrow> waiting s j \<and> st s j = Aborting" for j
    using v(1) deps_okD(4) [OF sched_okD(4) [OF assms(1)] v(1)] by (auto simp: waiting_def)
  have w': "waiting s' j \<longleftrightarrow> waiting s j \<and> j \<notin> set (deps s ?i)" for j
  proof -
    have "waiting s' j \<longleftrightarrow> (\<exists>b < block_size s. b \<noteq> ?i \<and> j \<in> set (deps s b))"
      by (auto simp: waiting_def bs deps' split: if_splits)
    then show ?thesis
      unfolding waiting_def using deps_okD(5) [OF sched_okD(4) [OF assms(1)] v(1), of _ j] by blast
  qed
  have cl: "claimable s' d \<longleftrightarrow> claimable s d \<and> d \<noteq> ClaimExec v" for d
    using v(1,2) assms(2) w by (cases d) (auto simp: bs st' inc' w' intro: tx_version.equality)
  have "claims_step s (HasTask (Execution v)) s' (AfterTask r)"
    unfolding claims_step_def cl using r by auto
  moreover have "cover_step s (HasTask (Execution v)) s' (AfterTask r)"
    unfolding cover_step_def cl
    using r va order_trans [OF va] fold_min_le [of "deps s ?i" "execution_idx s"]
    by (auto simp: st' ex fold_min_member split: if_splits)
  ultimately have "step_ok s reason (HasTask (Execution v)) s' reason (AfterTask r)"
    unfolding step_ok_def using ok bs ab mi r v(1) by (auto simp: st')
  with f show ?thesis by blast
qed

text \<open>Waiting for a lower transaction.\<close>

lemma step_ok_dependency:
  assumes "sched_ok s" "claimable s (ClaimExec v)" "b < tx_idx v" "st s b \<notin> {Executed, Validated}"
  shows "step_ok s reason (HasTask (Execution v)) (with_dependency s (tx_idx v) b) reason (AfterTask None)"
proof -
  let ?i = "tx_idx v" and ?s' = "with_dependency s (tx_idx v) b"
  have v: "?i < block_size s" "st s ?i = Executing" "b < block_size s" "inc s ?i = tx_incarnation v"
    using assms(2,3) by auto
  note V = with_dependency_views [OF sched_okD(1) [OF assms(1)] v(1,3)]
  have w: "waiting ?s' j \<longleftrightarrow> waiting s j \<or> j = ?i" for j
    using v(3) by (auto simp: waiting_def V(2))
  have cl: "claimable ?s' d \<longleftrightarrow> claimable s d \<and> d \<noteq> ClaimExec v" for d
    using v by (cases d) (auto simp: V w intro: tx_version.equality)
  have "claims_step s (HasTask (Execution v)) ?s' (AfterTask None)"
    unfolding claims_step_def cl by auto
  moreover have "cover_step s (HasTask (Execution v)) ?s' (AfterTask None)"
    unfolding cover_step_def cl by (auto simp: V)
  ultimately show ?thesis
    unfolding step_ok_def using sched_ok_with_dependency [OF assms(1) v(1) assms(3) v(2) assms(4)]
    by (auto simp: V)
qed

text \<open>A fatal result of the virtual machine.\<close>

lemma step_ok_fatal:
  assumes "sched_ok s" "claimable s (ClaimExec v)"
  shows "step_ok s reason (HasTask (Execution v)) (sched_abort s) reason SetReason"
proof -
  have "claimable (sched_abort s) d = claimable s d" for d
    by (rule claimable_cong) (simp_all add: sched_abort_def)
  then have "claims_step s (HasTask (Execution v)) (sched_abort s) SetReason"
    unfolding claims_step_def by simp
  then show ?thesis unfolding step_ok_def using assms(1) by (simp add: sched_abort_def)
qed

text \<open>Aborting an executed or validated transaction, and making it ready again.\<close>

lemma step_ok_abort:
  assumes "sched_ok s" "tx_idx v < block_size s" "st s (tx_idx v) \<in> {Executed, Validated}"
  shows "step_ok s reason (HasTask (Validation v)) ((set_status s (tx_idx v) Aborting)\<lparr>num_validated :=
      if st s (tx_idx v) = Validated then usize_sub (num_validated s) 1 else num_validated s\<rparr>)
    reason (AbortSucceeded v)" (is "step_ok s reason ?p ?s' reason ?p'")
proof -
  let ?i = "tx_idx v"
  have il: "?i < length (transactions_status s)" using assms(1,2) by (simp add: sched_ok_def sized_def)
  have w: "waiting ?s' j = waiting s j" for j by (simp add: waiting_def)
  have nw: "\<not> waiting s ?i"
    using not_waiting [OF sched_okD(4) [OF assms(1)], of ?i] assms(3) by (auto simp: waiting_def)
  have st': "st ?s' j = (if j = ?i then Aborting else st s j)" for j by (simp add: st_set_status [OF il])
  have cl: "claimable ?s' d \<longleftrightarrow> claimable s d \<or> d = ClaimAbort ?i" for d
  proof (cases d)
    case (ClaimExec x1)
    then show ?thesis using assms(3) by (simp add: st' del: view_counters(4)) auto
  next
    case (ClaimAbort x2)
    then show ?thesis using assms(2,3) nw by (auto simp: st' w simp del: view_counters(4))
  qed
  have un: "\<not> claimable s d" if "claim_idx d = ?i" for d
    using that assms(3) by (cases d) auto
  have "claims_step s ?p ?s' ?p'" unfolding claims_step_def cl using un by auto
  moreover have "cover_step s ?p ?s' ?p'"
    unfolding cover_step_def cl st' by auto
  moreover have "aborted ?s' = aborted s" "block_size ?s' = block_size s"
    "min_validation_idx ?s' = min_validation_idx s" by simp_all
  ultimately show ?thesis
    unfolding step_ok_def st' using sched_ok_aborting [OF assms] assms(2) by auto
qed

lemma step_ok_readied:
  assumes "sched_ok s" "claimable s (ClaimAbort (tx_idx v))"
  shows "step_ok s reason (AbortSucceeded v) (readied s (tx_idx v)) reason (Readied v)"
proof -
  let ?i = "tx_idx v"
  have v: "?i < block_size s" "st s ?i = Aborting" "\<not> waiting s ?i" using assms(2) by auto
  note V = readied_views [OF sched_okD(1) [OF assms(1)] v(1)]
  have w: "waiting (readied s ?i) j = waiting s j" for j by (simp add: waiting_def)
  have cl: "claimable (readied s ?i) d \<longleftrightarrow> claimable s d \<and> d \<noteq> ClaimAbort ?i" for d
    using v by (cases d) (auto simp: V w)
  have "claims_step s (AbortSucceeded v) (readied s ?i) (Readied v)"
    unfolding claims_step_def cl by auto
  moreover have "cover_step s (AbortSucceeded v) (readied s ?i) (Readied v)"
    unfolding cover_step_def cl by (auto simp: V)
  moreover have "sched_ok (readied s ?i)"
    using v(3) by (intro sched_ok_readied [OF assms(1) v(1,2)]) (auto simp: waiting_def)
  ultimately show ?thesis unfolding step_ok_def using v(1) by (auto simp: V)
qed

text \<open>Recording a successful validation.\<close>

lemma step_ok_validated:
  assumes "sched_ok s" "tx_idx v < block_size s" "st s (tx_idx v) = Executed"
  shows "step_ok s reason (ReadsChecked v) (count_validated s (tx_idx v)) reason (AfterTask None)"
proof -
  let ?i = "tx_idx v" and ?s' = "count_validated s (tx_idx v)"
  note V = st_count_validated [OF sched_okD(1) [OF assms(1)] assms(2)]
  have w: "waiting ?s' j = waiting s j" for j by (simp add: waiting_def)
  have cl: "claimable ?s' d = claimable s d" for d
    using assms(3) by (cases d) (auto simp: V w)
  have "claims_step s (ReadsChecked v) ?s' (AfterTask None)"
    unfolding claims_step_def cl by auto
  moreover have "cover_step s (ReadsChecked v) ?s' (AfterTask None)"
    unfolding cover_step_def cl by (auto simp: V)
  ultimately show ?thesis
    unfolding step_ok_def using sched_ok_count_validated [OF assms] assms(3) by (auto simp: V)
qed

text \<open>A step exists and is sound, first where a thread looks for work.\<close>

definition steps_ok :: "(u8 \<Rightarrow> u8 \<Rightarrow> bool) \<Rightarrow> choice \<Rightarrow> scheduler \<Rightarrow> bool \<Rightarrow> pc \<Rightarrow> bool" where
  "steps_ok c x s reason p \<longleftrightarrow> (\<exists>s' reason' p'. thread_step c x s reason p = Some (s', reason', p') \<and>
     step_ok s reason p s' reason' p')"

lemma steps_okI: "thread_step c x s reason p = Some (s', reason', p') \<Longrightarrow> step_ok s reason p s' reason' p' \<Longrightarrow>
    steps_ok c x s reason p"
  by (auto simp: steps_ok_def)

lemma search_step_ok:
  assumes "sched_ok s" "p \<in> {Loop, LoadExecution, LoadValidation e, LoadNumValidated, LoadMinValidation n}"
  shows "steps_ok c x s reason p"
  using assms(2)
proof (elim insertE)
  assume "p = LoadValidation e"
  then show ?thesis
    using assms(1) by (intro steps_okI, simp add: Let_def) (intro step_ok_same, auto simp: drained_def)
next
  assume "p = LoadMinValidation n"
  then show ?thesis
    using assms(1) by (intro steps_okI, simp) (intro step_ok_same, auto simp: all_validated_def)
qed (use assms(1) in \<open>simp_all, (intro steps_okI, simp, intro step_ok_same, auto)+\<close>)

lemma usize_inc_le: "usize_add n (Suc 0) \<le> i" if "n \<le> i" "n \<noteq> i"
  using usize_add_le [of n "Suc 0"] that by simp

lemma take_step_ok:
  assumes "sched_ok s" "p \<in> {TakeValidation, TakeExecution}"
  shows "steps_ok c x s reason p"
  using assms(2)
proof (elim insertE)
  assume p: "p = TakeValidation"
  show ?thesis unfolding p
    by (rule steps_okI, simp add: take_validation_idx_def, rule step_ok_views)
      (use assms(1) in \<open>auto intro: usize_inc_le\<close>)
next
  assume p: "p = TakeExecution"
  show ?thesis unfolding p
    by (rule steps_okI, simp add: take_execution_idx_def, rule step_ok_views)
      (use assms(1) in \<open>auto intro: usize_inc_le\<close>)
qed simp

lemma validation_slot_step_ok:
  assumes "sched_ok s"
  shows "steps_ok c x s reason (ValidationSlot i)"
proof -
  let ?v = "\<lparr>tx_idx = i, tx_incarnation = inc s i\<rparr>"
  note slot = validation_slot_cases [OF sched_okD(1) [OF assms], of i]
  consider "i < block_size s" "st s i = ReadyToExecute" | "i < block_size s" "st s i \<in> {Executed, Validated}"
    | "i < block_size s" "st s i = Aborting" | "i \<ge> block_size s \<or> st s i = Executing"
    by (cases "i < block_size s"; cases "st s i") auto
  then show ?thesis
  proof cases
    case 1
    then show ?thesis
      by (intro steps_okI, simp add: slot Let_def) (rule step_ok_grab [OF assms]; auto)
  next
    case 2
    then have "validation_slot s i = Some (s, Found (Validation ?v))" by (auto simp: slot Let_def)
    with 2 show ?thesis by (intro steps_okI, simp) (rule step_ok_same [OF assms]; auto)
  next
    case 3
    then show ?thesis
      by (intro steps_okI, simp add: slot Let_def) (rule step_ok_same [OF assms]; auto)
  next
    case 4
    then have "validation_slot s i = Some (s, FallThrough)" by (auto simp: slot Let_def)
    with 4 show ?thesis by (intro steps_okI, simp) (rule step_ok_same [OF assms]; auto)
  qed
qed

lemma try_execute_step_ok:
  assumes "sched_ok s" "p = ExecutionSlot i \<or> p = Reexecute v \<and> i = tx_idx v"
  shows "steps_ok c x s reason p"
proof (cases "i < block_size s \<and> st s i = ReadyToExecute")
  case True
  let ?t = "Execution \<lparr>tx_idx = i, tx_incarnation = inc s i\<rparr>"
  have "step_ok s reason p (set_status s i Executing) reason (HasTask ?t)"
    "step_ok s reason p (set_status s i Executing) reason (AfterTask (Some ?t))"
    using True assms by (intro step_ok_grab; auto)+
  then show ?thesis
    using assms(2) True by (auto simp: steps_ok_def try_execute_cases [OF sched_okD(1) [OF assms(1)]])
next
  case False
  have "step_ok s reason p s reason Loop" "step_ok s reason p s reason (AfterTask None)"
    using False assms by (intro step_ok_same; auto)+
  then show ?thesis
    using assms(2) False by (auto simp: steps_ok_def try_execute_cases [OF sched_okD(1) [OF assms(1)]])
qed

text \<open>Then where it works on a task.\<close>

lemma execution_step_ok:
  assumes "sched_ok s" "claimable s (ClaimExec v)" "bitflags_contains c" "admissible x (HasTask (Execution v))"
  shows "steps_ok c x s reason (HasTask (Execution v))"
proof (cases x)
  case (ExecOk flags)
  then show ?thesis
    using step_ok_finish_execution [OF assms(1-3), of flags reason] by (auto simp: steps_ok_def)
next
  case ExecRetry
  then show ?thesis
    using assms(1,2) by (intro steps_okI, simp) (rule step_ok_same; auto)
next
  case (ExecBlocking b)
  then have b: "b < tx_idx v" "b < block_size s" using assms(2,4) by auto
  have sz: "sized s" by (rule sched_okD(1) [OF assms(1)])
  show ?thesis
  proof (cases "st s b \<in> {Executed, Validated}")
    case True
    then have "add_dependency s (tx_idx v) b = Some (s, False)"
      using add_dependency_refused [OF sz b(2)] by blast
    then show ?thesis
      using ExecBlocking assms(1,2) by (intro steps_okI, simp) (rule step_ok_same; auto)
  next
    case False
    then have "add_dependency s (tx_idx v) b = Some (with_dependency s (tx_idx v) b, True)"
      using add_dependency_added [OF sz _ b(1)] assms(2) by simp
    then show ?thesis
      using ExecBlocking step_ok_dependency [OF assms(1,2) b(1) False] by (auto simp: steps_ok_def)
  qed
next
  case ExecFatal
  then show ?thesis using step_ok_fatal [OF assms(1,2)] by (auto simp: steps_ok_def)
next
  case (ReadsValid r)
  then show ?thesis using assms(4) by simp
qed

lemma validation_step_ok:
  assumes "sched_ok s" "tx_idx v < block_size s" "admissible x (HasTask (Validation v))"
  shows "steps_ok c x s reason (HasTask (Validation v))"
proof -
  obtain r where x: "x = ReadsValid r" using assms(3) by (cases x) auto
  show ?thesis
  proof (cases "r = False \<and> st s (tx_idx v) \<in> {Executed, Validated}")
    case True
    then show ?thesis
      using x step_ok_abort [OF assms(1,2), of reason]
      by (auto simp: steps_ok_def try_validation_abort_eq [OF assms(1,2)])
  next
    case False
    have "step_ok s reason (HasTask (Validation v)) s reason (ReadsChecked v)"
      using assms(1,2) by (intro step_ok_same) auto
    then show ?thesis
      using False x by (cases r) (auto simp: steps_ok_def try_validation_abort_eq [OF assms(1,2)])
  qed
qed

lemma reads_checked_step_ok:
  assumes "sched_ok s" "tx_idx v < block_size s"
  shows "steps_ok c x s reason (ReadsChecked v)"
proof (cases "st s (tx_idx v) = Executed")
  case True
  then show ?thesis
    using step_ok_validated [OF assms] finish_validation_kept_eq [OF sched_okD(1) [OF assms(1)] assms(2)]
    by (auto simp: steps_ok_def)
next
  case False
  then show ?thesis
    using assms finish_validation_kept_eq [OF sched_okD(1) [OF assms(1)] assms(2)]
    by (intro steps_okI, simp) (rule step_ok_same; auto)
qed

lemma reschedule_step_ok:
  assumes "sched_ok s" "p \<in> {AbortSucceeded v, Readied v, Lowered v}" "tx_idx v < block_size s"
    and "\<And>d. pc_claim p = Some d \<Longrightarrow> claimable s d"
  shows "steps_ok c x s reason p"
proof -
  consider "p = AbortSucceeded v" | "p = Readied v" | "p = Lowered v" using assms(2) by blast
  then show ?thesis
  proof cases
    case 1
    then have "claimable s (ClaimAbort (tx_idx v))" using assms(4) by simp
    then show ?thesis
      using 1 step_ok_readied [OF assms(1)] set_ready_status_eq [OF sched_okD(1) [OF assms(1)] assms(3)]
      by (auto simp: steps_ok_def)
  next
    case 2
    show ?thesis unfolding 2
      by (rule steps_okI, simp, rule step_ok_views) (use assms(1,3) in auto)
  next
    case 3
    then show ?thesis
      using assms(1,3) by (intro steps_okI, simp) (intro step_ok_same, auto)
  qed
qed

text \<open>The abort reason is set only in an aborted scheduler, and so a thread drops a task only there.\<close>

lemma abort_step_ok:
  assumes "sched_ok s" "p \<in> {CheckRetry v, SetReason, AfterTask r}" "pc_in (block_size s) p"
    and "\<And>d. pc_claim p = Some d \<Longrightarrow> claimable s d" "reason \<or> p = SetReason \<Longrightarrow> aborted s"
  shows "steps_ok c x s reason p"
proof -
  consider "p = CheckRetry v" | "p = SetReason" | "p = AfterTask r" using assms(2) by blast
  then show ?thesis
  proof cases
    case 1
    then show ?thesis
      using assms by (intro steps_okI, simp) (intro step_ok_same, auto)
  next
    case 2
    have "claims_step s p s (AfterTask None)" unfolding claims_step_def 2 by simp
    then have "step_ok s reason p s True (AfterTask None)"
      unfolding step_ok_def using 2 assms(1,5) by simp
    then show ?thesis using 2 by (auto simp: steps_ok_def)
  next
    case 3
    have "step_ok s reason p s reason (case r of Some t \<Rightarrow> HasTask t | None \<Rightarrow> Loop)" if "\<not> reason"
      using assms 3 that
      by (cases r; simp; cases "the r") (intro step_ok_same; auto)+
    moreover have "step_ok s reason p s reason Exit" if reason
      using assms 3 that by (intro step_ok_same) auto
    ultimately show ?thesis using 3 by (auto simp: steps_ok_def)
  qed
qed

lemma thread_step_ok:
  assumes "sched_ok s" "pc_in (block_size s) p" "\<And>d. pc_claim p = Some d \<Longrightarrow> claimable s d"
    and "reason \<or> p = SetReason \<Longrightarrow> aborted s" "admissible x p" "p \<noteq> Exit" "bitflags_contains c"
  shows "steps_ok c x s reason p"
proof (cases p)
  case (HasTask t)
  then show ?thesis
    using assms execution_step_ok [OF assms(1)] validation_step_ok [OF assms(1)] by (cases t) auto
next
  case (ValidationSlot i)
  then show ?thesis using validation_slot_step_ok [OF assms(1)] by simp
next
  case (ExecutionSlot i)
  then show ?thesis using try_execute_step_ok [OF assms(1), of p i] by simp
next
  case (Reexecute v)
  then show ?thesis using try_execute_step_ok [OF assms(1), of p "tx_idx v" v] by simp
next
  case (ReadsChecked v)
  then show ?thesis using reads_checked_step_ok [OF assms(1)] assms(2) by simp
next
  case (AbortSucceeded v)
  then show ?thesis using reschedule_step_ok [OF assms(1), of p v] assms(2,3) by simp
next
  case (Readied v)
  then show ?thesis using reschedule_step_ok [OF assms(1), of p v] assms(2,3) by simp
next
  case (Lowered v)
  then show ?thesis using reschedule_step_ok [OF assms(1), of p v] assms(2,3) by simp
next
  case (CheckRetry v)
  then show ?thesis using abort_step_ok [OF assms(1) _ assms(2-4), of v] by blast
next
  case SetReason
  then show ?thesis using abort_step_ok [OF assms(1) _ assms(2-4)] by blast
next
  case (AfterTask r)
  then show ?thesis using abort_step_ok [OF assms(1) _ assms(2-4), of _ r] by blast
qed (use assms(6) search_step_ok [OF assms(1), of p] take_step_ok [OF assms(1), of p] in auto)

section \<open>Runs of the worker threads\<close>

text \<open>
  A run starts with a new scheduler and at least one worker (\<^verbatim>\<open>concurrency_level\<close> is a
  \<^verbatim>\<open>NonZeroUsize\<close>); \<^verbatim>\<open>FinishExecFlags::contains\<close> behaves as documented.
\<close>

definition machine_start :: "machine \<Rightarrow> bool" where
  "machine_start m \<longleftrightarrow> (\<exists>n concurrency_level. n < 2 ^ 64 \<and> 0 < concurrency_level \<and>
     m = machine_init n concurrency_level)"

definition worker_step :: "machine \<Rightarrow> machine \<Rightarrow> bool" where
  "worker_step m m' \<longleftrightarrow> (\<exists>c. bitflags_contains c \<and> machine_step c m m')"

definition all_exited :: "machine \<Rightarrow> bool" where
  "all_exited m \<longleftrightarrow> (\<forall>p \<in> set (pcs m). p = Exit)"

abbreviation workers_inv :: "machine \<Rightarrow> bool" where
  "workers_inv m \<equiv> machine_inv (block_size (sched m)) m"

lemma machine_inv_thread:
  assumes "workers_inv m" "k < length (pcs m)" "pcs m ! k \<noteq> Exit" "admissible x (pcs m ! k)" "bitflags_contains c"
  shows "steps_ok c x (sched m) (abort_reason m) (pcs m ! k)"
proof -
  note I = assms(1) [unfolded machine_inv_def]
  have mem: "pcs m ! k \<in> set (pcs m)" by (rule nth_mem [OF assms(2)])
  have "claimable (sched m) d" if "pc_claim (pcs m ! k) = Some d" for d
    using I assms(2) that unfolding claims_ok_def by blast
  moreover have "abort_reason m \<or> pcs m ! k = SetReason \<Longrightarrow> aborted (sched m)"
    using I mem by metis
  ultimately show ?thesis
    using I mem assms(3-5) by (intro thread_step_ok) auto
qed

lemma workers_inv_start: "machine_start m \<Longrightarrow> workers_inv m"
proof -
  assume "machine_start m"
  then obtain n t where n: "n < 2 ^ 64" "0 < t" and m: "m = machine_init n t"
    by (auto simp: machine_start_def)
  have "\<not> claimable (sched_new n) c" for c
    by (cases c) (auto simp: sched_new_views)
  then have "covered (sched_new n) (replicate t Loop)"
    using n(2) by (auto simp: covered_def sched_new_views)
  moreover have "claims_ok (sched_new n) (replicate t Loop)"
    by (simp add: claims_ok_def)
  ultimately show "workers_inv m"
    using n by (auto simp: m machine_init_def machine_inv_def sched_new_ok sched_new_views)
qed

lemma workers_inv_step:
  assumes "workers_inv m" "worker_step m m'"
  shows "workers_inv m'"
proof -
  from assms(2) obtain c k x s' reason' p' where c: "bitflags_contains c" and k: "k < length (pcs m)"
    and x: "admissible x (pcs m ! k)"
    and t: "thread_step c x (sched m) (abort_reason m) (pcs m ! k) = Some (s', reason', p')"
    and m': "m' = \<lparr>sched = s', abort_reason = reason', pcs = (pcs m)[k := p']\<rparr>"
    unfolding worker_step_def by (auto elim!: machine_stepE)
  have "pcs m ! k \<noteq> Exit" using t by auto
  then have "step_ok (sched m) (abort_reason m) (pcs m ! k) s' reason' p'"
    using machine_inv_thread [OF assms(1) k _ x c] t by (auto simp: steps_ok_def)
  moreover from this have "block_size s' = block_size (sched m)" by (simp add: step_ok_def)
  ultimately show ?thesis using machine_inv_update [OF assms(1) k] m' by simp
qed

lemma admissible_exists: "\<exists>x. admissible x p"
proof (cases p)
  case (HasTask t)
  then show ?thesis
    by (cases t) (auto intro: exI [of _ ExecRetry] exI [of _ "ReadsValid True"])
qed auto

lemma bitflags_exists: "bitflags_contains (\<lambda>a b. a AND b = b)"
  by (simp add: bitflags_contains_def)

lemma workers_progress:
  assumes "workers_inv m" "\<not> all_exited m"
  shows "\<exists>m'. worker_step m m'"
proof -
  from assms(2) obtain k where k: "k < length (pcs m)" "pcs m ! k \<noteq> Exit"
    by (auto simp: all_exited_def in_set_conv_nth)
  obtain x where x: "admissible x (pcs m ! k)" using admissible_exists by blast
  show ?thesis
    using machine_inv_thread [OF assms(1) k x bitflags_exists] thread [OF k(1) x] bitflags_exists
    unfolding steps_ok_def worker_step_def by blast
qed

interpretation workers: live_transitions machine_start worker_step workers_inv all_exited
proof
  show "machine_start m \<Longrightarrow> workers_inv m" for m by (rule workers_inv_start)
  show "workers_inv m \<Longrightarrow> worker_step m m' \<Longrightarrow> workers_inv m'" for m m' by (rule workers_inv_step)
  show "workers_inv m \<Longrightarrow> \<not> all_exited m \<Longrightarrow> \<exists>m'. worker_step m m'" for m by (rule workers_progress)
qed

text \<open>
  When all threads are idle nothing is claimed, so no transaction executes, none is being aborted,
  and none waits: the lowest one that waited would wait for a transaction that is ready.
\<close>

lemma idle_no_claim: "idle p \<Longrightarrow> pc_claim p = None \<and> \<not> pends_execution p i \<and> \<not> pends_validation p i"
  by (cases p) auto

lemma idle_statuses:
  assumes "workers_inv m" "\<not> aborted (sched m)" "\<forall>p \<in> set (pcs m). idle p" "i < block_size (sched m)"
    and "\<And>j. j < block_size (sched m) \<Longrightarrow> st (sched m) j \<noteq> ReadyToExecute"
  shows "st (sched m) i \<in> {Executed, Validated}"
  using assms(4)
proof (induction i rule: less_induct)
  case (less i)
  let ?s = "sched m"
  have nc: "\<not> claimable ?s c" for c
    using assms(1-3) idle_no_claim unfolding machine_inv_def covered_def by (metis option.distinct(1))
  have "st ?s i \<noteq> Executing" "st ?s i = Aborting \<Longrightarrow> waiting ?s i"
    using less.prems nc [of "ClaimExec \<lparr>tx_idx = i, tx_incarnation = inc ?s i\<rparr>"] nc [of "ClaimAbort i"]
    by simp_all
  moreover have False if w: "waiting ?s i"
  proof -
    obtain b where b: "b < block_size ?s" "i \<in> set (deps ?s b)" using w by (auto simp: waiting_def)
    have "deps_ok ?s" using assms(1) by (simp add: machine_inv_def sched_ok_def)
    then show False using deps_okD(2,6,7) [OF _ b] less.IH [of b] b(1) by auto
  qed
  ultimately show ?case using assms(5) [OF less.prems] by (cases "st ?s i") auto
qed

lemma idle_available:
  assumes "workers_inv m" "\<not> aborted (sched m)" "\<forall>p \<in> set (pcs m). idle p"
    and "i < block_size (sched m)" "st (sched m) i \<noteq> Validated"
  shows "available (sched m)"
proof (rule ccontr)
  let ?s = "sched m"
  assume na: "\<not> available ?s"
  have cov: "covered ?s (pcs m)" using assms(1,2) by (simp add: machine_inv_def)
  have "st ?s j \<noteq> ReadyToExecute" if "j < block_size ?s" for j
    using cov that na assms(3) idle_no_claim unfolding covered_def available_def by blast
  then have "st ?s i \<in> {Executed, Validated}" using idle_statuses [OF assms(1-4)] by blast
  then have "validation_idx ?s \<le> i"
    using cov assms(3-5) idle_no_claim unfolding covered_def by blast
  then show False
    using na assms(4) \<open>st ?s i \<in> {Executed, Validated}\<close> unfolding available_def by blast
qed

text \<open>Once all threads have left without an abort, everything is validated.\<close>

lemma exited_validated:
  assumes inv: "workers_inv m" and ex: "all_exited m" and nr: "\<not> abort_reason m"
  shows "\<not> aborted (sched m)" "drained (sched m)" "i < block_size (sched m) \<Longrightarrow> st (sched m) i = Validated"
proof -
  have p: "\<forall>p \<in> set (pcs m). p = Exit" using ex by (simp add: all_exited_def)
  then have id: "\<forall>p \<in> set (pcs m). idle p" by auto
  show na: "\<not> aborted (sched m)" using inv nr p unfolding machine_inv_def by fastforce
  then have "\<exists>p \<in> set (pcs m). fresh (sched m) p" using inv id unfolding machine_inv_def covered_def by blast
  then show dr: "drained (sched m)" using p by fastforce
  then have "\<not> available (sched m)" by (auto simp: drained_def available_def)
  then show "i < block_size (sched m) \<Longrightarrow> st (sched m) i = Validated"
    using idle_available [OF inv na id] by blast
qed

section \<open>Schedules\<close>

text \<open>A run given by which thread moves and what it is answered.\<close>

fun run_schedule :: "(u8 \<Rightarrow> u8 \<Rightarrow> bool) \<Rightarrow> (nat \<times> choice) list \<Rightarrow> machine \<Rightarrow> machine option" where
  "run_schedule c [] m = Some m"
| "run_schedule c ((k, x) # rest) m =
     (if k < length (pcs m) \<and> admissible x (pcs m ! k) then
        (case thread_step c x (sched m) (abort_reason m) (pcs m ! k) of
           None \<Rightarrow> None
         | Some (s', reason', p') \<Rightarrow>
             run_schedule c rest \<lparr>sched = s', abort_reason = reason', pcs = (pcs m)[k := p']\<rparr>)
      else None)"

lemma run_schedule_run:
  assumes "bitflags_contains c"
  shows "run_schedule c xs m = Some m' \<Longrightarrow> worker_step\<^sup>*\<^sup>* m m'"
proof (induction xs arbitrary: m)
  case (Cons a xs)
  obtain k x where a: "a = (k, x)" by fastforce
  from Cons.prems a obtain s' reason' p' where k: "k < length (pcs m)" "admissible x (pcs m ! k)"
    and t: "thread_step c x (sched m) (abort_reason m) (pcs m ! k) = Some (s', reason', p')"
    and r: "run_schedule c xs \<lparr>sched = s', abort_reason = reason', pcs = (pcs m)[k := p']\<rparr> = Some m'"
    by (auto split: if_splits option.splits)
  have "worker_step m \<lparr>sched = s', abort_reason = reason', pcs = (pcs m)[k := p']\<rparr>"
    unfolding worker_step_def using assms thread [OF k t] by blast
  then show ?case using Cons.IH [OF r] by (rule converse_rtranclp_into_rtranclp)
qed simp

text \<open>One worker executes and validates a block of one transaction, and leaves.\<close>

definition example_schedule :: "(nat \<times> choice) list" where
  "example_schedule = [(0, ExecRetry), (0, ExecRetry), (0, ExecRetry), (0, ExecRetry), (0, ExecRetry),
     (0, ExecOk 1), (0, ExecRetry), (0, ReadsValid True), (0, ExecRetry), (0, ExecRetry), (0, ExecRetry),
     (0, ExecRetry), (0, ExecRetry), (0, ExecRetry), (0, ExecRetry)]"

lemmas run_simps = sched_new_def Let_def take_validation_idx_def take_execution_idx_def usize_add_def
  Scheduler.try_execute_def validation_slot_def set_status_def finish_execution_def add_dependency_def
  finish_validation_def try_validation_abort_def set_ready_status_def count_validated_def
  sched_abort_def NeedValidation_def WroteNewLocation_def index_mutex_def

definition example_final :: machine where
  "example_final =
     \<lparr>sched =
        \<lparr>block_size = 1, transactions_status = [\<lparr>incarnation = 0, status = Validated\<rparr>],
         transactions_dependents = [[]], execution_idx = 1, validation_idx = 1, min_validation_idx = 0,
         num_validated = 1, aborted = False\<rparr>,
      abort_reason = False, pcs = [Exit]\<rparr>"

definition example_executing :: machine where
  "example_executing =
     \<lparr>sched =
        \<lparr>block_size = 1, transactions_status = [\<lparr>incarnation = 0, status = Executing\<rparr>],
         transactions_dependents = [[]], execution_idx = 1, validation_idx = 1, min_validation_idx = 1,
         num_validated = 0, aborted = False\<rparr>,
      abort_reason = False, pcs = [HasTask (Execution \<lparr>tx_idx = 0, tx_incarnation = 0\<rparr>)]\<rparr>"

lemma example_start: "machine_start (machine_init 1 1)"
  unfolding machine_start_def by (rule exI [of _ 1], rule exI [of _ 1]) simp

lemma example_executing_reachable: "worker_step\<^sup>*\<^sup>* (machine_init 1 1) example_executing"
  by (rule run_schedule_run [OF bitflags_exists, where xs = "take 5 example_schedule"])
    (simp add: example_schedule_def machine_init_def example_executing_def run_simps)

lemma example_final_reachable: "worker_step\<^sup>*\<^sup>* (machine_init 1 1) example_final"
  by (rule run_schedule_run [OF bitflags_exists, where xs = example_schedule])
    (simp add: example_schedule_def machine_init_def example_final_def run_simps)

section \<open>Properties\<close>

text \<open>
  Property C8. When all worker threads have left their loops and no abort reason is set, every
  transaction of the block is validated, the counter of validated transactions is the size of the
  block, and no transaction waits for another: no interleaving lets the workers leave early.
\<close>

theorem workers_finish_validated:
  assumes "machine_start m0" "worker_step\<^sup>*\<^sup>* m0 m" "all_exited m" "\<not> abort_reason m"
  shows "(\<forall>i < block_size (sched m). st (sched m) i = Validated \<and> deps (sched m) i = []) \<and>
    num_validated (sched m) = block_size (sched m)"
proof -
  let ?s = "sched m"
  have inv: "workers_inv m" using workers.inv_reachable [OF assms(1,2)] .
  then have ok: "sched_ok ?s" by (simp add: machine_inv_def)
  note st = exited_validated(3) [OF inv assms(3,4)]
  then have "n_validated ?s = block_size ?s"
    using sched_okD(1) [OF ok] by (simp add: n_validated_card cong: conj_cong)
  then show ?thesis
    using st deps_empty [OF sched_okD(4) [OF ok]] sched_okD(3) [OF ok] by simp
qed

theorem workers_finish_validated_witness:
  "st (sched example_final) 0 = Validated \<and> deps (sched example_final) 0 = [] \<and>
    num_validated (sched example_final) = block_size (sched example_final)"
  using workers_finish_validated [OF example_start example_final_reachable]
  by (simp add: example_final_def all_exited_def)

text \<open>
  Property C11. Two worker threads never execute the same transaction at the same time, and the
  incarnation a thread executes is the one the scheduler records as executing.
\<close>

theorem execution_exclusive:
  assumes "machine_start m0" "worker_step\<^sup>*\<^sup>* m0 m" "k < length (pcs m)" "l < length (pcs m)"
    and "pcs m ! k = HasTask (Execution v)" "pcs m ! l = HasTask (Execution w)" "tx_idx v = tx_idx w"
  shows "k = l \<and> st (sched m) (tx_idx v) = Executing \<and> inc (sched m) (tx_idx v) = tx_incarnation v"
proof -
  have inv: "workers_inv m" using workers.inv_reachable [OF assms(1,2)] .
  have "pc_claim (pcs m ! k) = Some (ClaimExec v)" "pc_claim (pcs m ! l) = Some (ClaimExec w)"
    "claim_idx (ClaimExec v) = claim_idx (ClaimExec w)" using assms(5-7) by simp_all
  moreover have "claimable (sched m) (ClaimExec v)"
    using inv calculation(1) assms(3) unfolding machine_inv_def claims_ok_def by blast
  moreover have "k = l"
    using inv calculation(1-3) assms(3,4) unfolding machine_inv_def claims_ok_def by blast
  ultimately show ?thesis by simp
qed

theorem execution_exclusive_witness:
  "(0 :: nat) = 0 \<and> st (sched example_executing) 0 = Executing \<and> inc (sched example_executing) 0 = 0"
  using execution_exclusive [OF example_start example_executing_reachable, of 0 0
      "\<lparr>tx_idx = 0, tx_incarnation = 0\<rparr>" "\<lparr>tx_idx = 0, tx_incarnation = 0\<rparr>"]
  by (simp add: example_executing_def)

text \<open>
  Property C12. In no interleaving does a worker thread read a vector out of range, fail a
  \<^verbatim>\<open>debug_assert\<close> of the scheduler or lock a mutex it holds: a thread that has not left can
  always take its next step, whatever the virtual machine answers.
\<close>

theorem workers_never_fault:
  assumes "machine_start m0" "worker_step\<^sup>*\<^sup>* m0 m" "k < length (pcs m)" "pcs m ! k \<noteq> Exit"
    and "admissible x (pcs m ! k)" "bitflags_contains c"
  shows "\<exists>s' reason' p'. thread_step c x (sched m) (abort_reason m) (pcs m ! k) = Some (s', reason', p') \<and>
    sched_ok s' \<and> block_size s' = block_size (sched m)"
  using machine_inv_thread [OF workers.inv_reachable [OF assms(1,2)] assms(3-6)]
  by (auto simp: steps_ok_def step_ok_def)

theorem workers_never_fault_witness:
  "\<exists>s' reason' p'. thread_step (\<lambda>a b. a AND b = b) (ExecOk 0) (sched example_executing)
      (abort_reason example_executing) (pcs example_executing ! 0) = Some (s', reason', p') \<and>
    sched_ok s' \<and> block_size s' = block_size (sched example_executing)"
  by (rule workers_never_fault [OF example_start example_executing_reachable _ _ _ bitflags_exists])
    (simp_all add: example_executing_def)

text \<open>
  Property C13. Work is never lost: while the scheduler is not aborted, if no worker thread holds
  work and some transaction is not validated, then work is left past the execution or the
  validation index, and some worker thread has not left.
\<close>

theorem workers_keep_work:
  assumes "machine_start m0" "worker_step\<^sup>*\<^sup>* m0 m" "\<not> aborted (sched m)" "\<forall>p \<in> set (pcs m). idle p"
    and "i < block_size (sched m)" "st (sched m) i \<noteq> Validated"
  shows "available (sched m) \<and> (\<exists>p \<in> set (pcs m). p \<noteq> Exit)"
proof -
  have inv: "workers_inv m" using workers.inv_reachable [OF assms(1,2)] .
  have av: "available (sched m)" using idle_available [OF inv assms(3-6)] .
  obtain p where p: "p \<in> set (pcs m)" "fresh (sched m) p"
    using inv assms(3,4) unfolding machine_inv_def covered_def by blast
  have "p \<noteq> Exit"
    using p(2) av by (auto simp: drained_def available_def)
  with av p(1) show ?thesis by blast
qed

theorem workers_keep_work_witness:
  "available (sched (machine_init 1 1)) \<and> (\<exists>p \<in> set (pcs (machine_init 1 1)). p \<noteq> Exit)"
  by (rule workers_keep_work [OF example_start, where i = 0])
    (simp_all add: machine_init_def sched_new_views)

end
