(* ===== verification/Mv_Memory.thy ===== *)
theory Mv_Memory
  imports Core_Types
begin

text \<open>
  The multi-version memory of \<^verbatim>\<open>crates/pevm/src/mv_memory.rs\<close>. The sharded map
  \<^verbatim>\<open>data\<close> is a partial function from location hashes to ordered maps of entries; the per
  transaction \<^verbatim>\<open>last_locations\<close> are a list. Operations on a transaction index are
  \<^const>\<open>None\<close> where the unchecked index is out of range.
\<close>

section \<open>State\<close>

record last_locations_t =
  ll_read :: read_set
  ll_write :: "memory_location_hash list"

record 'code mv_memory =
  data :: "memory_location_hash \<rightharpoonup> memory_entry btree"
  last_locations :: "last_locations_t list"
  lazy_addresses :: "address list"
  new_bytecodes :: "b256 \<rightharpoonup> 'code"

definition empty_locations :: last_locations_t where
  "empty_locations = \<lparr>ll_read = [], ll_write = []\<rparr>"

section \<open>Operations\<close>

text \<open>\<^verbatim>\<open>MvMemory::new\<close>: preallocate an ESTIMATE for every estimated location.\<close>

definition mv_new ::
    "nat \<Rightarrow> (memory_location_hash \<times> tx_idx_t list) list \<Rightarrow> address list \<Rightarrow> 'code mv_memory" where
  "mv_new block_size estimated_locations lazy_addrs =
     \<lparr>data = fold (\<lambda>(l, idxs) d. d(l \<mapsto> bt_of_list (map (\<lambda>i. (i, Estimate)) idxs)))
               estimated_locations Map.empty,
      last_locations = replicate block_size empty_locations,
      lazy_addresses = remdups lazy_addrs,
      new_bytecodes = Map.empty\<rparr>"

definition add_lazy_addresses :: "'code mv_memory \<Rightarrow> address list \<Rightarrow> 'code mv_memory" where
  "add_lazy_addresses m addrs =
     m\<lparr>lazy_addresses := fold List.insert addrs (lazy_addresses m)\<rparr>"

text \<open>
  The loop of \<^verbatim>\<open>record\<close> that drops the locations written by the previous incarnation only:
  \<^verbatim>\<open>swap_remove\<close> moves the last location into the freed place, so the index stays.
\<close>

definition remove_entry ::
    "(memory_location_hash \<rightharpoonup> memory_entry btree) \<Rightarrow> memory_location_hash \<Rightarrow> tx_idx_t
       \<Rightarrow> (memory_location_hash \<rightharpoonup> memory_entry btree)" where
  "remove_entry d l i =
     (case d l of None \<Rightarrow> d | Some bt \<Rightarrow> d(l \<mapsto> bt_remove i bt))"

function prune_old ::
    "tx_idx_t \<Rightarrow> write_set \<Rightarrow> nat \<Rightarrow> memory_location_hash list
       \<Rightarrow> (memory_location_hash \<rightharpoonup> memory_entry btree)
       \<Rightarrow> memory_location_hash list \<times> (memory_location_hash \<rightharpoonup> memory_entry btree)" where
  "prune_old i ws k w d =
     (if k < length w then
        (if list_all (\<lambda>(l, _). l \<noteq> w ! k) ws
         then prune_old i ws k (swap_remove w k) (remove_entry d (w ! k) i)
         else prune_old i ws (Suc k) w d)
      else (w, d))"
  by pat_completeness auto
termination
  by (relation "measure (\<lambda>(i, ws, k, w, d). length w - k)") auto

declare prune_old.simps [simp del]

text \<open>The loop of \<^verbatim>\<open>record\<close> that registers the new writes.\<close>

definition insert_entry ::
    "(memory_location_hash \<rightharpoonup> memory_entry btree) \<Rightarrow> memory_location_hash \<Rightarrow> tx_idx_t \<Rightarrow> memory_entry
       \<Rightarrow> (memory_location_hash \<rightharpoonup> memory_entry btree)" where
  "insert_entry d l i e =
     d(l \<mapsto> bt_insert i e (case d l of None \<Rightarrow> [] | Some bt \<Rightarrow> bt))"

fun register_writes ::
    "tx_version \<Rightarrow> write_set \<Rightarrow> memory_location_hash list
       \<Rightarrow> (memory_location_hash \<rightharpoonup> memory_entry btree) \<Rightarrow> bool
       \<Rightarrow> memory_location_hash list \<times> (memory_location_hash \<rightharpoonup> memory_entry btree) \<times> bool" where
  "register_writes v [] w d new = (w, d, new)"
| "register_writes v ((l, x) # ws) w d new =
     (let d' = insert_entry d l (tx_idx v) (Data (tx_incarnation v) x)
      in if l \<in> set w then register_writes v ws w d' new
         else register_writes v ws (w @ [l]) d' True)"

text \<open>\<^verbatim>\<open>MvMemory::record\<close>, with the flag it returns.\<close>

definition mv_record ::
    "'code mv_memory \<Rightarrow> tx_version \<Rightarrow> read_set \<Rightarrow> write_set \<Rightarrow> ('code mv_memory \<times> bool) option" where
  "mv_record m v rs ws =
     do {
       last \<leftarrow> index_mutex (last_locations m) (tx_idx v);
       let (w, d) = prune_old (tx_idx v) ws 0 (ll_write last) (data m);
       let (w', d', new) = register_writes v ws w d False;
       Some (m\<lparr>data := d',
               last_locations := (last_locations m)[tx_idx v := \<lparr>ll_read = rs, ll_write = w'\<rparr>]\<rparr>,
             new)
     }"

text \<open>
  \<^verbatim>\<open>validate_read_locations\<close>: the inner loop walks the recorded origins and the entries below
  the transaction, the closest first.
\<close>

fun match_origins :: "read_origins \<Rightarrow> (tx_idx_t \<times> memory_entry) list \<Rightarrow> bool" where
  "match_origins [] it = True"
| "match_origins (OriginMvMemory v # os) ((closest_idx, Data inc x) # it) =
     (if closest_idx \<noteq> tx_idx v \<or> tx_incarnation v \<noteq> inc then False else match_origins os it)"
| "match_origins (OriginMvMemory v # os) it = False"
| "match_origins (OriginStorage # os) [] = match_origins os []"
| "match_origins (OriginStorage # os) (e # it) = False"

definition validate_location ::
    "'code mv_memory \<Rightarrow> tx_idx_t \<Rightarrow> memory_location_hash \<times> read_origins \<Rightarrow> bool" where
  "validate_location m i = (\<lambda>(l, origins).
     (case data m l of
        Some bt \<Rightarrow> match_origins origins (bt_below bt i)
      | None \<Rightarrow> \<not> (length origins \<noteq> 1 \<or> origins = [] \<or> last origins \<noteq> OriginStorage)))"

definition validate_read_locations :: "'code mv_memory \<Rightarrow> tx_idx_t \<Rightarrow> bool option" where
  "validate_read_locations m i =
     do {
       last \<leftarrow> index_mutex (last_locations m) i;
       Some (list_all (validate_location m i) (ll_read last))
     }"

definition convert_writes_to_estimates :: "'code mv_memory \<Rightarrow> tx_idx_t \<Rightarrow> 'code mv_memory option" where
  "convert_writes_to_estimates m i =
     do {
       last \<leftarrow> index_mutex (last_locations m) i;
       Some (m\<lparr>data := fold (\<lambda>l d. (case d l of
                                        None \<Rightarrow> d
                                      | Some bt \<Rightarrow> d(l \<mapsto> bt_insert i Estimate bt)))
                            (ll_write last) (data m)\<rparr>)
     }"

definition consume_lazy_addresses :: "'code mv_memory \<Rightarrow> 'code mv_memory \<times> address list" where
  "consume_lazy_addresses m = (m\<lparr>lazy_addresses := []\<rparr>, lazy_addresses m)"

section \<open>Entries\<close>

definition entry_of ::
    "(memory_location_hash \<rightharpoonup> memory_entry btree) \<Rightarrow> memory_location_hash \<Rightarrow> tx_idx_t \<Rightarrow> memory_entry option" where
  "entry_of d l i = (case d l of None \<Rightarrow> None | Some bt \<Rightarrow> bt_get bt i)"

definition data_ok :: "(memory_location_hash \<rightharpoonup> memory_entry btree) \<Rightarrow> bool" where
  "data_ok d \<longleftrightarrow> (\<forall>l bt. d l = Some bt \<longrightarrow> bt_ok bt)"

definition written :: "write_set \<Rightarrow> memory_location_hash set" where
  "written ws = fst ` set ws"

lemma written_simps [simp]: "written [] = {}" "written ((l, x) # ws) = insert l (written ws)"
  by (simp_all add: written_def)

lemma list_all_not_written: "list_all (\<lambda>(l, _). l \<noteq> p) ws \<longleftrightarrow> p \<notin> written ws"
  by (force simp: list_all_iff written_def)

lemma data_ok_remove_entry: "data_ok d \<Longrightarrow> data_ok (remove_entry d l i)"
  by (auto simp: data_ok_def remove_entry_def bt_ok_remove split: option.splits)

lemma data_ok_insert_entry: "data_ok d \<Longrightarrow> data_ok (insert_entry d l i e)"
  by (auto simp: data_ok_def insert_entry_def bt_ok_insert split: option.splits)

lemma entry_of_remove_entry [mem_simps]:
  "entry_of (remove_entry d l i) l' j = (if l' = l \<and> j = i then None else entry_of d l' j)"
  by (auto simp: entry_of_def remove_entry_def bt_get_remove split: option.splits)

lemma entry_of_insert_entry [mem_simps]:
  "entry_of (insert_entry d l i e) l' j = (if l' = l \<and> j = i then Some e else entry_of d l' j)"
  by (auto simp: entry_of_def insert_entry_def bt_get_insert split: option.splits)

lemma prune_old_spec:
  assumes "prune_old i ws k w d = (w', d')" "distinct w" "\<forall>j<k. j < length w \<longrightarrow> w ! j \<in> written ws"
  shows "set w' = set w \<inter> written ws \<and> distinct w' \<and> (data_ok d \<longrightarrow> data_ok d') \<and>
    (\<forall>l j. entry_of d' l j = (if j = i \<and> l \<in> set w - written ws then None else entry_of d l j))"
  using assms
proof (induction i ws k w d arbitrary: w' d' rule: prune_old.induct)
  case (1 i ws k w d)
  note step = prune_old.simps [of i ws k w d, unfolded list_all_not_written]
  note prems = "1.prems"
  consider (stop) "length w \<le> k" | (drop) "k < length w" "w ! k \<notin> written ws"
    | (keep) "k < length w" "w ! k \<in> written ws" by linarith
  then show ?case
  proof cases
    case stop
    with prems have "set w \<subseteq> written ws"
      by (auto simp: set_conv_nth)
    with stop prems step show ?thesis by auto
  next
    case drop
    have sr: "set (swap_remove w k) = set w - {w ! k}" "distinct (swap_remove w k)"
      using mset_swap_remove_set drop(1) prems(2) by auto
    have "\<forall>j<k. j < length (swap_remove w k) \<longrightarrow> swap_remove w k ! j \<in> written ws"
      using prems(3) drop(1) by (auto simp: swap_remove_def nth_butlast)
    with drop step prems(1) sr(2) have
      "set w' = set (swap_remove w k) \<inter> written ws \<and> distinct w' \<and>
       (data_ok (remove_entry d (w ! k) i) \<longrightarrow> data_ok d') \<and>
       (\<forall>l j. entry_of d' l j = (if j = i \<and> l \<in> set (swap_remove w k) - written ws then None
           else entry_of (remove_entry d (w ! k) i) l j))"
      by (intro "1.IH"(1)) (auto simp: list_all_not_written)
    moreover have "w ! k \<in> set w" using drop(1) by simp
    ultimately show ?thesis
      using drop sr(1) by (auto simp: mem_simps data_ok_remove_entry)
  next
    case keep
    have "\<forall>j<Suc k. j < length w \<longrightarrow> w ! j \<in> written ws"
      using keep prems(3) by (auto simp: less_Suc_eq)
    with keep step prems show ?thesis
      by (intro "1.IH"(2)) (auto simp: list_all_not_written)
  qed
qed

lemma register_writes_spec:
  assumes "register_writes v ws w d new = (w', d', new')"
  shows "set w' = set w \<union> written ws \<and> (distinct w \<longrightarrow> distinct w') \<and>
    (new' \<longleftrightarrow> new \<or> \<not> written ws \<subseteq> set w) \<and> (data_ok d \<longrightarrow> data_ok d') \<and>
    (\<forall>l j. entry_of d' l j =
       (case if j = tx_idx v then map_of (rev ws) l else None of
          Some x \<Rightarrow> Some (Data (tx_incarnation v) x)
        | None \<Rightarrow> entry_of d l j))"
  using assms
proof (induction v ws w d new rule: register_writes.induct)
  case (1 v w d new)
  then show ?case by auto
next
  case (2 v l x ws w d new)
  then show ?case
    by (auto simp: Let_def mem_simps data_ok_insert_entry map_add_def split: if_splits option.splits)
qed

section \<open>The invariant\<close>

abbreviation writes_of :: "'code mv_memory \<Rightarrow> tx_idx_t \<Rightarrow> memory_location_hash set" where
  "writes_of m i \<equiv> set (ll_write (last_locations m ! i))"

abbreviation reads_of :: "'code mv_memory \<Rightarrow> tx_idx_t \<Rightarrow> read_set" where
  "reads_of m i \<equiv> ll_read (last_locations m ! i)"

definition entry_at :: "'code mv_memory \<Rightarrow> memory_location_hash \<Rightarrow> tx_idx_t \<Rightarrow> memory_entry option" where
  "entry_at m l i = entry_of (data m) l i"

text \<open>
  Every map of entries is an ordered map; the locations recorded for a transaction are distinct
  and have an entry; and a \<^const>\<open>Data\<close> entry belongs to a transaction of the block that recorded
  its location. An \<^const>\<open>Estimate\<close> may also be a preallocated one.
\<close>

definition mv_ok :: "'code mv_memory \<Rightarrow> bool" where
  "mv_ok m \<longleftrightarrow>
     data_ok (data m) \<and>
     (\<forall>i < length (last_locations m). distinct (ll_write (last_locations m ! i))) \<and>
     (\<forall>i < length (last_locations m). \<forall>l \<in> writes_of m i. entry_at m l i \<noteq> None) \<and>
     (\<forall>l i inc x. entry_at m l i = Some (Data inc x) \<longrightarrow>
        i < length (last_locations m) \<and> l \<in> writes_of m i)"

lemma mv_okD:
  assumes "mv_ok m"
  shows "data_ok (data m)"
    "i < length (last_locations m) \<Longrightarrow> distinct (ll_write (last_locations m ! i))"
    "i < length (last_locations m) \<Longrightarrow> l \<in> writes_of m i \<Longrightarrow> entry_at m l i \<noteq> None"
    "entry_at m l i = Some (Data inc x) \<Longrightarrow> i < length (last_locations m)"
    "entry_at m l i = Some (Data inc x) \<Longrightarrow> l \<in> writes_of m i"
  using assms unfolding mv_ok_def by blast+

section \<open>Construction\<close>

lemma mv_new_data:
  fixes ls :: "(memory_location_hash \<times> tx_idx_t list) list"
  shows "data (mv_new n ls addrs) l =
    map_option (\<lambda>idxs. bt_of_list (map (\<lambda>i. (i, Estimate)) idxs)) (map_of (rev ls) l)"
proof -
  have "fold (\<lambda>(l, idxs) d. d(l \<mapsto> bt_of_list (map (\<lambda>i. (i, Estimate)) idxs))) ls d l =
    (case map_of (rev ls) l of None \<Rightarrow> d l | Some idxs \<Rightarrow> Some (bt_of_list (map (\<lambda>i. (i, Estimate)) idxs)))"
    for d :: "memory_location_hash \<rightharpoonup> memory_entry btree"
    by (induction ls arbitrary: d) (auto simp: map_add_def split: option.splits)
  then show ?thesis by (simp add: mv_new_def split: option.splits)
qed

lemma map_of_const: "map_of (map (\<lambda>i. (i, c)) is) i = (if i \<in> set is then Some c else None)"
  by (induction "is") auto

lemma mv_new_entry:
  "entry_at (mv_new n ls addrs) l i =
     (case map_of (rev ls) l of
        None \<Rightarrow> None
      | Some idxs \<Rightarrow> if i \<in> set idxs then Some Estimate else None)"
  by (auto simp: entry_at_def entry_of_def mv_new_data bt_get_of_list rev_map map_of_const
        split: option.splits)

lemma mv_new_locations: "last_locations (mv_new n ls addrs) = replicate n empty_locations"
  by (simp add: mv_new_def)

lemma mv_new_ok: "mv_ok (mv_new n ls addrs)"
proof -
  have "data_ok (data (mv_new n ls addrs))"
    by (auto simp: data_ok_def mv_new_data)
  then show ?thesis
    by (auto simp: mv_ok_def mv_new_entry mv_new_locations empty_locations_def
          split: option.splits if_splits)
qed

section \<open>Recording an execution\<close>

lemma mv_record_total:
  "tx_idx v < length (last_locations m) \<Longrightarrow> \<exists>m' new. mv_record m v rs ws = Some (m', new)"
  by (auto simp: mv_record_def split: prod.splits)

lemma mv_record_raw:
  assumes "mv_ok m" "mv_record m v rs ws = Some (m', new)"
  shows "tx_idx v < length (last_locations m)"
    "\<exists>w'. last_locations m' = (last_locations m)[tx_idx v := \<lparr>ll_read = rs, ll_write = w'\<rparr>] \<and>
          set w' = written ws \<and> distinct w'"
    "data_ok (data m')"
    "new \<longleftrightarrow> \<not> written ws \<subseteq> writes_of m (tx_idx v)"
    "entry_at m' l j =
       (if j \<noteq> tx_idx v then entry_at m l j
        else case map_of (rev ws) l of
               Some x \<Rightarrow> Some (Data (tx_incarnation v) x)
             | None \<Rightarrow> if l \<in> writes_of m j then None else entry_at m l j)"
    "lazy_addresses m' = lazy_addresses m" "new_bytecodes m' = new_bytecodes m"
proof -
  let ?i = "tx_idx v" and ?last = "last_locations m ! tx_idx v"
  from assms(2) show i: "?i < length (last_locations m)"
    by (auto simp: mv_record_def index_mutex_def split: if_splits)
  obtain w d where p: "prune_old ?i ws 0 (ll_write ?last) (data m) = (w, d)"
    by fastforce
  obtain w' d' new' where r: "register_writes v ws w d False = (w', d', new')"
    by (metis prod_cases3)
  from assms(2) i p r have m': "m' = m\<lparr>data := d',
      last_locations := (last_locations m)[?i := \<lparr>ll_read = rs, ll_write = w'\<rparr>]\<rparr>" and n: "new = new'"
    by (auto simp: mv_record_def)
  have P: "set w = writes_of m ?i \<inter> written ws \<and> distinct w \<and> (data_ok (data m) \<longrightarrow> data_ok d) \<and>
      (\<forall>l j. entry_of d l j = (if j = ?i \<and> l \<in> writes_of m ?i - written ws then None
         else entry_of (data m) l j))"
    using prune_old_spec [OF p] mv_okD(2) [OF assms(1) i] by simp
  note R = register_writes_spec [OF r]
  show "\<exists>w'. last_locations m' = (last_locations m)[?i := \<lparr>ll_read = rs, ll_write = w'\<rparr>] \<and>
          set w' = written ws \<and> distinct w'"
    using P R by (auto simp: m')
  show "data_ok (data m')"
    using P R mv_okD(1) [OF assms(1)] by (simp add: m')
  show "new \<longleftrightarrow> \<not> written ws \<subseteq> writes_of m ?i"
    using P R n by auto
  have "map_of (rev ws) l = None \<longleftrightarrow> l \<notin> written ws"
    by (simp add: map_of_eq_None_iff written_def)
  then show "entry_at m' l j =
       (if j \<noteq> ?i then entry_at m l j
        else case map_of (rev ws) l of
               Some x \<Rightarrow> Some (Data (tx_incarnation v) x)
             | None \<Rightarrow> if l \<in> writes_of m j then None else entry_at m l j)"
    using P R by (auto simp: entry_at_def m' split: option.splits)
  show "lazy_addresses m' = lazy_addresses m" "new_bytecodes m' = new_bytecodes m"
    by (simp_all add: m')
qed

lemma mv_record_locations:
  assumes "mv_ok m" "mv_record m v rs ws = Some (m', new)"
  shows "length (last_locations m') = length (last_locations m)"
    "writes_of m' (tx_idx v) = written ws" "reads_of m' (tx_idx v) = rs"
    "j \<noteq> tx_idx v \<Longrightarrow> last_locations m' ! j = last_locations m ! j"
proof -
  from mv_record_raw(2) [OF assms] obtain w' where
    "last_locations m' = (last_locations m)[tx_idx v := \<lparr>ll_read = rs, ll_write = w'\<rparr>]"
    "set w' = written ws" by blast
  with mv_record_raw(1) [OF assms]
  show "length (last_locations m') = length (last_locations m)"
    "writes_of m' (tx_idx v) = written ws" "reads_of m' (tx_idx v) = rs"
    "j \<noteq> tx_idx v \<Longrightarrow> last_locations m' ! j = last_locations m ! j"
    by simp_all
qed

lemma mv_record_ok:
  assumes "mv_ok m" "mv_record m v rs ws = Some (m', new)"
  shows "mv_ok m'"
proof -
  note raw = mv_record_raw [OF assms] and loc = mv_record_locations [OF assms]
  have W: "map_of (rev ws) l \<noteq> None \<longleftrightarrow> l \<in> written ws" for l
    by (simp add: map_of_eq_None_iff written_def)
  have "distinct (ll_write (last_locations m' ! j))" if "j < length (last_locations m')" for j
  proof (cases "j = tx_idx v")
    case True
    with raw(1,2) show ?thesis by fastforce
  next
    case False
    with that loc(1,4) mv_okD(2) [OF assms(1), of j] show ?thesis by simp
  qed
  moreover have "entry_at m' l j \<noteq> None" if "j < length (last_locations m')" "l \<in> writes_of m' j" for j l
    using that W [of l] loc mv_okD(3) [OF assms(1), of j l]
    by (cases "j = tx_idx v") (auto simp: raw(5))
  moreover have "j < length (last_locations m') \<and> l \<in> writes_of m' j"
    if "entry_at m' l j = Some (Data inc x)" for l j inc x
    using that W [of l] raw(1) loc mv_okD(4,5) [OF assms(1), of l j inc x]
    by (cases "j = tx_idx v") (auto simp: raw(5) split: option.splits if_splits)
  ultimately show ?thesis
    using raw(3) by (simp add: mv_ok_def)
qed

section \<open>Aborting a version\<close>

lemma fold_estimates:
  "distinct w \<Longrightarrow> data_ok d \<Longrightarrow>
   (let d' = fold (\<lambda>l d. (case d l of None \<Rightarrow> d | Some bt \<Rightarrow> d(l \<mapsto> bt_insert i Estimate bt))) w d
    in data_ok d' \<and>
       (\<forall>l j. entry_of d' l j =
          (if j = i \<and> l \<in> set w \<and> d l \<noteq> None then Some Estimate else entry_of d l j)))"
proof (induction w arbitrary: d)
  case Nil
  then show ?case by simp
next
  case (Cons a w)
  let ?d = "(case d a of None \<Rightarrow> d | Some bt \<Rightarrow> d(a \<mapsto> bt_insert i Estimate bt))"
  have ok: "data_ok ?d"
    using Cons.prems by (auto simp: data_ok_def bt_ok_insert split: option.splits)
  have e: "entry_of ?d l j = (if l = a \<and> j = i \<and> d a \<noteq> None then Some Estimate else entry_of d l j)" for l j
    by (auto simp: entry_of_def bt_get_insert split: option.splits)
  have n: "?d l = None \<longleftrightarrow> d l = None" for l
    by (auto split: option.splits)
  from Cons.IH [OF _ ok] Cons.prems show ?case
    by (auto simp: Let_def e n)
qed

lemma entry_at_data: "entry_at m l i \<noteq> None \<Longrightarrow> data m l \<noteq> None"
  by (auto simp: entry_at_def entry_of_def split: option.splits)

lemma convert_total:
  "i < length (last_locations m) \<Longrightarrow> \<exists>m'. convert_writes_to_estimates m i = Some m'"
  by (simp add: convert_writes_to_estimates_def)

lemma convert_raw:
  assumes "mv_ok m" "convert_writes_to_estimates m i = Some m'"
  shows "i < length (last_locations m)" "data_ok (data m')"
    "last_locations m' = last_locations m"
    "entry_at m' l j = (if j = i \<and> l \<in> writes_of m i then Some Estimate else entry_at m l j)"
    "lazy_addresses m' = lazy_addresses m" "new_bytecodes m' = new_bytecodes m"
proof -
  from assms(2) show i: "i < length (last_locations m)"
    by (auto simp: convert_writes_to_estimates_def index_mutex_def split: if_splits)
  note F = fold_estimates [OF mv_okD(2) [OF assms(1) i] mv_okD(1) [OF assms(1)], of i]
  from assms(2) i have m': "m' = m\<lparr>data := fold (\<lambda>l d. (case d l of None \<Rightarrow> d
        | Some bt \<Rightarrow> d(l \<mapsto> bt_insert i Estimate bt))) (ll_write (last_locations m ! i)) (data m)\<rparr>"
    by (simp add: convert_writes_to_estimates_def)
  show "data_ok (data m')" "last_locations m' = last_locations m"
    "lazy_addresses m' = lazy_addresses m" "new_bytecodes m' = new_bytecodes m"
    using F by (simp_all add: m' Let_def)
  have "l \<in> writes_of m i \<Longrightarrow> data m l \<noteq> None"
    using entry_at_data mv_okD(3) [OF assms(1) i] by metis
  then show "entry_at m' l j = (if j = i \<and> l \<in> writes_of m i then Some Estimate else entry_at m l j)"
    using F by (auto simp: entry_at_def m' Let_def)
qed

lemma convert_ok:
  assumes "mv_ok m" "convert_writes_to_estimates m i = Some m'"
  shows "mv_ok m'"
  using assms(1) convert_raw [OF assms] by (auto simp: mv_ok_def split: if_splits)

lemma lazy_addresses_ok:
  "mv_ok m \<Longrightarrow> mv_ok (add_lazy_addresses m addrs)"
  "mv_ok m \<Longrightarrow> mv_ok (fst (consume_lazy_addresses m))"
  by (simp_all add: mv_ok_def entry_at_def add_lazy_addresses_def consume_lazy_addresses_def)

section \<open>What a transaction sees\<close>

text \<open>The entries a transaction can read at a location, the closest lower writer first.\<close>

definition mem_below ::
    "'code mv_memory \<Rightarrow> memory_location_hash \<Rightarrow> tx_idx_t \<Rightarrow> (tx_idx_t \<times> memory_entry) list" where
  "mem_below m l i = (case data m l of None \<Rightarrow> [] | Some bt \<Rightarrow> bt_below bt i)"

lemma mem_below_set:
  "mv_ok m \<Longrightarrow> (k, e) \<in> set (mem_below m l i) \<longleftrightarrow> k < i \<and> entry_at m l k = Some e"
  using mv_okD(1) [of m]
  by (auto simp: mem_below_def entry_at_def entry_of_def data_ok_def bt.set_below split: option.splits)

lemma mem_below_sorted: "mv_ok m \<Longrightarrow> sorted_wrt (>) (map fst (mem_below m l i))"
  using mv_okD(1) [of m] by (auto simp: mem_below_def data_ok_def bt.sorted_below split: option.splits)

lemma mem_below_cong:
  assumes "mv_ok m" "mv_ok m'" "\<And>k. k < i \<Longrightarrow> entry_at m l k = entry_at m' l k"
  shows "mem_below m l i = mem_below m' l i"
proof (rule descending_unique [of fst])
  show "set (mem_below m l i) = set (mem_below m' l i)"
    by (rule set_eqI) (use assms in \<open>auto simp: mem_below_set\<close>)
qed (simp_all add: mem_below_sorted assms)

lemma mem_below_split:
  assumes "mv_ok m" "j < i"
  shows "mem_below m l i = filter (\<lambda>(k, _). j < k) (mem_below m l i) @ mem_below m l (Suc j)"
    (is "_ = ?f @ _")
proof (rule descending_unique [of fst])
  have "sorted_wrt (>) (map fst ?f)"
    using mem_below_sorted [OF assms(1), of l i] by (simp add: sorted_wrt_map sorted_wrt_filter)
  moreover have "x > y" if "x \<in> fst ` set ?f" "y \<in> fst ` set (mem_below m l (Suc j))" for x y
    using that by (auto simp: mem_below_set [OF assms(1)])
  ultimately show "sorted_wrt (>) (map fst (?f @ mem_below m l (Suc j)))"
    using mem_below_sorted [OF assms(1), of l "Suc j"]
    unfolding map_append sorted_wrt_append set_map by blast
  show "set (mem_below m l i) = set (?f @ mem_below m l (Suc j))"
    using assms(2) by (intro set_eqI) (auto simp: mem_below_set [OF assms(1)])
qed (rule mem_below_sorted [OF assms(1)])

section \<open>Validation\<close>

fun version_of :: "tx_idx_t \<times> memory_entry \<Rightarrow> tx_version option" where
  "version_of (k, Data inc x) = Some \<lparr>tx_idx = k, tx_incarnation = inc\<rparr>"
| "version_of (k, Estimate) = None"

text \<open>
  The origins a read records: versions of the multi-version memory, the last of which may be
  followed by storage.
\<close>

definition wf_origins :: "read_origins \<Rightarrow> bool" where
  "wf_origins os \<longleftrightarrow> os \<noteq> [] \<and> OriginStorage \<notin> set (butlast os)"

definition wf_reads :: "read_set \<Rightarrow> bool" where
  "wf_reads rs \<longleftrightarrow> list_all (\<lambda>(_, os). wf_origins os) rs"

lemma wf_origins_cases:
  assumes "wf_origins os"
  obtains (memory) vs where "os = map OriginMvMemory vs" "vs \<noteq> []"
    | (storage) vs where "os = map OriginMvMemory vs @ [OriginStorage]"
proof -
  have "\<exists>vs. xs = map OriginMvMemory vs" if "OriginStorage \<notin> set xs" for xs
    using that
  proof (induction xs)
    case (Cons x xs)
    then obtain vs where "xs = map OriginMvMemory vs" by auto
    with Cons.prems show ?case by (cases x) (auto intro: exI [of _ "_ # vs"])
  qed simp
  then obtain vs where vs: "butlast os = map OriginMvMemory vs"
    using assms by (auto simp: wf_origins_def)
  have os: "os = butlast os @ [last os]"
    using assms by (simp add: wf_origins_def)
  show thesis
  proof (cases "last os")
    case (OriginMvMemory v)
    with os vs memory [of "vs @ [v]"] show ?thesis by simp
  next
    case OriginStorage
    with os vs storage [of vs] show ?thesis by simp
  qed
qed

lemma match_origins_memory:
  "match_origins (map OriginMvMemory vs) it \<longleftrightarrow> map version_of (take (length vs) it) = map Some vs"
proof (induction vs arbitrary: it)
  case (Cons v vs)
  show ?case
  proof (cases it)
    case (Cons a it')
    obtain k e where a: "a = (k, e)" by fastforce
    show ?thesis
      by (cases e; cases v) (auto simp: Cons a Cons.IH)
  qed simp
qed simp

lemma match_origins_storage:
  "match_origins (map OriginMvMemory vs @ [OriginStorage]) it \<longleftrightarrow> map version_of it = map Some vs"
proof (induction vs arbitrary: it)
  case Nil
  then show ?case by (cases it) auto
next
  case (Cons v vs)
  show ?case
  proof (cases it)
    case (Cons a it')
    obtain k e where a: "a = (k, e)" by fastforce
    show ?thesis
      by (cases e; cases v) (auto simp: Cons a Cons.IH)
  qed simp
qed

lemma validate_location_wf:
  assumes "wf_origins os"
  shows "validate_location m i (l, os) \<longleftrightarrow> match_origins os (mem_below m l i)"
proof (cases "data m l")
  case None
  have "match_origins os [] \<longleftrightarrow> os = [OriginStorage]"
    using assms by (cases rule: wf_origins_cases) (auto simp: match_origins_memory match_origins_storage)
  moreover have "\<not> (length os \<noteq> 1 \<or> os = [] \<or> last os \<noteq> OriginStorage) \<longleftrightarrow> os = [OriginStorage]"
    by (cases os) auto
  ultimately show ?thesis
    using None by (simp add: validate_location_def mem_below_def)
qed (simp add: validate_location_def mem_below_def)

lemma validate_iff:
  assumes "i < length (last_locations m)" "wf_reads (reads_of m i)"
  shows "validate_read_locations m i = Some True \<longleftrightarrow>
     (\<forall>(l, os) \<in> set (reads_of m i). match_origins os (mem_below m l i))"
    "validate_read_locations m i = Some False \<longleftrightarrow>
     \<not> (\<forall>(l, os) \<in> set (reads_of m i). match_origins os (mem_below m l i))"
proof -
  have "validate_location m i (l, os) = match_origins os (mem_below m l i)"
    if "(l, os) \<in> set (reads_of m i)" for l os
    using that assms(2) by (intro validate_location_wf) (auto simp: wf_reads_def list_all_iff)
  then have "list_all (validate_location m i) (reads_of m i) \<longleftrightarrow>
     (\<forall>(l, os) \<in> set (reads_of m i). match_origins os (mem_below m l i))"
    by (fastforce simp: list_all_iff)
  then show "validate_read_locations m i = Some True \<longleftrightarrow>
     (\<forall>(l, os) \<in> set (reads_of m i). match_origins os (mem_below m l i))"
    "validate_read_locations m i = Some False \<longleftrightarrow>
     \<not> (\<forall>(l, os) \<in> set (reads_of m i). match_origins os (mem_below m l i))"
    using assms(1) by (auto simp: validate_read_locations_def)
qed

text \<open>An accepted origin is still the entry of its version.\<close>

lemma match_origins_entry:
  assumes "mv_ok m" "wf_origins os" "match_origins os (mem_below m l i)" "OriginMvMemory v \<in> set os"
  shows "\<exists>x. entry_at m l (tx_idx v) = Some (Data (tx_incarnation v) x)"
proof -
  let ?it = "mem_below m l i"
  have "Some v \<in> version_of ` set ?it"
    using assms(2)
  proof (cases rule: wf_origins_cases)
    case (memory vs)
    with assms(3,4) have "map version_of (take (length vs) ?it) = map Some vs" "v \<in> set vs"
      by (auto simp: match_origins_memory)
    then have "Some v \<in> set (map version_of (take (length vs) ?it))" by simp
    then show ?thesis by (auto dest: in_set_takeD)
  next
    case (storage vs)
    with assms(3,4) have "map version_of ?it = map Some vs" "v \<in> set vs"
      by (auto simp: match_origins_storage)
    then have "Some v \<in> set (map version_of ?it)" by simp
    then show ?thesis by simp
  qed
  then obtain k e where "(k, e) \<in> set ?it" "version_of (k, e) = Some v"
    by auto
  then show ?thesis
    by (cases e) (auto simp: mem_below_set [OF assms(1)])
qed

section \<open>Who can invalidate a read\<close>

text \<open>
  A lower transaction never sees what a higher one does: \<open>record\<close> and
  \<open>convert_writes_to_estimates\<close> of \<open>j\<close> leave what \<open>i \<le> j\<close> reads unchanged.
\<close>

lemma mem_below_record:
  assumes "mv_ok m" "mv_record m v rs ws = Some (m', new)" "i \<le> tx_idx v"
  shows "mem_below m' l i = mem_below m l i"
  using assms(3) by (intro mem_below_cong mv_record_ok [OF assms(1,2)] assms(1))
    (auto simp: mv_record_raw(5) [OF assms(1,2)])

lemma mem_below_convert:
  assumes "mv_ok m" "convert_writes_to_estimates m j = Some m'" "i \<le> j"
  shows "mem_below m' l i = mem_below m l i"
  using assms(3) by (intro mem_below_cong convert_ok [OF assms(1,2)] assms(1))
    (auto simp: convert_raw(4) [OF assms(1,2)])

lemma reject_stale_origin:
  assumes "mv_ok m" "i < length (last_locations m)" "wf_reads (reads_of m i)"
    and "(l, os) \<in> set (reads_of m i)" "OriginMvMemory v \<in> set os"
    and "\<And>x. entry_at m l (tx_idx v) \<noteq> Some (Data (tx_incarnation v) x)"
  shows "validate_read_locations m i = Some False"
proof -
  have "wf_origins os" using assms(3,4) by (auto simp: wf_reads_def list_all_iff)
  then have "\<not> match_origins os (mem_below m l i)"
    using match_origins_entry [OF assms(1)] assms(5,6) by blast
  then show ?thesis using assms(4) by (auto simp: validate_iff(2) [OF assms(2,3)])
qed

text \<open>
  A prefix of versions that does not reach the estimate of \<open>j\<close> stays a prefix when only the
  entry of \<open>j\<close> changes.
\<close>

lemma match_origins_skip_estimate:
  assumes ok: "mv_ok m" "mv_ok m'" and j: "j < i"
    and est: "entry_at m l j = Some Estimate"
    and same: "\<And>k. k \<noteq> j \<Longrightarrow> entry_at m' l k = entry_at m l k"
    and wf: "wf_origins os" and match: "match_origins os (mem_below m l i)"
  shows "match_origins os (mem_below m' l i)"
proof -
  let ?up = "\<lambda>m. filter (\<lambda>(k, _). j < k) (mem_below m l i)"
  have up: "?up m' = ?up m"
    by (rule descending_unique [of fst])
      (use mem_below_sorted [OF ok(1), of l i] mem_below_sorted [OF ok(2), of l i] same
        in \<open>auto simp: mem_below_set [OF ok(1)] mem_below_set [OF ok(2)] sorted_wrt_map sorted_wrt_filter\<close>)
  have mem: "(j, Estimate) \<in> set (mem_below m l (Suc j))"
    by (simp add: mem_below_set [OF ok(1)] est)
  then obtain a b rest where ab: "mem_below m l (Suc j) = (a, b) # rest"
    by (cases "mem_below m l (Suc j)") auto
  have "a \<le> j"
    using mem_below_set [OF ok(1), of a b l "Suc j"] ab by simp
  with mem ab mem_below_sorted [OF ok(1), of l "Suc j"]
  have rest: "mem_below m l (Suc j) = (j, Estimate) # rest"
    by auto
  have it: "mem_below m l i = ?up m @ (j, Estimate) # rest"
    using mem_below_split [OF ok(1) j, of l] rest by simp
  show ?thesis
    using wf
  proof (cases rule: wf_origins_cases)
    case (memory vs)
    with match have eq: "map version_of (take (length vs) (?up m @ (j, Estimate) # rest)) = map Some vs"
      by (simp add: match_origins_memory flip: it)
    have "length vs \<le> length (?up m)"
    proof (rule ccontr)
      assume "\<not> ?thesis"
      then have "None \<in> set (map version_of (take (length vs) (?up m @ (j, Estimate) # rest)))"
        by (cases "length vs - length (?up m)") auto
      then show False unfolding eq by simp
    qed
    then show ?thesis
      using eq mem_below_split [OF ok(2) j, of l] memory up by (simp add: match_origins_memory)
  next
    case (storage vs)
    with match have "map version_of (?up m @ (j, Estimate) # rest) = map Some vs"
      by (simp add: match_origins_storage flip: it)
    moreover have "None \<in> set (map version_of (?up m @ (j, Estimate) # rest))" by simp
    ultimately show ?thesis by (metis in_set_conv_nth length_map nth_map option.distinct(1))
  qed
qed

section \<open>Properties\<close>

text \<open>A two-transaction memory in which transaction 1 has read what transaction 0 wrote.\<close>

definition example_memory :: "unit mv_memory" where
  "example_memory =
     \<lparr>data = [7 \<mapsto> [(0, Data 0 (ValStorage 5))]],
      last_locations =
        [\<lparr>ll_read = [], ll_write = [7]\<rparr>,
         \<lparr>ll_read = [(7, [OriginMvMemory \<lparr>tx_idx = 0, tx_incarnation = 0\<rparr>])], ll_write = []\<rparr>],
      lazy_addresses = [], new_bytecodes = Map.empty\<rparr>"

lemma example_memory_ok: "mv_ok example_memory"
  by (auto simp: mv_ok_def example_memory_def entry_at_def entry_of_def data_ok_def bt_ok_def
        bt_get_def less_Suc_eq split: if_splits)

lemma example_memory_reads: "wf_reads (reads_of example_memory 1)"
  by (simp add: example_memory_def wf_reads_def wf_origins_def)

text \<open>A memory in which the only write of transaction 0 is marked as an estimate.\<close>

definition example_aborted :: "unit mv_memory" where
  "example_aborted =
     \<lparr>data = [7 \<mapsto> [(0, Estimate)]],
      last_locations =
        [\<lparr>ll_read = [], ll_write = [7]\<rparr>, \<lparr>ll_read = [(3, [OriginStorage])], ll_write = []\<rparr>],
      lazy_addresses = [], new_bytecodes = Map.empty\<rparr>"

lemma example_aborted_ok: "mv_ok example_aborted"
  by (auto simp: mv_ok_def example_aborted_def entry_at_def entry_of_def data_ok_def bt_ok_def
        bt_get_def less_Suc_eq split: if_splits)

text \<open>
  Property C10. \<^verbatim>\<open>MvMemory::record\<close> succeeds on every transaction of the block and keeps the
  memory well formed. Afterwards the transaction has exactly its new writes (for a location
  written twice, the last value) under its incarnation; what only the previous incarnation had
  written is gone, every other entry is untouched, and the flag says whether some location is
  new.
\<close>

theorem record_replaces_writes:
  assumes "mv_ok m" "tx_idx v < length (last_locations m)"
  shows "\<exists>m' new. mv_record m v rs ws = Some (m', new) \<and> mv_ok m' \<and>
    (new \<longleftrightarrow> (\<exists>l \<in> written ws. l \<notin> writes_of m (tx_idx v))) \<and>
    writes_of m' (tx_idx v) = written ws \<and> reads_of m' (tx_idx v) = rs \<and>
    (\<forall>l j. entry_at m' l j =
       (if j \<noteq> tx_idx v then entry_at m l j
        else case map_of (rev ws) l of
               Some x \<Rightarrow> Some (Data (tx_incarnation v) x)
             | None \<Rightarrow> if l \<in> writes_of m j then None else entry_at m l j))"
proof -
  obtain m' new where r: "mv_record m v rs ws = Some (m', new)"
    using mv_record_total [OF assms(2)] by blast
  note facts = mv_record_raw [OF assms(1) r] mv_record_locations [OF assms(1) r]
  show ?thesis
  proof (intro exI conjI allI)
    show "mv_ok m'" by (rule mv_record_ok [OF assms(1) r])
    show "new \<longleftrightarrow> (\<exists>l \<in> written ws. l \<notin> writes_of m (tx_idx v))" using facts(4) by blast
  qed (fact r facts(9) facts(10) facts(5))+
qed

theorem record_replaces_writes_witness:
  "\<exists>m' new. mv_record example_memory \<lparr>tx_idx = 0, tx_incarnation = 1\<rparr> [] [(9, ValStorage 6)] = Some (m', new)
     \<and> new \<and> entry_at m' 7 0 = None \<and> entry_at m' 9 0 = Some (Data 1 (ValStorage 6))"
proof -
  have "tx_idx \<lparr>tx_idx = 0, tx_incarnation = 1\<rparr> < length (last_locations example_memory)"
    by (simp add: example_memory_def)
  from record_replaces_writes [OF example_memory_ok this, of "[]" "[(9, ValStorage 6)]"]
  show ?thesis by (auto simp: example_memory_def)
qed

text \<open>
  Property C9. \<^verbatim>\<open>validate_read_locations\<close> accepts a transaction exactly when, at each
  location it read, the closest lower entries are still the recorded versions in the recorded
  order, and nothing else lies below when the recorded chain ended in storage.
\<close>

theorem validate_spec:
  assumes "i < length (last_locations m)" "wf_reads (reads_of m i)"
  shows "validate_read_locations m i = Some True \<longleftrightarrow>
    (\<forall>(l, os) \<in> set (reads_of m i). \<exists>vs.
       (os = map OriginMvMemory vs \<and>
          map version_of (take (length vs) (mem_below m l i)) = map Some vs) \<or>
       (os = map OriginMvMemory vs @ [OriginStorage] \<and> map version_of (mem_below m l i) = map Some vs))"
proof -
  have inj: "map OriginMvMemory vs = map OriginMvMemory us \<longleftrightarrow> vs = us" for vs us
    by (rule inj_map_eq_map) (simp add: inj_def)
  have no: "map OriginMvMemory vs \<noteq> map OriginMvMemory us @ [OriginStorage]" for vs us
    by (metis in_set_conv_decomp in_set_conv_nth length_map nth_map read_origin.distinct(1))
  have eq: "match_origins os (mem_below m l i) \<longleftrightarrow> (\<exists>vs.
       (os = map OriginMvMemory vs \<and>
          map version_of (take (length vs) (mem_below m l i)) = map Some vs) \<or>
       (os = map OriginMvMemory vs @ [OriginStorage] \<and> map version_of (mem_below m l i) = map Some vs))"
    if "wf_origins os" for l os
    using that no no [symmetric]
    by (cases rule: wf_origins_cases) (auto simp: match_origins_memory match_origins_storage inj)
  have wf: "wf_origins os" if "(l, os) \<in> set (reads_of m i)" for l os
    using that assms(2) by (auto simp: wf_reads_def list_all_iff)
  show ?thesis
    unfolding validate_iff(1) [OF assms]
    by (rule ball_cong [OF refl]) (use eq wf in \<open>simp only: split_paired_all prod.case\<close>)
qed

theorem validate_spec_witness:
  "validate_read_locations example_memory 1 = Some True \<longleftrightarrow>
     map version_of (take 1 (mem_below example_memory 7 1))
       = [Some \<lparr>tx_idx = 0, tx_incarnation = 0\<rparr>]"
proof -
  have "1 < length (last_locations example_memory)" by (simp add: example_memory_def)
  from validate_spec [OF this example_memory_reads] show ?thesis
    by (auto simp: example_memory_def mem_below_def bt_below_def Cons_eq_map_conv Cons_eq_append_conv
         intro: exI [of _ "[\<lparr>tx_idx = 0, tx_incarnation = 0\<rparr>]"])
qed

text \<open>
  Property C17. Only lower transactions decide whether a transaction is valid: recording an
  execution of \<open>j\<close>, or marking its writes as estimates, does not change the verdict on any
  \<open>i < j\<close>.
\<close>

theorem higher_never_invalidates:
  assumes "mv_ok m" "i < tx_idx v" "wf_reads (reads_of m i)"
    and "mv_record m v rs ws = Some (m1, new)"
    and "convert_writes_to_estimates m (tx_idx v) = Some m2"
  shows "validate_read_locations m1 i = validate_read_locations m i \<and>
    validate_read_locations m2 i = validate_read_locations m i"
proof (rule conjI)
  note loc = mv_record_locations [OF assms(1,4)] and conv = convert_raw [OF assms(1,5)]
  have i: "i < length (last_locations m)"
    using assms(2) conv(1) by simp
  have same: "last_locations m1 ! i = last_locations m ! i" "last_locations m2 ! i = last_locations m ! i"
    using assms(2) loc(4) conv(3) by simp_all
  have v: "validate_read_locations m' i = Some (\<forall>(l, os) \<in> set (reads_of m' i). match_origins os (mem_below m' l i))"
    if "i < length (last_locations m')" "wf_reads (reads_of m' i)" for m' :: "'a mv_memory"
    using validate_iff [OF that] by (cases "validate_read_locations m' i") (use that in \<open>auto simp: validate_read_locations_def\<close>)
  show "validate_read_locations m1 i = validate_read_locations m i"
    using i assms(2,3) same(1) loc(1) mem_below_record [OF assms(1,4), of i] by (simp add: v)
  show "validate_read_locations m2 i = validate_read_locations m i"
    using i assms(2,3) same(2) conv(3) mem_below_convert [OF assms(1,5), of i] by (simp add: v)
qed

theorem higher_never_invalidates_witness:
  "\<exists>m1 new m2. mv_record example_memory \<lparr>tx_idx = 1, tx_incarnation = 1\<rparr> [] [(3, ValStorage 1)] = Some (m1, new)
     \<and> convert_writes_to_estimates example_memory 1 = Some m2
     \<and> validate_read_locations m1 0 = Some True \<and> validate_read_locations m2 0 = Some True"
proof -
  let ?v = "\<lparr>tx_idx = 1, tx_incarnation = 1\<rparr>"
  have "tx_idx ?v < length (last_locations example_memory)" by (simp add: example_memory_def)
  then obtain m1 new m2 where r: "mv_record example_memory ?v [] [(3, ValStorage 1)] = Some (m1, new)"
      and c: "convert_writes_to_estimates example_memory (tx_idx ?v) = Some m2"
    using mv_record_total convert_total by blast
  have "0 < tx_idx ?v" "wf_reads (reads_of example_memory 0)"
    by (simp_all add: example_memory_def wf_reads_def)
  note h = higher_never_invalidates [OF example_memory_ok this r c]
  have "validate_read_locations example_memory 0 = Some True"
    by (simp add: validate_read_locations_def example_memory_def)
  with r c h show ?thesis by simp
qed

text \<open>
  Property C16. After a version is aborted and its writes are marked, every higher transaction
  that read one of them fails validation.
\<close>

theorem abort_invalidates_readers:
  assumes "mv_ok m" "convert_writes_to_estimates m j = Some m'"
    and "i < length (last_locations m)" "wf_reads (reads_of m i)" "(l, os) \<in> set (reads_of m i)"
    and "OriginMvMemory v \<in> set os" "tx_idx v = j" "l \<in> writes_of m j"
  shows "validate_read_locations m' i = Some False"
proof (rule reject_stale_origin)
  note conv = convert_raw [OF assms(1,2)]
  show "mv_ok m'" by (rule convert_ok [OF assms(1,2)])
  show "i < length (last_locations m')" "wf_reads (reads_of m' i)" "(l, os) \<in> set (reads_of m' i)"
    using assms(3-5) conv(3) by simp_all
  show "OriginMvMemory v \<in> set os" by (rule assms(6))
  show "entry_at m' l (tx_idx v) \<noteq> Some (Data (tx_incarnation v) x)" for x
    using assms(7,8) by (simp add: conv(4))
qed

theorem abort_invalidates_readers_witness:
  "\<exists>m'. convert_writes_to_estimates example_memory 0 = Some m' \<and> validate_read_locations m' 1 = Some False"
proof -
  have "0 < length (last_locations example_memory)" by (simp add: example_memory_def)
  then obtain m' where c: "convert_writes_to_estimates example_memory 0 = Some m'"
    using convert_total by blast
  have "validate_read_locations m' 1 = Some False"
    by (rule abort_invalidates_readers [OF example_memory_ok c _ example_memory_reads,
          where l = 7 and os = "[OriginMvMemory \<lparr>tx_idx = 0, tx_incarnation = 0\<rparr>]"
            and v = "\<lparr>tx_idx = 0, tx_incarnation = 0\<rparr>"])
      (simp_all add: example_memory_def)
  with c show ?thesis by blast
qed

lemma no_new_location_valid:
  assumes "mv_ok m" "mv_record m v rs ws = Some (m', False)"
    and "\<forall>l \<in> writes_of m (tx_idx v). entry_at m l (tx_idx v) = Some Estimate"
    and "tx_idx v < i" "i < length (last_locations m)" "wf_reads (reads_of m i)"
    and "validate_read_locations m i = Some True"
  shows "validate_read_locations m' i = Some True"
proof -
  note raw = mv_record_raw [OF assms(1,2)] and loc = mv_record_locations [OF assms(1,2)]
  let ?j = "tx_idx v"
  have ok': "mv_ok m'" by (rule mv_record_ok [OF assms(1,2)])
  have sub: "written ws \<subseteq> writes_of m ?j" using raw(4) by simp
  have reads: "reads_of m' i = reads_of m i" using assms(4) loc(4) by simp
  have "match_origins os (mem_below m' l i)" if l: "(l, os) \<in> set (reads_of m i)" for l os
  proof -
    have match: "match_origins os (mem_below m l i)"
      using assms(7) l by (auto simp: validate_iff(1) [OF assms(5,6)])
    have wf: "wf_origins os" using assms(6) l by (auto simp: wf_reads_def list_all_iff)
    have other: "k \<noteq> ?j \<Longrightarrow> entry_at m' l k = entry_at m l k" for k by (simp add: raw(5))
    show ?thesis
    proof (cases "l \<in> writes_of m ?j")
      case True
      with assms(3) have "entry_at m l ?j = Some Estimate" by blast
      from match_origins_skip_estimate [OF assms(1) ok' assms(4) this other wf match]
      show ?thesis .
    next
      case False
      then have "map_of (rev ws) l = None"
        using sub by (auto simp: map_of_eq_None_iff written_def)
      then have "entry_at m l k = entry_at m' l k" for k
        using False by (simp add: raw(5))
      then have "mem_below m l i = mem_below m' l i"
        by (intro mem_below_cong assms(1) ok')
      then show ?thesis using match by simp
    qed
  qed
  then show ?thesis
    using assms(5,6) loc(1) reads by (subst validate_iff(1)) auto
qed

text \<open>
  Property C18. Let \<open>j\<close> be executed again after an abort, the writes of its previous incarnation all
  marked as estimates, and let it write only locations that incarnation had written, in any order, with
  any values and perhaps not all of them. Then recording it reports that nothing new was written, and every
  higher transaction whose reads were valid before stays valid: the scheduler may validate \<open>j\<close> alone.
\<close>

theorem reexecution_keeps_valid:
  assumes "mv_ok m" "tx_idx v < length (last_locations m)"
    and "\<forall>l \<in> writes_of m (tx_idx v). entry_at m l (tx_idx v) = Some Estimate"
    and "written ws \<subseteq> writes_of m (tx_idx v)"
  shows "\<exists>m'. mv_record m v rs ws = Some (m', False) \<and>
    (\<forall>i. tx_idx v < i \<longrightarrow> i < length (last_locations m) \<longrightarrow> wf_reads (reads_of m i) \<longrightarrow>
       validate_read_locations m i = Some True \<longrightarrow> validate_read_locations m' i = Some True)"
proof -
  obtain m' new where r: "mv_record m v rs ws = Some (m', new)"
    using mv_record_total [OF assms(2)] by blast
  have "\<not> new" using mv_record_raw(4) [OF assms(1) r] assms(4) by blast
  with r have "mv_record m v rs ws = Some (m', False)" by simp
  with no_new_location_valid [OF assms(1) this assms(3)] show ?thesis by blast
qed

theorem reexecution_keeps_valid_witness:
  "\<exists>m'. mv_record example_aborted \<lparr>tx_idx = 0, tx_incarnation = 1\<rparr> [] [(7, ValStorage 9)] = Some (m', False)
     \<and> validate_read_locations m' 1 = Some True"
proof -
  let ?v = "\<lparr>tx_idx = 0, tx_incarnation = 1\<rparr>"
  have e: "tx_idx ?v < length (last_locations example_aborted)" "Suc 0 < length (last_locations example_aborted)"
    "\<forall>l \<in> writes_of example_aborted (tx_idx ?v). entry_at example_aborted l (tx_idx ?v) = Some Estimate"
    "written [(7, ValStorage 9)] \<subseteq> writes_of example_aborted (tx_idx ?v)"
    "wf_reads (reads_of example_aborted 1)" "validate_read_locations example_aborted 1 = Some True"
    by (simp_all add: example_aborted_def wf_reads_def wf_origins_def entry_at_def entry_of_def bt_get_def written_def
          validate_read_locations_def validate_location_def)
  from reexecution_keeps_valid [OF example_aborted_ok e(1,3,4)] e show ?thesis by fastforce
qed

text \<open>
  A preallocated ESTIMATE of a transaction stays when the transaction executes
  without writing that location: only locations recorded by an earlier incarnation are removed.
\<close>

theorem preallocated_estimate_stays:
  assumes "map_of (rev ls) l = Some idxs" "i \<in> set idxs" "i < n" "l \<notin> written ws"
    and "mv_record (mv_new n ls addrs) \<lparr>tx_idx = i, tx_incarnation = inc\<rparr> rs ws = Some (m', new)"
  shows "entry_at m' l i = Some Estimate"
proof -
  have "map_of (rev ws) l = None"
    using assms(4) by (simp add: map_of_eq_None_iff written_def)
  then show ?thesis
    using assms(1-3) mv_record_raw(5) [OF mv_new_ok assms(5), of l i]
    by (simp add: mv_new_entry mv_new_locations empty_locations_def)
qed

theorem preallocated_estimate_stays_witness:
  "\<exists>m' new. mv_record (mv_new 1 [(7, [0])] [] :: unit mv_memory) \<lparr>tx_idx = 0, tx_incarnation = 0\<rparr> [] []
      = Some (m', new) \<and> entry_at m' 7 0 = Some Estimate"
proof -
  have "tx_idx \<lparr>tx_idx = 0, tx_incarnation = 0\<rparr> < length (last_locations (mv_new 1 [(7, [0])] [] :: unit mv_memory))"
    by (simp add: mv_new_locations)
  then obtain m' new where r: "mv_record (mv_new 1 [(7, [0])] [] :: unit mv_memory)
      \<lparr>tx_idx = 0, tx_incarnation = 0\<rparr> [] [] = Some (m', new)"
    using mv_record_total by blast
  have "entry_at m' 7 0 = Some Estimate"
    by (rule preallocated_estimate_stays [OF _ _ _ _ r, where idxs = "[0]"]) simp_all
  with r show ?thesis by blast
qed

end
