(* ===== verification/Evm_Storage.thy ===== *)
theory Evm_Storage
  imports Core_Types
begin

text \<open>
  The account and code types of \<^verbatim>\<open>storage.rs\<close>, the trait \<^verbatim>\<open>Storage\<close>, the wrapper that makes a
  storage a database of revm, and the storage of \<^verbatim>\<open>storage/in_memory.rs\<close>. What comes from revm
  is an argument: the record \<open>revm_code\<close> holds the functions and constants on byte code the
  sources call, and the EOF container is a type variable. All that callers do with an error of a
  storage is to display it, so an error is its text.
\<close>

section \<open>Code\<close>

record legacy_code =
  lc_bytecode :: "byte list"
  lc_original_len :: nat
  lc_jump_table :: "bool list"

record eip7702_code =
  ec_delegated_address :: address
  ec_version :: u8

datatype evm_code = CodeLegacy legacy_code | CodeEip7702 eip7702_code | CodeEof "byte list"

text \<open>The constructors of revm's \<^verbatim>\<open>Bytecode\<close>, with the parts the sources read.\<close>

record eip7702_bytecode =
  eb_delegated_address :: address
  eb_version :: u8
  eb_raw :: "byte list"

datatype 'eof bytecode =
    LegacyRaw "byte list"
  | LegacyAnalyzed "byte list" nat "bool list"
  | Eip7702 eip7702_bytecode
  | Eof 'eof

datatype bytecode_conversion_error = EofDecodingError nat

record 'eof revm_code =
  eip7702_magic_bytes :: "byte list"
  eof_decode :: "byte list \<Rightarrow> nat + 'eof"
  eof_raw :: "'eof \<Rightarrow> byte list"
  to_analysed :: "'eof bytecode \<Rightarrow> 'eof bytecode"
  default_bytecode :: "'eof bytecode"
  keccak_empty :: b256

definition map_error :: "('e \<Rightarrow> 'f) \<Rightarrow> 'e + 'a \<Rightarrow> 'f + 'a" where
  "map_error f r = (case r of Inl e \<Rightarrow> Inl (f e) | Inr x \<Rightarrow> Inr x)"

lemma map_error_simps [simp]: "map_error f (Inl e) = Inl (f e)" "map_error f (Inr x) = Inr x"
  by (simp_all add: map_error_def)

lemma map_error_Inr_iff [simp]: "map_error f r = Inr x \<longleftrightarrow> r = Inr x"
  by (cases r) simp_all

definition bytecode_try_from ::
    "'eof revm_code \<Rightarrow> evm_code \<Rightarrow> bytecode_conversion_error + 'eof bytecode" where
  "bytecode_try_from R code =
     (case code of
        CodeLegacy c \<Rightarrow> Inr (LegacyAnalyzed (lc_bytecode c) (lc_original_len c) (lc_jump_table c))
      | CodeEip7702 c \<Rightarrow>
          let raw = eip7702_magic_bytes R @ [ec_version c] @ be_bytes 20 (unat (ec_delegated_address c))
          in Inr (Eip7702 \<lparr>eb_delegated_address = ec_delegated_address c, eb_version = ec_version c, eb_raw = raw\<rparr>)
      | CodeEof c \<Rightarrow> map_error EofDecodingError (and_then (eof_decode R c) (\<lambda>e. Inr (Eof e))))"

text \<open>
  The conversion back analyses raw byte code first, and returns only if the analysis does not answer
  with raw byte code for ever.
\<close>

partial_function (option) evm_code_from :: "'eof revm_code \<Rightarrow> 'eof bytecode \<Rightarrow> evm_code option" where
  [code]: "evm_code_from R code =
     (case code of
        LegacyRaw b \<Rightarrow> evm_code_from R (to_analysed R code)
      | LegacyAnalyzed b n j \<Rightarrow>
          Some (CodeLegacy \<lparr>lc_bytecode = b, lc_original_len = n, lc_jump_table = j\<rparr>)
      | Eip7702 c \<Rightarrow>
          Some (CodeEip7702 \<lparr>ec_delegated_address = eb_delegated_address c, ec_version = eb_version c\<rparr>)
      | Eof e \<Rightarrow> Some (CodeEof (eof_raw R e)))"

section \<open>Accounts\<close>

record evm_account =
  ea_balance :: u256
  ea_nonce :: u64
  ea_code_hash :: "b256 option"
  ea_code :: "evm_code option"
  ea_storage :: "(u256 \<times> u256) list"

definition evm_account_default :: evm_account where
  "evm_account_default =
     \<lparr>ea_balance = 0, ea_nonce = 0, ea_code_hash = None, ea_code = None, ea_storage = []\<rparr>"

record 'eof account_info =
  info_balance :: u256
  info_nonce :: u64
  info_code_hash :: b256
  info_code :: "'eof bytecode option"

text \<open>
  What the sources ask of an account of revm's result state: the answers of its methods, and its
  slots, each with its present value. The changed slots are those that revm reports as changed.
\<close>

record 'eof revm_account =
  acct_info :: "'eof account_info"
  is_empty_code_hash :: bool
  is_touched :: bool
  is_selfdestructed :: bool
  is_empty_account :: bool
  slots :: "(u256 \<times> u256) list"
  changed_storage_slots :: "(u256 \<times> u256) list"

text \<open>Unwrapping the code of an account that has a code hash but no code is a panic, \<^const>\<open>None\<close>.\<close>

definition evm_account_from :: "'eof revm_code \<Rightarrow> 'eof revm_account \<Rightarrow> evm_account option" where
  "evm_account_from R a =
     (let has_code = \<not> is_empty_code_hash a in
      do {
        code \<leftarrow> (if has_code
                 then do { c \<leftarrow> info_code (acct_info a); ec \<leftarrow> evm_code_from R c; Some (Some ec) }
                 else Some None);
        Some \<lparr>ea_balance = info_balance (acct_info a), ea_nonce = info_nonce (acct_info a),
              ea_code_hash = (if has_code then Some (info_code_hash (acct_info a)) else None),
              ea_code = code, ea_storage = slots a\<rparr>
      })"

section \<open>The trait and the wrapper\<close>

record evm_storage =
  st_basic :: "address \<Rightarrow> string + account_basic option"
  st_code_hash :: "address \<Rightarrow> string + b256 option"
  st_code_by_hash :: "b256 \<Rightarrow> string + evm_code option"
  st_has_storage :: "address \<Rightarrow> string + bool"
  st_storage :: "address \<Rightarrow> u256 \<Rightarrow> string + u256"
  st_block_hash :: "u64 \<Rightarrow> string + b256"

datatype storage_wrapper_error = WrapStorageError string | WrapInvalidBytecode bytecode_conversion_error

text \<open>Looking code up and converting it, \<^verbatim>\<open>map\<close> and \<^verbatim>\<open>transpose\<close> over the optional code.\<close>

definition transpose_code ::
    "'eof revm_code \<Rightarrow> evm_code option \<Rightarrow> bytecode_conversion_error + 'eof bytecode option" where
  "transpose_code R code =
     (case code of None \<Rightarrow> Inr None | Some c \<Rightarrow> and_then (bytecode_try_from R c) (\<lambda>b. Inr (Some b)))"

definition basic_ref ::
    "'eof revm_code \<Rightarrow> evm_storage \<Rightarrow> address \<Rightarrow> storage_wrapper_error + 'eof account_info option" where
  "basic_ref R st a =
     and_then (map_error WrapStorageError (st_basic st a)) (\<lambda>acct.
       case acct of
         None \<Rightarrow> Inr None
       | Some basic \<Rightarrow>
           and_then (map_error WrapStorageError (st_code_hash st a)) (\<lambda>hash.
           and_then
             (case hash of
                Some h \<Rightarrow>
                  and_then (map_error WrapStorageError (st_code_by_hash st h))
                    (\<lambda>c. map_error WrapInvalidBytecode (transpose_code R c))
              | None \<Rightarrow> Inr None)
             (\<lambda>code. Inr (Some
                \<lparr>info_balance = balance basic, info_nonce = nonce basic,
                 info_code_hash = (case hash of Some h \<Rightarrow> h | None \<Rightarrow> keccak_empty R),
                 info_code = code\<rparr>))))"

definition code_by_hash_ref ::
    "'eof revm_code \<Rightarrow> evm_storage \<Rightarrow> b256 \<Rightarrow> storage_wrapper_error + 'eof bytecode" where
  "code_by_hash_ref R st h =
     and_then (map_error WrapStorageError (st_code_by_hash st h)) (\<lambda>c.
       and_then (map_error WrapInvalidBytecode (transpose_code R c)) (\<lambda>b.
         Inr (case b of Some b' \<Rightarrow> b' | None \<Rightarrow> default_bytecode R)))"

definition storage_ref :: "evm_storage \<Rightarrow> address \<Rightarrow> u256 \<Rightarrow> storage_wrapper_error + u256" where
  "storage_ref st a i = map_error WrapStorageError (st_storage st a i)"

definition block_hash_ref :: "evm_storage \<Rightarrow> u64 \<Rightarrow> storage_wrapper_error + b256" where
  "block_hash_ref st n = map_error WrapStorageError (st_block_hash st n)"

section \<open>In-memory storage\<close>

record evm_in_memory =
  mem_accounts :: "address \<rightharpoonup> evm_account"
  mem_bytecodes :: "b256 \<rightharpoonup> evm_code"
  mem_block_hashes :: "u64 \<rightharpoonup> b256"

definition evm_in_memory_new ::
    "(address \<rightharpoonup> evm_account) \<Rightarrow> (b256 \<rightharpoonup> evm_code) \<Rightarrow> (u64 \<rightharpoonup> b256) \<Rightarrow> evm_in_memory" where
  "evm_in_memory_new accounts bytecodes block_hashes =
     \<lparr>mem_accounts = accounts, mem_bytecodes = bytecodes, mem_block_hashes = block_hashes\<rparr>"

definition in_memory_basic :: "evm_in_memory \<Rightarrow> address \<Rightarrow> string + account_basic option" where
  "in_memory_basic s a =
     Inr (map_option (\<lambda>acct. \<lparr>balance = ea_balance acct, nonce = ea_nonce acct\<rparr>) (mem_accounts s a))"

definition in_memory_code_hash :: "evm_in_memory \<Rightarrow> address \<Rightarrow> string + b256 option" where
  "in_memory_code_hash s a = Inr (do { acct \<leftarrow> mem_accounts s a; ea_code_hash acct })"

definition in_memory_code_by_hash :: "evm_in_memory \<Rightarrow> b256 \<Rightarrow> string + evm_code option" where
  "in_memory_code_by_hash s h = Inr (mem_bytecodes s h)"

definition in_memory_has_storage :: "evm_in_memory \<Rightarrow> address \<Rightarrow> string + bool" where
  "in_memory_has_storage s a =
     Inr (case mem_accounts s a of Some acct \<Rightarrow> ea_storage acct \<noteq> [] | None \<Rightarrow> False)"

definition in_memory_slot :: "evm_in_memory \<Rightarrow> address \<Rightarrow> u256 \<Rightarrow> string + u256" where
  "in_memory_slot s a i =
     Inr (case do { acct \<leftarrow> mem_accounts s a; map_of (ea_storage acct) i } of Some v \<Rightarrow> v | None \<Rightarrow> 0)"

text \<open>\<^verbatim>\<open>u64::to_string\<close>, as bytes; the hash of an unknown block is the hash of its number's digits.\<close>

fun decimal_bytes :: "nat \<Rightarrow> byte list" where
  "decimal_bytes n = (if n < 10 then [of_nat (48 + n)] else decimal_bytes (n div 10) @ [of_nat (48 + n mod 10)])"

declare decimal_bytes.simps [simp del]

definition in_memory_block_hash :: "(byte list \<Rightarrow> b256) \<Rightarrow> evm_in_memory \<Rightarrow> u64 \<Rightarrow> string + b256" where
  "in_memory_block_hash keccak s n =
     Inr (case mem_block_hashes s n of Some h \<Rightarrow> h | None \<Rightarrow> keccak (decimal_bytes (unat n)))"

definition in_memory_storage_of :: "(byte list \<Rightarrow> b256) \<Rightarrow> evm_in_memory \<Rightarrow> evm_storage" where
  "in_memory_storage_of keccak s =
     \<lparr>st_basic = in_memory_basic s, st_code_hash = in_memory_code_hash s,
      st_code_by_hash = in_memory_code_by_hash s, st_has_storage = in_memory_has_storage s,
      st_storage = in_memory_slot s, st_block_hash = in_memory_block_hash keccak s\<rparr>"

section \<open>The contract of a storage\<close>

text \<open>
  What the executors rely on beyond the signatures: an account that does not exist has neither code
  nor storage, and an account without storage reads zero everywhere.
\<close>

locale evm_storage_contract =
  fixes basic :: "address \<Rightarrow> string + account_basic option"
    and code_hash :: "address \<Rightarrow> string + b256 option"
    and has_storage :: "address \<Rightarrow> string + bool"
    and storage :: "address \<Rightarrow> u256 \<Rightarrow> string + u256"
  assumes missing_no_code: "basic a = Inr None \<Longrightarrow> code_hash a = Inr None"
    and missing_no_storage: "basic a = Inr None \<Longrightarrow> has_storage a = Inr False"
    and no_storage_zero: "has_storage a = Inr False \<Longrightarrow> storage a i = Inr 0"
begin

lemma missing_zero: "basic a = Inr None \<Longrightarrow> storage a i = Inr 0"
  by (rule no_storage_zero [OF missing_no_storage])

lemma code_hash_exists: "code_hash a = Inr (Some h) \<Longrightarrow> basic a \<noteq> Inr None"
  using missing_no_code by fastforce

text \<open>The wrapper's view: an account it reports as missing reads zero.\<close>

lemma wrapped_missing_zero:
  assumes "st_basic st = basic" "st_storage st = storage" "basic_ref R st a = Inr None"
  shows "storage_ref st a i = Inr 0"
proof -
  have "basic a = Inr None"
    using assms(1,3) by (auto simp: basic_ref_def and_then_Inr_iff split: option.splits)
  then show ?thesis using assms(2) by (simp add: storage_ref_def missing_zero)
qed

end

interpretation evm_mem: evm_storage_contract "in_memory_basic s" "in_memory_code_hash s"
  "in_memory_has_storage s" "in_memory_slot s" for s
  by unfold_locales
    (auto simp: in_memory_basic_def in_memory_code_hash_def in_memory_has_storage_def in_memory_slot_def
      split: option.splits)

section \<open>Conversions of code\<close>

text \<open>
  A decoded container keeps the bytes it was decoded from: what \<^verbatim>\<open>Eof::decode\<close> documents of
  its field \<^verbatim>\<open>raw\<close>.
\<close>

definition eof_keeps_raw :: "'eof revm_code \<Rightarrow> bool" where
  "eof_keeps_raw R \<longleftrightarrow> (\<forall>bytes e. eof_decode R bytes = Inr e \<longrightarrow> eof_raw R e = bytes)"

lemma evm_code_from_simps [simp]:
  "evm_code_from R (LegacyAnalyzed b n j) = Some (CodeLegacy \<lparr>lc_bytecode = b, lc_original_len = n, lc_jump_table = j\<rparr>)"
  "evm_code_from R (Eip7702 c) =
     Some (CodeEip7702 \<lparr>ec_delegated_address = eb_delegated_address c, ec_version = eb_version c\<rparr>)"
  "evm_code_from R (Eof e) = Some (CodeEof (eof_raw R e))"
  by (subst evm_code_from.simps, simp)+

lemma evm_code_roundtrip:
  assumes "eof_keeps_raw R" "bytecode_try_from R code = Inr b"
  shows "evm_code_from R b = Some code"
  using assms
  by (cases code) (auto simp: bytecode_try_from_def eof_keeps_raw_def and_then_Inr_iff Let_def)

lemma bytecode_try_from_total:
  "bytecode_try_from R code = Inl e \<Longrightarrow> \<exists>bytes n. code = CodeEof bytes \<and> e = EofDecodingError n \<and> eof_decode R bytes = Inl n"
  by (cases code)
    (auto simp: bytecode_try_from_def Let_def map_error_def and_then_def split: sum.splits)

section \<open>Properties\<close>

text \<open>
  Property C35. Reading an account of an in-memory storage through the wrapper answers with the
  account's balance and nonce, the hash of its code or that of the empty code, and code that
  converts back to the stored code; it fails only where the stored bytes are no EOF container. A
  missing account reads as none, and zero in every slot.
\<close>

theorem wrapper_reads_accounts:
  assumes "eof_keeps_raw R" "st = in_memory_storage_of keccak s"
    and "\<And>acct h. mem_accounts s a = Some acct \<Longrightarrow> ea_code_hash acct = Some h \<Longrightarrow> mem_bytecodes s h = ea_code acct"
  shows "(mem_accounts s a = None \<longrightarrow>
      basic_ref R st a = Inr None \<and> storage_ref st a i = Inr 0) \<and>
    (\<forall>acct. mem_accounts s a = Some acct \<longrightarrow>
      storage_ref st a i = Inr (case map_of (ea_storage acct) i of Some v \<Rightarrow> v | None \<Rightarrow> 0) \<and>
      (case basic_ref R st a of
         Inr info \<Rightarrow> \<exists>code. info = Some
           \<lparr>info_balance = ea_balance acct, info_nonce = ea_nonce acct,
            info_code_hash = (case ea_code_hash acct of Some h \<Rightarrow> h | None \<Rightarrow> keccak_empty R), info_code = code\<rparr> \<and>
           (case code of
              None \<Rightarrow> ea_code_hash acct = None \<or> ea_code acct = None
            | Some b \<Rightarrow> ea_code_hash acct \<noteq> None \<and> evm_code_from R b = ea_code acct)
       | Inl e \<Rightarrow> \<exists>bytes n. e = WrapInvalidBytecode (EofDecodingError n) \<and> ea_code acct = Some (CodeEof bytes) \<and>
           eof_decode R bytes = Inl n))"
proof (intro conjI impI allI)
  note defs = in_memory_storage_of_def in_memory_basic_def in_memory_code_hash_def in_memory_code_by_hash_def
    in_memory_slot_def
  {
    assume "mem_accounts s a = None"
    then show b: "basic_ref R st a = Inr None"
      by (simp add: basic_ref_def assms(2) defs)
    show "storage_ref st a i = Inr 0"
      by (rule evm_mem.wrapped_missing_zero [where s = s, OF _ _ b]) (simp_all add: assms(2) in_memory_storage_of_def)
  next
    fix acct
    assume acct: "mem_accounts s a = Some acct"
    then show "storage_ref st a i = Inr (case map_of (ea_storage acct) i of Some v \<Rightarrow> v | None \<Rightarrow> 0)"
      by (simp add: storage_ref_def assms(2) defs)
    show "case basic_ref R st a of
         Inr info \<Rightarrow> \<exists>code. info = Some
           \<lparr>info_balance = ea_balance acct, info_nonce = ea_nonce acct,
            info_code_hash = (case ea_code_hash acct of Some h \<Rightarrow> h | None \<Rightarrow> keccak_empty R), info_code = code\<rparr> \<and>
           (case code of
              None \<Rightarrow> ea_code_hash acct = None \<or> ea_code acct = None
            | Some b \<Rightarrow> ea_code_hash acct \<noteq> None \<and> evm_code_from R b = ea_code acct)
       | Inl e \<Rightarrow> \<exists>bytes n. e = WrapInvalidBytecode (EofDecodingError n) \<and> ea_code acct = Some (CodeEof bytes) \<and>
           eof_decode R bytes = Inl n"
    proof (cases "ea_code_hash acct")
      case None
      then show ?thesis by (simp add: basic_ref_def assms(2) defs acct)
    next
      case (Some h)
      note code = assms(3) [OF acct Some]
      show ?thesis
      proof (cases "ea_code acct")
        case None
        then show ?thesis by (simp add: basic_ref_def assms(2) defs acct Some code transpose_code_def)
      next
        case (Some c)
        show ?thesis
        proof (cases "bytecode_try_from R c")
          case (Inl e)
          then show ?thesis
            using bytecode_try_from_total [OF Inl]
            by (simp add: basic_ref_def assms(2) defs acct \<open>ea_code_hash acct = Some h\<close> code Some transpose_code_def)
              blast
        next
          case (Inr b)
          then show ?thesis
            using evm_code_roundtrip [OF assms(1) Inr]
            by (simp add: basic_ref_def assms(2) defs acct \<open>ea_code_hash acct = Some h\<close> code Some transpose_code_def)
        qed
      qed
    qed
  }
qed

definition example_code :: "nat revm_code" where
  "example_code =
     \<lparr>eip7702_magic_bytes = [239, 1], eof_decode = (\<lambda>b. if b = [7] then Inr 7 else Inl 0), eof_raw = (\<lambda>e. [of_nat e]),
      to_analysed = (\<lambda>b. LegacyAnalyzed [] 0 []), default_bytecode = LegacyAnalyzed [] 0 [], keccak_empty = 99\<rparr>"

lemma example_code_raw: "eof_keeps_raw example_code"
  by (simp add: eof_keeps_raw_def example_code_def)

definition example_accounts :: evm_in_memory where
  "example_accounts =
     evm_in_memory_new
       [1 \<mapsto> \<lparr>ea_balance = 10, ea_nonce = 2, ea_code_hash = Some 5, ea_code = Some (CodeEof [7]), ea_storage = [(3, 4)]\<rparr>]
       [5 \<mapsto> CodeEof [7]] Map.empty"

theorem wrapper_reads_accounts_witness:
  "\<exists>code. basic_ref example_code (in_memory_storage_of (\<lambda>_. 0) example_accounts) 1 =
     Inr (Some \<lparr>info_balance = 10, info_nonce = 2, info_code_hash = 5, info_code = code\<rparr>) \<and>
   storage_ref (in_memory_storage_of (\<lambda>_. 0) example_accounts) 1 3 = Inr 4"
proof -
  let ?st = "in_memory_storage_of (\<lambda>_. 0) example_accounts"
  have "basic_ref example_code ?st 1 = Inr (Some
     \<lparr>info_balance = 10, info_nonce = 2, info_code_hash = 5, info_code = Some (Eof 7)\<rparr>)"
    by (simp add: basic_ref_def in_memory_storage_of_def in_memory_basic_def in_memory_code_hash_def
        in_memory_code_by_hash_def example_accounts_def evm_in_memory_new_def transpose_code_def
        bytecode_try_from_def example_code_def)
  moreover obtain acct where acct: "mem_accounts example_accounts 1 = Some acct" "ea_storage acct = [(3, 4)]"
    by (simp add: example_accounts_def evm_in_memory_new_def)
  have "mem_bytecodes example_accounts h = ea_code acct"
    if "mem_accounts example_accounts 1 = Some acct" "ea_code_hash acct = Some h" for acct h
    using that by (auto simp: example_accounts_def evm_in_memory_new_def)
  from conjunct2 [OF wrapper_reads_accounts [where a = 1 and s = example_accounts and keccak = "\<lambda>_. 0" and i = 3,
    OF example_code_raw refl this]] acct
  have "storage_ref ?st 1 3 = Inr 4" by simp
  ultimately show ?thesis by blast
qed

end
