(* ===== verification/Evm_Types.thy ===== *)
theory Evm_Types
  imports Evm_Storage
begin

text \<open>
  What the executor exchanges with revm and with the chain: headers, block and transaction
  environments (\<^verbatim>\<open>compat.rs\<close> builds the former), the outcome of a transaction as revm reports it,
  and the result the executor returns for it (\<^verbatim>\<open>vm.rs\<close>). Methods of foreign types are fields
  that hold their answers.
\<close>

section \<open>Hard forks\<close>

text \<open>
  The forks the sources name, in the order of their activation, which is the order the crate
  documents for \<^verbatim>\<open>SpecId\<close>.
\<close>

datatype spec_id =
    FRONTIER | HOMESTEAD | TANGERINE | SPURIOUS_DRAGON | BYZANTIUM | PETERSBURG | ISTANBUL | BERLIN | LONDON
  | MERGE | REGOLITH | SHANGHAI | CANYON | CANCUN | ECOTONE | FJORD | PRAGUE

definition spec_ids :: "spec_id list" where
  "spec_ids =
     [FRONTIER, HOMESTEAD, TANGERINE, SPURIOUS_DRAGON, BYZANTIUM, PETERSBURG, ISTANBUL, BERLIN, LONDON,
      MERGE, REGOLITH, SHANGHAI, CANYON, CANCUN, ECOTONE, FJORD, PRAGUE]"

fun spec_rank :: "spec_id \<Rightarrow> nat" where
  "spec_rank FRONTIER = 0"
| "spec_rank HOMESTEAD = 1"
| "spec_rank TANGERINE = 2"
| "spec_rank SPURIOUS_DRAGON = 3"
| "spec_rank BYZANTIUM = 4"
| "spec_rank PETERSBURG = 5"
| "spec_rank ISTANBUL = 6"
| "spec_rank BERLIN = 7"
| "spec_rank LONDON = 8"
| "spec_rank MERGE = 9"
| "spec_rank REGOLITH = 10"
| "spec_rank SHANGHAI = 11"
| "spec_rank CANYON = 12"
| "spec_rank CANCUN = 13"
| "spec_rank ECOTONE = 14"
| "spec_rank FJORD = 15"
| "spec_rank PRAGUE = 16"

lemma spec_rank_nth: "spec_ids ! spec_rank s = s"
  by (cases s) (simp_all add: spec_ids_def)

lemma spec_rank_inject: "spec_rank s = spec_rank t \<longleftrightarrow> s = t"
  by (metis spec_rank_nth)

instantiation spec_id :: linorder
begin

definition less_eq_spec_id :: "spec_id \<Rightarrow> spec_id \<Rightarrow> bool" where
  "s \<le> t \<longleftrightarrow> spec_rank s \<le> spec_rank t"

definition less_spec_id :: "spec_id \<Rightarrow> spec_id \<Rightarrow> bool" where
  "s < t \<longleftrightarrow> spec_rank s < spec_rank t"

instance
  by standard (auto simp: less_eq_spec_id_def less_spec_id_def spec_rank_inject)

end

lemmas spec_order = less_eq_spec_id_def less_spec_id_def

section \<open>Blocks\<close>

record header =
  hd_number :: u64
  hd_beneficiary :: address
  hd_timestamp :: u64
  hd_gas_limit :: u64
  hd_gas_used :: u64
  hd_base_fee_per_gas :: "u64 option"
  hd_difficulty :: u256
  hd_mix_hash :: b256
  hd_excess_blob_gas :: "u64 option"

text \<open>\<open>'blob\<close> is what \<^verbatim>\<open>BlobExcessGasAndPrice::new\<close> builds.\<close>

record 'blob block_env =
  be_number :: u256
  be_coinbase :: address
  be_timestamp :: u256
  be_gas_limit :: u256
  be_basefee :: u256
  be_difficulty :: u256
  be_prevrandao :: "b256 option"
  be_blob_excess_gas_and_price :: "'blob option"

definition get_block_env :: "(u64 \<Rightarrow> bool \<Rightarrow> 'blob) \<Rightarrow> header \<Rightarrow> spec_id \<Rightarrow> 'blob block_env" where
  "get_block_env blob_new h spec =
     \<lparr>be_number = ucast (hd_number h), be_coinbase = hd_beneficiary h, be_timestamp = ucast (hd_timestamp h),
      be_gas_limit = ucast (hd_gas_limit h),
      be_basefee = ucast (case hd_base_fee_per_gas h of Some fee \<Rightarrow> fee | None \<Rightarrow> 0),
      be_difficulty = hd_difficulty h, be_prevrandao = Some (hd_mix_hash h),
      be_blob_excess_gas_and_price = map_option (\<lambda>x. blob_new x (PRAGUE \<le> spec)) (hd_excess_blob_gas h)\<rparr>"

section \<open>Transactions\<close>

datatype tx_kind = Create | Call address

fun tx_kind_to :: "tx_kind \<Rightarrow> address option" where
  "tx_kind_to Create = None"
| "tx_kind_to (Call to) = Some to"

record optimism_fields =
  op_source_hash :: "b256 option"
  op_mint :: "128 word option"
  op_is_system_transaction :: "bool option"
  op_enveloped_tx :: "byte list option"

definition optimism_fields_default :: optimism_fields where
  "optimism_fields_default =
     \<lparr>op_source_hash = None, op_mint = None, op_is_system_transaction = None, op_enveloped_tx = None\<rparr>"

text \<open>
  \<^verbatim>\<open>TxEnv\<close>; the last field is the answer of its method \<^verbatim>\<open>get_total_blob_gas\<close>, which is taken
  from the blob hashes, so it is a function of the environment that is given with it.
\<close>

record tx_env =
  te_caller :: address
  te_gas_limit :: u64
  te_gas_price :: u256
  te_gas_priority_fee :: "u256 option"
  te_transact_to :: tx_kind
  te_value :: u256
  te_data :: "byte list"
  te_nonce :: "u64 option"
  te_chain_id :: "u64 option"
  te_access_list :: "(address \<times> b256 list) list"
  te_blob_hashes :: "b256 list"
  te_max_fee_per_blob_gas :: "u256 option"
  te_authorization_list :: "byte list list option"
  te_optimism :: optimism_fields
  te_total_blob_gas :: u64

section \<open>Results\<close>

type_synonym evm_log = "byte list"

record receipt =
  rc_status :: bool
  rc_cumulative_gas_used :: u64
  rc_logs :: "evm_log list"

text \<open>
  \<^verbatim>\<open>ResultAndState\<close>, with the answers of the methods of the result; the cost function is the
  L1 block information that revm's context holds for Optimism, \<^const>\<open>None\<close> if it holds none.
\<close>

record 'eof result_and_state =
  rs_is_success :: bool
  rs_gas_used :: u64
  rs_logs :: "evm_log list"
  rs_state :: "(address \<times> 'eof revm_account) list"
  rs_l1_cost :: "(byte list \<Rightarrow> u256) option"

text \<open>An account a transaction changed; \<^const>\<open>None\<close> marks it for removal.\<close>

type_synonym evm_state_transitions = "address \<rightharpoonup> evm_account option"

record pexe_tx_execution_result =
  per_receipt :: receipt
  per_state :: evm_state_transitions

text \<open>\<^verbatim>\<open>from_revm\<close>, a panic where an account's code cannot be unwrapped.\<close>

fun collect_state ::
    "'eof revm_code \<Rightarrow> bool \<Rightarrow> (address \<times> 'eof revm_account) list \<Rightarrow> (address \<times> evm_account option) list option" where
  "collect_state R eip_161 [] = Some []"
| "collect_state R eip_161 ((a, acct) # accts) =
     (if is_touched acct then
        do {
          x \<leftarrow> (if is_selfdestructed acct \<or> is_empty_account acct \<and> eip_161 then Some None
               else map_option Some (evm_account_from R acct));
          xs \<leftarrow> collect_state R eip_161 accts;
          Some ((a, x) # xs)
        }
      else collect_state R eip_161 accts)"

definition result_from_revm ::
    "'eof revm_code \<Rightarrow> bool \<Rightarrow> 'eof result_and_state \<Rightarrow> pexe_tx_execution_result option" where
  "result_from_revm R eip_161 r =
     do {
       state \<leftarrow> collect_state R eip_161 (rs_state r);
       Some \<lparr>per_receipt = \<lparr>rc_status = rs_is_success r, rc_cumulative_gas_used = rs_gas_used r, rc_logs = rs_logs r\<rparr>,
             per_state = map_of state\<rparr>
     }"

end
