(* ===== verification/Chain.thy ===== *)
theory Chain
  imports Mv_Memory Evm_Types "HOL-Library.AList" "HOL-Library.List_Lexorder" "HOL-Library.Product_Lexorder" "HOL-Library.Multiset"
begin

text \<open>
  The chain rules of \<^verbatim>\<open>chain.rs\<close>, \<^verbatim>\<open>chain/ethereum.rs\<close> and \<^verbatim>\<open>chain/optimism.rs\<close>: the fork
  of a block, the environment of a transaction, the multi-version memory a block starts with, the
  reward policy and the receipt root. The trait \<^verbatim>\<open>PexeChain\<close> is the record \<open>pexe_chain\<close> of what
  the executor calls; what a built memory promises is the locale \<open>fresh_memory\<close>. Transactions of the
  \<^verbatim>\<open>alloy\<close> crates are records of the answers of their methods; the hash of the \<^verbatim>\<open>rustc_hash\<close>
  crate is an argument.
\<close>

section \<open>The trait\<close>

datatype reward_policy =
    RewardEthereum
  | RewardOptimism memory_location_hash memory_location_hash

datatype calculate_receipt_root_error =
    Unsupported | InvalidTxType u8 | RootCustom string | OpDepositMissingSender

record ('blob, 'code) pexe_chain =
  chain_id :: u64
  chain_build_mv_memory :: "'blob block_env \<Rightarrow> tx_env list \<Rightarrow> 'code mv_memory"
  chain_reward_policy :: reward_policy
  chain_eip_1559 :: "spec_id \<Rightarrow> bool"
  chain_eip_161 :: "spec_id \<Rightarrow> bool"

text \<open>The memory of a chain that estimates nothing: the default of the trait.\<close>

definition default_build_mv_memory :: "'blob block_env \<Rightarrow> tx_env list \<Rightarrow> 'code mv_memory" where
  "default_build_mv_memory block_env txs = mv_new (length txs) [] []"

section \<open>Ethereum\<close>

datatype tx_type = TxLegacy | TxEip2930 | TxEip1559 | TxEip4844 | TxEip7702

record eth_transaction =
  et_tx_type :: tx_type
  et_signer :: address
  et_gas_limit :: u64
  et_gas_price :: "128 word option"
  et_max_fee_per_gas :: "128 word"
  et_max_priority_fee_per_gas :: "128 word option"
  et_kind :: tx_kind
  et_value :: u256
  et_input :: "byte list"
  et_nonce :: u64
  et_chain_id :: "u64 option"
  et_access_list :: "(address \<times> b256 list) list option"
  et_blob_versioned_hashes :: "b256 list option"
  et_max_fee_per_blob_gas :: "128 word option"
  et_authorization_list :: "byte list list option"

datatype ethereum_transaction_parsing_error = MissingGasPrice

definition get_ethereum_gas_price :: "eth_transaction \<Rightarrow> ethereum_transaction_parsing_error + u256" where
  "get_ethereum_gas_price tx =
     (case et_tx_type tx of
        TxLegacy \<Rightarrow> (case et_gas_price tx of Some p \<Rightarrow> Inr (ucast p) | None \<Rightarrow> Inl MissingGasPrice)
      | TxEip2930 \<Rightarrow> (case et_gas_price tx of Some p \<Rightarrow> Inr (ucast p) | None \<Rightarrow> Inl MissingGasPrice)
      | _ \<Rightarrow> Inr (ucast (et_max_fee_per_gas tx)))"

definition ethereum_block_spec :: "header \<Rightarrow> spec_id" where
  "ethereum_block_spec h =
     (if hd_timestamp h \<ge> 1710338135 then CANCUN
      else if hd_timestamp h \<ge> 1681338455 then SHANGHAI
      else if hd_number h \<ge> 15537394 then MERGE
      else if hd_number h \<ge> 12965000 then LONDON
      else if hd_number h \<ge> 12244000 then BERLIN
      else if hd_number h \<ge> 9069000 then ISTANBUL
      else if hd_number h \<ge> 7280000 then PETERSBURG
      else if hd_number h \<ge> 4370000 then BYZANTIUM
      else if hd_number h \<ge> 2675000 then SPURIOUS_DRAGON
      else if hd_number h \<ge> 2463000 then TANGERINE
      else if hd_number h \<ge> 1150000 then HOMESTEAD
      else FRONTIER)"

definition ethereum_tx_env ::
    "(b256 list \<Rightarrow> u64) \<Rightarrow> eth_transaction \<Rightarrow> ethereum_transaction_parsing_error + tx_env" where
  "ethereum_tx_env blob_gas tx =
     and_then (get_ethereum_gas_price tx) (\<lambda>gas_price.
       let blob_hashes = (case et_blob_versioned_hashes tx of Some hs \<Rightarrow> hs | None \<Rightarrow> [])
       in Inr
         \<lparr>te_caller = et_signer tx, te_gas_limit = et_gas_limit tx, te_gas_price = gas_price,
          te_gas_priority_fee = map_option ucast (et_max_priority_fee_per_gas tx),
          te_transact_to = et_kind tx, te_value = et_value tx, te_data = et_input tx,
          te_nonce = Some (et_nonce tx), te_chain_id = et_chain_id tx,
          te_access_list = (case et_access_list tx of Some l \<Rightarrow> l | None \<Rightarrow> []),
          te_blob_hashes = blob_hashes,
          te_max_fee_per_blob_gas = map_option ucast (et_max_fee_per_blob_gas tx),
          te_authorization_list = et_authorization_list tx,
          te_optimism = optimism_fields_default, te_total_blob_gas = blob_gas blob_hashes\<rparr>)"

definition ethereum_build_mv_memory ::
    "(memory_location \<Rightarrow> u64) \<Rightarrow> 'blob block_env \<Rightarrow> tx_env list \<Rightarrow> 'code mv_memory" where
  "ethereum_build_mv_memory fx block_env txs =
     (let beneficiary_location_hash = fx (LocBasic (be_coinbase block_env))
      in mv_new (length txs) [(beneficiary_location_hash, [0..<length txs])] [be_coinbase block_env])"

definition ethereum_eip_1559 :: "spec_id \<Rightarrow> bool" where
  "ethereum_eip_1559 spec \<longleftrightarrow> LONDON \<le> spec"

definition ethereum_eip_161 :: "spec_id \<Rightarrow> bool" where
  "ethereum_eip_161 spec \<longleftrightarrow> SPURIOUS_DRAGON \<le> spec"

definition pevm_ethereum :: "(memory_location \<Rightarrow> u64) \<Rightarrow> ('blob, 'code) pexe_chain" where
  "pevm_ethereum fx =
     \<lparr>chain_id = 1, chain_build_mv_memory = ethereum_build_mv_memory fx, chain_reward_policy = RewardEthereum,
      chain_eip_1559 = ethereum_eip_1559, chain_eip_161 = ethereum_eip_161\<rparr>"

section \<open>Receipt roots\<close>

text \<open>
  The foreign functions of a receipt root: the bloom filter of a receipt, the encodings of an index
  and of an envelope, and the root of the trie with given leaves.
\<close>

datatype 'bloomed receipt_envelope =
    EnvLegacy 'bloomed | EnvEip2930 'bloomed | EnvEip1559 'bloomed | EnvEip4844 'bloomed | EnvEip7702 'bloomed

record ('bloomed, 'env) receipt_encoding =
  with_bloom :: "receipt \<Rightarrow> 'bloomed"
  encode_index :: "nat \<Rightarrow> byte list"
  encode_2718 :: "'env \<Rightarrow> byte list"
  trie_root :: "(byte list \<times> byte list) list \<Rightarrow> b256"

fun receipt_envelope_of :: "tx_type \<Rightarrow> 'bloomed \<Rightarrow> 'bloomed receipt_envelope" where
  "receipt_envelope_of TxLegacy r = EnvLegacy r"
| "receipt_envelope_of TxEip2930 r = EnvEip2930 r"
| "receipt_envelope_of TxEip1559 r = EnvEip1559 r"
| "receipt_envelope_of TxEip4844 r = EnvEip4844 r"
| "receipt_envelope_of TxEip7702 r = EnvEip7702 r"

definition trie_entries :: "('bloomed, 'env) receipt_encoding \<Rightarrow> 'env list \<Rightarrow> (byte list \<times> byte list) list" where
  "trie_entries E envs =
     sort (map (\<lambda>(index, receipt). (encode_index E index, encode_2718 E receipt)) (List.enumerate 0 envs))"

definition ethereum_receipt_root ::
    "('bloomed, 'bloomed receipt_envelope) receipt_encoding \<Rightarrow> spec_id \<Rightarrow> tx_type list \<Rightarrow> pexe_tx_execution_result list
       \<Rightarrow> calculate_receipt_root_error + b256" where
  "ethereum_receipt_root E spec tx_types tx_results =
     (if spec < BYZANTIUM then Inl Unsupported
      else Inr (trie_root E (trie_entries E
        (map (\<lambda>(tx_type, tx_result). receipt_envelope_of tx_type (with_bloom E (per_receipt tx_result)))
           (zip tx_types tx_results)))))"

section \<open>Optimism\<close>

datatype op_tx_type = OpLegacy | OpEip2930 | OpEip1559 | OpEip7702 | OpDeposit

text \<open>
  An Optimism transaction: the methods it shares with Ethereum's, its own type, what a deposit
  carries, and its encoding.
\<close>

record op_transaction =
  ot_base :: eth_transaction
  ot_tx_type :: op_tx_type
  ot_deposit :: "(b256 option \<times> 128 word option) option"
  ot_is_system_transaction :: bool
  ot_encoded_2718 :: "byte list"

datatype optimism_block_spec_error = UnsupportedSpec

datatype optimism_transaction_parsing_error = OpMissingGasPrice

definition get_optimism_gas_price :: "op_transaction \<Rightarrow> optimism_transaction_parsing_error + u256" where
  "get_optimism_gas_price tx =
     (case ot_tx_type tx of
        OpLegacy \<Rightarrow> (case et_gas_price (ot_base tx) of Some p \<Rightarrow> Inr (ucast p) | None \<Rightarrow> Inl OpMissingGasPrice)
      | OpEip2930 \<Rightarrow> (case et_gas_price (ot_base tx) of Some p \<Rightarrow> Inr (ucast p) | None \<Rightarrow> Inl OpMissingGasPrice)
      | OpEip1559 \<Rightarrow> Inr (ucast (et_max_fee_per_gas (ot_base tx)))
      | OpEip7702 \<Rightarrow> Inr (ucast (et_max_fee_per_gas (ot_base tx)))
      | OpDeposit \<Rightarrow> Inr 0)"

definition get_optimism_fields :: "op_transaction \<Rightarrow> optimism_transaction_parsing_error + optimism_fields" where
  "get_optimism_fields tx =
     (let (source_hash, mint) = (case ot_deposit tx of Some d \<Rightarrow> d | None \<Rightarrow> (None, None))
      in Inr \<lparr>op_source_hash = source_hash, op_mint = mint,
              op_is_system_transaction = Some (ot_is_system_transaction tx),
              op_enveloped_tx = Some (ot_encoded_2718 tx)\<rparr>)"

definition optimism_block_spec :: "header \<Rightarrow> optimism_block_spec_error + spec_id" where
  "optimism_block_spec h =
     (if hd_timestamp h \<ge> 1720627201 then Inr FJORD
      else if hd_timestamp h \<ge> 1710374401 then Inr ECOTONE
      else if hd_timestamp h \<ge> 1704992401 then Inr CANYON
      else if hd_number h \<ge> 105235063 then Inr REGOLITH
      else Inl UnsupportedSpec)"

definition optimism_tx_env ::
    "(b256 list \<Rightarrow> u64) \<Rightarrow> op_transaction \<Rightarrow> optimism_transaction_parsing_error + tx_env" where
  "optimism_tx_env blob_gas tx =
     and_then (get_optimism_fields tx) (\<lambda>fields.
     and_then (get_optimism_gas_price tx) (\<lambda>gas_price.
       let base = ot_base tx;
           blob_hashes = (case et_blob_versioned_hashes base of Some hs \<Rightarrow> hs | None \<Rightarrow> [])
       in Inr
         \<lparr>te_caller = et_signer base, te_gas_limit = et_gas_limit base, te_gas_price = gas_price,
          te_gas_priority_fee = map_option ucast (et_max_priority_fee_per_gas base),
          te_transact_to = et_kind base, te_value = et_value base, te_data = et_input base,
          te_nonce = Some (et_nonce base), te_chain_id = et_chain_id base,
          te_access_list = (case et_access_list base of Some l \<Rightarrow> l | None \<Rightarrow> []),
          te_blob_hashes = blob_hashes,
          te_max_fee_per_blob_gas = map_option ucast (et_max_fee_per_blob_gas base),
          te_authorization_list = et_authorization_list base,
          te_optimism = fields, te_total_blob_gas = blob_gas blob_hashes\<rparr>))"

text \<open>\<^verbatim>\<open>entry(l).or_insert_with(..).push(i)\<close> on the estimated locations.\<close>

definition push_estimate ::
    "memory_location_hash \<Rightarrow> tx_idx_t \<Rightarrow> (memory_location_hash \<times> tx_idx_t list) list
       \<Rightarrow> (memory_location_hash \<times> tx_idx_t list) list" where
  "push_estimate l i m = AList.update l ((case map_of m l of Some idxs \<Rightarrow> idxs | None \<Rightarrow> []) @ [i]) m"

text \<open>
  The two fee recipients are constants of revm, \<open>l1\<close> and \<open>base\<close>. The estimates are under the hash
  \<open>fx_addr\<close> of the bare address, as the source has it.
\<close>

definition optimism_build_mv_memory ::
    "(memory_location \<Rightarrow> u64) \<Rightarrow> (address \<Rightarrow> u64) \<Rightarrow> address \<Rightarrow> address \<Rightarrow> 'blob block_env \<Rightarrow> tx_env list
       \<Rightarrow> 'code mv_memory" where
  "optimism_build_mv_memory fx fx_addr l1 base block_env txs =
     (let beneficiary_location_hash = fx (LocBasic (be_coinbase block_env));
          l1_fee_recipient_location_hash = fx_addr l1;
          base_fee_recipient_location_hash = fx_addr base;
          estimated_locations = fold (\<lambda>(index, tx) m.
            if op_source_hash (te_optimism tx) = None then push_estimate beneficiary_location_hash index m
            else push_estimate base_fee_recipient_location_hash index
                   (push_estimate l1_fee_recipient_location_hash index m)) (List.enumerate 0 txs) []
      in mv_new (length txs) estimated_locations [be_coinbase block_env, l1, base])"

definition optimism_reward_policy :: "(memory_location \<Rightarrow> u64) \<Rightarrow> address \<Rightarrow> address \<Rightarrow> reward_policy" where
  "optimism_reward_policy fx l1 base = RewardOptimism (fx (LocBasic l1)) (fx (LocBasic base))"

definition pevm_optimism ::
    "(memory_location \<Rightarrow> u64) \<Rightarrow> (address \<Rightarrow> u64) \<Rightarrow> address \<Rightarrow> address \<Rightarrow> u64 \<Rightarrow> ('blob, 'code) pexe_chain" where
  "pevm_optimism fx fx_addr l1 base cid =
     \<lparr>chain_id = cid, chain_build_mv_memory = optimism_build_mv_memory fx fx_addr l1 base,
      chain_reward_policy = optimism_reward_policy fx l1 base, chain_eip_1559 = (\<lambda>_. True),
      chain_eip_161 = (\<lambda>_. True)\<rparr>"

datatype 'bloomed op_receipt_envelope =
    OpEnvLegacy 'bloomed | OpEnvEip2930 'bloomed | OpEnvEip1559 'bloomed | OpEnvEip7702 'bloomed
  | OpEnvDeposit 'bloomed "u64 option" "u64 option"

definition op_receipt_envelope_of ::
    "('bloomed, 'env) receipt_encoding \<Rightarrow> spec_id \<Rightarrow> op_transaction \<Rightarrow> pexe_tx_execution_result
       \<Rightarrow> calculate_receipt_root_error + 'bloomed op_receipt_envelope" where
  "op_receipt_envelope_of E spec tx tx_result =
     (let r = with_bloom E (per_receipt tx_result)
      in case ot_tx_type tx of
           OpLegacy \<Rightarrow> Inr (OpEnvLegacy r)
         | OpEip2930 \<Rightarrow> Inr (OpEnvEip2930 r)
         | OpEip1559 \<Rightarrow> Inr (OpEnvEip1559 r)
         | OpEip7702 \<Rightarrow> Inr (OpEnvEip7702 r)
         | OpDeposit \<Rightarrow>
             (case per_state tx_result (et_signer (ot_base tx)) of
                Some (Some account) \<Rightarrow>
                  Inr (OpEnvDeposit r (if CANYON \<le> spec then Some (ea_nonce account - 1) else None)
                         (if CANYON \<le> spec then Some 1 else None))
              | _ \<Rightarrow> Inl OpDepositMissingSender))"

fun collect_results :: "('e + 'a) list \<Rightarrow> 'e + 'a list" where
  "collect_results [] = Inr []"
| "collect_results (r # rs) = and_then r (\<lambda>x. and_then (collect_results rs) (\<lambda>xs. Inr (x # xs)))"

definition optimism_receipt_root ::
    "('bloomed, 'bloomed op_receipt_envelope) receipt_encoding \<Rightarrow> spec_id \<Rightarrow> op_transaction list
       \<Rightarrow> pexe_tx_execution_result list \<Rightarrow> calculate_receipt_root_error + b256" where
  "optimism_receipt_root E spec txs tx_results =
     and_then (collect_results (map (\<lambda>(tx, tx_result). op_receipt_envelope_of E spec tx tx_result) (zip txs tx_results)))
       (\<lambda>envs. Inr (trie_root E (trie_entries E envs)))"

section \<open>What a built memory promises\<close>

text \<open>
  A memory to start a block with: consistent, with a record per transaction that is empty, and with
  nothing but preallocated estimates of transactions of the block.
\<close>

locale fresh_memory =
  fixes build :: "'blob block_env \<Rightarrow> tx_env list \<Rightarrow> 'code mv_memory"
  assumes fresh_ok: "mv_ok (build b txs)"
    and fresh_locations: "last_locations (build b txs) = replicate (length txs) empty_locations"
    and fresh_estimates: "entry_at (build b txs) l i = Some e \<Longrightarrow> e = Estimate \<and> i < length txs"
    and fresh_code: "new_bytecodes (build b txs) = Map.empty"
begin

text \<open>A first read sees an estimate to wait for, or falls back to storage: never a value.\<close>

lemma fresh_below: "(j, e) \<in> set (mem_below (build b txs) l i) \<Longrightarrow> e = Estimate \<and> j < i \<and> j < length txs"
  using fresh_estimates by (auto simp: mem_below_set [OF fresh_ok])

text \<open>A transaction that has not executed has read nothing, and is valid.\<close>

lemma fresh_valid: "i < length txs \<Longrightarrow> validate_read_locations (build b txs) i = Some True"
  by (simp add: validate_read_locations_def fresh_locations empty_locations_def)

end

definition estimates_of :: "(memory_location_hash \<times> tx_idx_t list) list \<Rightarrow> memory_location_hash \<Rightarrow> tx_idx_t set" where
  "estimates_of ls l = (case map_of ls l of None \<Rightarrow> {} | Some idxs \<Rightarrow> set idxs)"

lemma mv_new_estimates:
  assumes "distinct (map fst ls)"
  shows "entry_at (mv_new n ls addrs) l i = (if i \<in> estimates_of ls l then Some Estimate else None)"
proof -
  have "map_of (rev ls) = map_of ls"
    using assms by (intro map_of_inject_set [THEN iffD2]) (simp_all flip: rev_map)
  then show ?thesis by (auto simp: mv_new_entry estimates_of_def split: option.splits)
qed

lemma push_estimate_distinct [simp]: "distinct (map fst m) \<Longrightarrow> distinct (map fst (push_estimate l i m))"
  by (simp add: push_estimate_def distinct_update)

lemma estimates_of_push [simp]:
  "estimates_of (push_estimate l i m) l' = estimates_of m l' \<union> (if l' = l then {i} else {})"
  by (auto simp: estimates_of_def push_estimate_def update_conv' split: option.splits)

lemma ethereum_entry:
  "entry_at (ethereum_build_mv_memory fx b txs) l i =
     (if l = fx (LocBasic (be_coinbase b)) \<and> i < length txs then Some Estimate else None)"
  by (simp add: ethereum_build_mv_memory_def mv_new_estimates estimates_of_def)

lemma shifted_indices:
  "{k + j | j. j < length (x # xs) \<and> P ((x # xs) ! j)} =
     (if P x then {k} else {}) \<union> {Suc k + j | j. j < length xs \<and> P (xs ! j)}"
proof -
  have "(\<exists>j. i = k + j \<and> j < length (x # xs) \<and> P ((x # xs) ! j)) \<longleftrightarrow>
      i = k \<and> P x \<or> (\<exists>j. i = Suc k + j \<and> j < length xs \<and> P (xs ! j))" for i
  proof
    assume "\<exists>j. i = k + j \<and> j < length (x # xs) \<and> P ((x # xs) ! j)"
    then obtain j where "i = k + j" "j < length (x # xs)" "P ((x # xs) ! j)" by blast
    then show "i = k \<and> P x \<or> (\<exists>j. i = Suc k + j \<and> j < length xs \<and> P (xs ! j))"
      by (cases j) auto
  next
    assume "i = k \<and> P x \<or> (\<exists>j. i = Suc k + j \<and> j < length xs \<and> P (xs ! j))"
    then show "\<exists>j. i = k + j \<and> j < length (x # xs) \<and> P ((x # xs) ! j)"
    proof
      assume "i = k \<and> P x"
      then show ?thesis by (intro exI [of _ 0]) simp
    next
      assume "\<exists>j. i = Suc k + j \<and> j < length xs \<and> P (xs ! j)"
      then obtain j where "i = Suc k + j" "j < length xs" "P (xs ! j)" by blast
      then show ?thesis by (intro exI [of _ "Suc j"]) simp
    qed
  qed
  then show ?thesis by (simp add: set_eq_iff)
qed

lemma optimism_fold:
  fixes lb l1 l2 :: memory_location_hash
  defines "step \<equiv> \<lambda>(index, tx) m.
     if op_source_hash (te_optimism tx) = None then push_estimate lb index m
     else push_estimate l2 index (push_estimate l1 index m)"
  assumes "distinct (map fst m)"
  shows "distinct (map fst (fold step (List.enumerate k txs) m)) \<and>
    estimates_of (fold step (List.enumerate k txs) m) l = estimates_of m l \<union>
      {k + j | j. j < length txs \<and> (if op_source_hash (te_optimism (txs ! j)) = None then l = lb else l \<in> {l1, l2})}"
  using assms(2)
proof (induction txs arbitrary: k m)
  case Nil
  then show ?case by simp
next
  case (Cons tx txs)
  let ?ok = "\<lambda>tx. if op_source_hash (te_optimism tx) = None then l = lb else l \<in> {l1, l2}"
  have d: "distinct (map fst (step (k, tx) m))"
    using Cons.prems by (simp add: step_def)
  have e: "estimates_of (step (k, tx) m) l = estimates_of m l \<union> (if ?ok tx then {k} else {})"
    by (auto simp: step_def)
  have "{k + j | j. j < length (tx # txs) \<and> ?ok ((tx # txs) ! j)} =
      (if ?ok tx then {k} else {}) \<union> {Suc k + j | j. j < length txs \<and> ?ok (txs ! j)}"
    by (rule shifted_indices)
  with Cons.IH [OF d, of "Suc k"] show ?case by (simp add: e Un_assoc)
qed

lemma optimism_entry:
  "entry_at (optimism_build_mv_memory fx fx_addr l1 base b txs) l i =
     (if i < length txs \<and>
         (if op_source_hash (te_optimism (txs ! i)) = None then l = fx (LocBasic (be_coinbase b))
          else l \<in> {fx_addr l1, fx_addr base})
      then Some Estimate else None)"
  using optimism_fold [of "[]" "fx (LocBasic (be_coinbase b))" "fx_addr base" "fx_addr l1" 0 txs l]
  by (simp add: optimism_build_mv_memory_def Let_def mv_new_estimates) (simp add: estimates_of_def)

lemma mv_new_fresh:
  assumes "\<And>l i e. entry_at (mv_new n ls addrs) l i = Some e \<Longrightarrow> e = Estimate \<and> i < n"
  shows "mv_ok (mv_new n ls addrs) \<and> last_locations (mv_new n ls addrs) = replicate n empty_locations \<and>
    new_bytecodes (mv_new n ls addrs) = Map.empty"
  by (simp add: mv_new_ok mv_new_locations) (simp add: mv_new_def)

interpretation default_memory: fresh_memory default_build_mv_memory
  by unfold_locales
    (simp_all add: default_build_mv_memory_def mv_new_ok mv_new_locations mv_new_entry, simp add: mv_new_def)

interpretation ethereum_memory: fresh_memory "ethereum_build_mv_memory fx" for fx
  by unfold_locales
    (simp_all add: ethereum_entry split: if_splits,
      simp_all add: ethereum_build_mv_memory_def mv_new_ok mv_new_locations, simp add: mv_new_def)

interpretation optimism_memory: fresh_memory "optimism_build_mv_memory fx fx_addr l1 base" for fx fx_addr l1 base
proof unfold_locales
  show "entry_at (optimism_build_mv_memory fx fx_addr l1 base b txs) l i = Some e \<Longrightarrow> e = Estimate \<and> i < length txs"
    for b :: "'a block_env" and txs l i e
    by (simp add: optimism_entry split: if_splits)
qed (simp_all add: optimism_build_mv_memory_def Let_def mv_new_ok mv_new_locations, simp add: mv_new_def)

section \<open>Forks\<close>

lemma word_le_unat: "(a :: 'a::len word) \<le> b \<longleftrightarrow> unat a \<le> unat b"
  by (rule word_le_nat_alt)

lemma ethereum_spec_rank:
  "spec_rank (ethereum_block_spec h) =
     (let t = unat (hd_timestamp h); n = unat (hd_number h)
      in if 1710338135 \<le> t then 13 else if 1681338455 \<le> t then 11 else if 15537394 \<le> n then 9
         else if 12965000 \<le> n then 8 else if 12244000 \<le> n then 7 else if 9069000 \<le> n then 6
         else if 7280000 \<le> n then 5 else if 4370000 \<le> n then 4 else if 2675000 \<le> n then 3
         else if 2463000 \<le> n then 2 else if 1150000 \<le> n then 1 else 0)"
  by (simp add: ethereum_block_spec_def word_le_unat Let_def)

lemma threshold_mono:
  "(c \<Longrightarrow> c') \<Longrightarrow> x \<le> x' \<Longrightarrow> x \<le> a \<Longrightarrow> (if c then a else x) \<le> (if c' then a else x' :: nat)"
  by simp

lemma ethereum_spec_mono:
  assumes "hd_timestamp h \<le> hd_timestamp h'" "hd_number h \<le> hd_number h'"
  shows "ethereum_block_spec h \<le> ethereum_block_spec h'"
proof -
  define t n t' n' where "t = unat (hd_timestamp h)" "n = unat (hd_number h)"
    "t' = unat (hd_timestamp h')" "n' = unat (hd_number h')"
  note abb = this
  have le: "t \<le> t'" "n \<le> n'" using assms by (simp_all add: abb word_le_unat)
  show ?thesis
    unfolding spec_order ethereum_spec_rank Let_def abb [symmetric]
    using le by (intro threshold_mono) (simp_all split: if_split)
qed

section \<open>Sorted leaves\<close>

lemma trie_entries_set:
  "set (trie_entries E envs) = (\<lambda>i. (encode_index E i, encode_2718 E (envs ! i))) ` {..<length envs}"
  by (force simp: trie_entries_def in_set_enumerate_eq image_iff in_set_conv_nth enumerate_eq_zip)

lemma trie_entries_sorted:
  assumes "inj (encode_index E)"
  shows "sorted_wrt (<) (map fst (trie_entries E envs))"
proof -
  let ?es = "map (\<lambda>(i, r). (encode_index E i, encode_2718 E r)) (List.enumerate 0 envs)"
  have "map fst ?es = map (encode_index E) [0..<length envs]"
    by (simp add: comp_def split_def flip: map_map [of "encode_index E" fst, unfolded comp_def])
  then have "distinct (map fst ?es)"
    using assms by (simp add: distinct_map inj_on_def inj_def)
  moreover have "mset (map fst (trie_entries E envs)) = mset (map fst ?es)"
    by (simp only: trie_entries_def mset_map mset_sort)
  ultimately have d: "distinct (map fst (trie_entries E envs))"
    using mset_eq_imp_distinct_iff by blast
  have "sorted (trie_entries E envs)" by (simp add: trie_entries_def)
  then have "sorted_wrt (\<lambda>x y. fst x \<le> fst y) (trie_entries E envs)"
    by (rule sorted_wrt_mono_rel [rotated]) (simp only: less_eq_prod_def, blast intro: less_imp_le)
  then have "sorted (map fst (trie_entries E envs))"
    by (simp only: sorted_map)
  with d show ?thesis by (simp add: strict_sorted_iff)
qed

section \<open>Properties\<close>

text \<open>
  Property C36. The fork of an Ethereum block never goes back as blocks get later. Fees are burnt
  (EIP-1559) exactly from block 12965000 on, or from the Shanghai time; empty accounts are cleared
  (EIP-161) exactly from block 2675000 on, or from that time.
\<close>

theorem ethereum_spec_activation:
  "(hd_timestamp h \<le> hd_timestamp h' \<and> hd_number h \<le> hd_number h' \<longrightarrow>
      ethereum_block_spec h \<le> ethereum_block_spec h') \<and>
   (ethereum_eip_1559 (ethereum_block_spec h) \<longleftrightarrow> 12965000 \<le> unat (hd_number h) \<or> 1681338455 \<le> unat (hd_timestamp h)) \<and>
   (ethereum_eip_161 (ethereum_block_spec h) \<longleftrightarrow> 2675000 \<le> unat (hd_number h) \<or> 1681338455 \<le> unat (hd_timestamp h))"
  using ethereum_spec_mono [of h h']
  by (auto simp: ethereum_eip_1559_def ethereum_eip_161_def spec_order ethereum_spec_rank Let_def split: if_splits)

theorem ethereum_spec_activation_witness:
  "let h = \<lparr>hd_number = 12965000, hd_beneficiary = 0, hd_timestamp = 1628166822, hd_gas_limit = 0, hd_gas_used = 0,
        hd_base_fee_per_gas = None, hd_difficulty = 0, hd_mix_hash = 0, hd_excess_blob_gas = None\<rparr>
   in ethereum_block_spec h \<le> ethereum_block_spec (h\<lparr>hd_number := 15537394\<rparr>) \<and> ethereum_eip_1559 (ethereum_block_spec h)"
  using ethereum_spec_activation [of
      "\<lparr>hd_number = 12965000, hd_beneficiary = 0, hd_timestamp = 1628166822, hd_gas_limit = 0, hd_gas_used = 0,
        hd_base_fee_per_gas = None, hd_difficulty = 0, hd_mix_hash = 0, hd_excess_blob_gas = None\<rparr>"
      "\<lparr>hd_number = 15537394, hd_beneficiary = 0, hd_timestamp = 1628166822, hd_gas_limit = 0, hd_gas_used = 0,
        hd_base_fee_per_gas = None, hd_difficulty = 0, hd_mix_hash = 0, hd_excess_blob_gas = None\<rparr>"]
  by simp

text \<open>
  Property C38. On Optimism the memory of a block is built with estimates that miss the locations the
  rewards are written to: fees go to the accounts of the two recipients, by the hashes of the reward
  policy, but the estimates are under the hashes of the bare addresses, and only for deposits, which
  pay no fees.
\<close>

theorem optimism_estimates_misplaced:
  assumes "m = optimism_build_mv_memory fx fx_addr l1 base b txs"
    and "optimism_reward_policy fx l1 base = RewardOptimism r1 r2"
    and "{r1, r2} \<inter> {fx_addr l1, fx_addr base, fx (LocBasic (be_coinbase b))} = {}"
    and "i < length txs" "op_source_hash (te_optimism (txs ! i)) = Some h"
  shows "(\<forall>j. entry_at m r1 j = None \<and> entry_at m r2 j = None) \<and> entry_at m (fx_addr l1) i = Some Estimate"
  using assms by (auto simp: optimism_entry)

definition example_location_hash :: "memory_location \<Rightarrow> u64" where
  "example_location_hash l = (case l of LocBasic a \<Rightarrow> ucast a | _ \<Rightarrow> 0)"

theorem optimism_estimates_misplaced_witness:
  "\<exists>(b :: unit block_env) txs i (m :: unit mv_memory).
     m = optimism_build_mv_memory example_location_hash (\<lambda>a. ucast a + 100) 1 2 b txs \<and>
     entry_at m 1 i = None \<and> entry_at m 101 i = Some Estimate"
proof -
  let ?fx = example_location_hash
  let ?fa = "\<lambda>a :: address. ucast a + 100 :: u64"
  let ?b = "\<lparr>be_number = 0, be_coinbase = 3, be_timestamp = 0, be_gas_limit = 0, be_basefee = 0, be_difficulty = 0,
      be_prevrandao = None, be_blob_excess_gas_and_price = (None :: unit option)\<rparr>"
  let ?tx = "\<lparr>te_caller = 9, te_gas_limit = 0, te_gas_price = 0, te_gas_priority_fee = None, te_transact_to = Create,
      te_value = 0, te_data = [], te_nonce = None, te_chain_id = None, te_access_list = [], te_blob_hashes = [],
      te_max_fee_per_blob_gas = None, te_authorization_list = None,
      te_optimism = optimism_fields_default\<lparr>op_source_hash := Some 4\<rparr>, te_total_blob_gas = 0\<rparr>"
  have "optimism_reward_policy ?fx 1 2 = RewardOptimism 1 2" by (simp add: optimism_reward_policy_def example_location_hash_def)
  from optimism_estimates_misplaced [where m = "optimism_build_mv_memory ?fx ?fa 1 2 ?b [?tx] :: unit mv_memory",
      OF refl this, where i = 0 and h = 4]
  have "entry_at (optimism_build_mv_memory ?fx ?fa 1 2 ?b [?tx] :: unit mv_memory) 1 0 = None \<and>
      entry_at (optimism_build_mv_memory ?fx ?fa 1 2 ?b [?tx] :: unit mv_memory) 101 0 = Some Estimate"
    by (simp add: example_location_hash_def)
  then show ?thesis by blast
qed

text \<open>
  Property C37. The receipt root is that of a trie whose leaves come in strictly ascending order of
  their keys, as the builder needs them, and are one per transaction with a result: its index with
  the envelope of its receipt under its own type.
\<close>

theorem receipt_root_leaves:
  assumes "inj (encode_index E)" "BYZANTIUM \<le> spec"
  shows "\<exists>leaves. ethereum_receipt_root E spec tx_types tx_results = Inr (trie_root E leaves) \<and>
    sorted_wrt (<) (map fst leaves) \<and>
    set leaves = (\<lambda>i. (encode_index E i,
        encode_2718 E (receipt_envelope_of (tx_types ! i) (with_bloom E (per_receipt (tx_results ! i))))))
      ` {..<min (length tx_types) (length tx_results)}"
proof (intro exI conjI)
  let ?envs = "map (\<lambda>(tx_type, tx_result). receipt_envelope_of tx_type (with_bloom E (per_receipt tx_result)))
      (zip tx_types tx_results)"
  show "ethereum_receipt_root E spec tx_types tx_results = Inr (trie_root E (trie_entries E ?envs))"
    using assms(2) by (simp add: ethereum_receipt_root_def not_less)
  show "sorted_wrt (<) (map fst (trie_entries E ?envs))"
    by (rule trie_entries_sorted [OF assms(1)])
  show "set (trie_entries E ?envs) = (\<lambda>i. (encode_index E i,
        encode_2718 E (receipt_envelope_of (tx_types ! i) (with_bloom E (per_receipt (tx_results ! i))))))
      ` {..<min (length tx_types) (length tx_results)}"
    unfolding trie_entries_set by (rule image_cong) simp_all
qed

theorem receipt_root_leaves_witness:
  "\<exists>leaves :: (byte list \<times> byte list) list. ethereum_receipt_root
      \<lparr>with_bloom = \<lambda>r. rc_cumulative_gas_used r, encode_index = \<lambda>i. be_bytes 1 0 @ replicate i 1,
       encode_2718 = \<lambda>e. [], trie_root = \<lambda>l. of_nat (length l)\<rparr> LONDON [TxEip1559, TxLegacy]
      [\<lparr>per_receipt = \<lparr>rc_status = True, rc_cumulative_gas_used = 21000, rc_logs = []\<rparr>, per_state = Map.empty\<rparr>,
       \<lparr>per_receipt = \<lparr>rc_status = True, rc_cumulative_gas_used = 42000, rc_logs = []\<rparr>, per_state = Map.empty\<rparr>]
      = Inr (of_nat (length leaves)) \<and> sorted_wrt (<) (map fst leaves)"
proof -
  let ?E = "\<lparr>with_bloom = \<lambda>r. rc_cumulative_gas_used r, encode_index = \<lambda>i. be_bytes 1 0 @ replicate i 1,
       encode_2718 = \<lambda>e. [], trie_root = \<lambda>l. of_nat (length l)\<rparr> :: (u64, u64 receipt_envelope) receipt_encoding"
  have "inj (encode_index ?E)" by (rule injI) (simp add: replicate_eq_replicate)
  from receipt_root_leaves [OF this, where spec = LONDON and tx_types = "[TxEip1559, TxLegacy]" and tx_results =
      "[\<lparr>per_receipt = \<lparr>rc_status = True, rc_cumulative_gas_used = 21000, rc_logs = []\<rparr>, per_state = Map.empty\<rparr>,
       \<lparr>per_receipt = \<lparr>rc_status = True, rc_cumulative_gas_used = 42000, rc_logs = []\<rparr>, per_state = Map.empty\<rparr>]"]
  obtain leaves where "ethereum_receipt_root ?E LONDON [TxEip1559, TxLegacy]
      [\<lparr>per_receipt = \<lparr>rc_status = True, rc_cumulative_gas_used = 21000, rc_logs = []\<rparr>, per_state = Map.empty\<rparr>,
       \<lparr>per_receipt = \<lparr>rc_status = True, rc_cumulative_gas_used = 42000, rc_logs = []\<rparr>, per_state = Map.empty\<rparr>]
      = Inr (trie_root ?E leaves)" "sorted_wrt (<) (map fst leaves)"
    by (auto simp: less_eq_spec_id_def)
  then show ?thesis by (intro exI [of _ leaves]) simp
qed

end
