(* ===== verification/Vm_Database.thy ===== *)
theory Vm_Database
  imports Chain
begin

text \<open>
  The database a transaction executes on, \<^verbatim>\<open>VmDb\<close> of \<^verbatim>\<open>vm.rs\<close>: it answers the reads of
  revm from the multi-version memory or from storage, and records where every answer came from.
  Other threads change the memory between two accesses, so every access is given the memory it
  meets. An answer is an error or a value with the new database; the outer \<^const>\<open>None\<close> is a panic.
\<close>

section \<open>Errors\<close>

datatype read_error =
    ReadStorageError string
  | Blocking tx_idx_t
  | InconsistentRead
  | InvalidNonce tx_idx_t
  | SelfDestructedAccount
  | InvalidBytecode bytecode_conversion_error
  | InvalidMemoryValueType

section \<open>State\<close>

text \<open>
  How revm runs a transaction is not part of the sources: a run is a tree of the reads it makes of
  its database, each with what it does with the answer, that ends with its verdict. An error of the
  database ends a run, as revm documents.
\<close>

datatype evm_error =
    LackOfFundForMaxFee u256 u256
  | NonceTooHigh
  | OtherEvmError string

datatype 'eof evm_run =
    Finished "evm_error + 'eof result_and_state"
  | AskBasic address "'eof account_info option \<Rightarrow> 'eof evm_run"
  | AskCode b256 "'eof bytecode \<Rightarrow> 'eof evm_run"
  | AskStorage address u256 "u256 \<Rightarrow> 'eof evm_run"
  | AskBlockHash u64 "b256 \<Rightarrow> 'eof evm_run"

record ('blob, 'eof) vm =
  vm_storage :: evm_storage
  vm_chain :: "('blob, 'eof bytecode) pexe_chain"
  vm_block_env :: "'blob block_env"
  vm_txs :: "tx_env list"
  vm_spec_id :: spec_id
  vm_beneficiary_location_hash :: memory_location_hash
  vm_reward_policy :: reward_policy
  vm_hash :: "memory_location \<Rightarrow> u64"
  vm_revm :: "'eof revm_code"
  vm_transact :: "tx_env \<Rightarrow> 'eof evm_run"

definition vm_new ::
    "(memory_location \<Rightarrow> u64) \<Rightarrow> 'eof revm_code \<Rightarrow> (spec_id \<Rightarrow> 'blob block_env \<Rightarrow> tx_env \<Rightarrow> 'eof evm_run)
       \<Rightarrow> evm_storage \<Rightarrow> ('blob, 'eof bytecode) pexe_chain \<Rightarrow> 'blob block_env \<Rightarrow> tx_env list \<Rightarrow> spec_id
       \<Rightarrow> ('blob, 'eof) vm" where
  "vm_new fx R transact st chain block_env txs spec_id =
     \<lparr>vm_storage = st, vm_chain = chain, vm_block_env = block_env, vm_txs = txs, vm_spec_id = spec_id,
      vm_beneficiary_location_hash = fx (LocBasic (be_coinbase block_env)),
      vm_reward_policy = chain_reward_policy chain,
      vm_hash = fx, vm_revm = R, vm_transact = transact spec_id block_env\<rparr>"

record vm_db =
  db_tx_idx :: tx_idx_t
  db_tx :: tx_env
  db_from_hash :: memory_location_hash
  db_to_hash :: "memory_location_hash option"
  db_to_code_hash :: "b256 option"
  db_is_lazy :: bool
  db_read_set :: read_set
  db_read_accounts :: "memory_location_hash \<rightharpoonup> account_basic \<times> b256 option"

text \<open>\<^verbatim>\<open>read_set.entry(l).or_default()\<close>, and the entry written back.\<close>

definition origins_of :: "vm_db \<Rightarrow> memory_location_hash \<Rightarrow> read_origins" where
  "origins_of db l = (case map_of (db_read_set db) l of Some os \<Rightarrow> os | None \<Rightarrow> [])"

definition set_origins :: "vm_db \<Rightarrow> memory_location_hash \<Rightarrow> read_origins \<Rightarrow> vm_db" where
  "set_origins db l os = db\<lparr>db_read_set := AList.update l os (db_read_set db)\<rparr>"

section \<open>Reads\<close>

definition hash_basic :: "('blob, 'eof) vm \<Rightarrow> vm_db \<Rightarrow> address \<Rightarrow> memory_location_hash option" where
  "hash_basic vm db a =
     (if a = te_caller (db_tx db) then Some (db_from_hash db)
      else if te_transact_to (db_tx db) = Call a then db_to_hash db
      else Some (vm_hash vm (LocBasic a)))"

definition push_origin :: "read_origins \<Rightarrow> read_origin \<Rightarrow> read_error + read_origins" where
  "push_origin os origin =
     (if os \<noteq> [] then (if last os \<noteq> origin then Inl InconsistentRead else Inr os) else Inr [origin])"

definition get_code_hash ::
    "('blob, 'eof) vm \<Rightarrow> 'eof bytecode mv_memory \<Rightarrow> vm_db \<Rightarrow> address \<Rightarrow> read_error + b256 option \<times> vm_db" where
  "get_code_hash vm m db a =
     (let l = vm_hash vm (LocCodeHash a);
          os = origins_of db l;
          from_storage = and_then (push_origin os OriginStorage) (\<lambda>os'.
            and_then (map_error ReadStorageError (st_code_hash (vm_storage vm) a)) (\<lambda>h.
              Inr (h, set_origins db l os')))
      in case mem_below m l (db_tx_idx db) of
           (j, Data inc SelfDestructed) # it \<Rightarrow> Inl SelfDestructedAccount
         | (j, Data inc (ValCodeHash h)) # it \<Rightarrow>
             and_then (push_origin os (OriginMvMemory \<lparr>tx_idx = j, tx_incarnation = inc\<rparr>)) (\<lambda>os'.
               Inr (Some h, set_origins db l os'))
         | _ \<Rightarrow> from_storage)"

text \<open>\<^verbatim>\<open>VmDb::new\<close>: the memory at the code hash of the recipient, and at the two tests of keys.\<close>

definition db_new ::
    "('blob, 'eof) vm \<Rightarrow> 'eof bytecode mv_memory \<Rightarrow> 'eof bytecode mv_memory \<Rightarrow> 'eof bytecode mv_memory \<Rightarrow> tx_idx_t
       \<Rightarrow> tx_env \<Rightarrow> memory_location_hash \<Rightarrow> memory_location_hash option \<Rightarrow> (read_error + vm_db) option" where
  "db_new vm m m1 m2 i tx from_hash to_hash =
     (let db = \<lparr>db_tx_idx = i, db_tx = tx, db_from_hash = from_hash, db_to_hash = to_hash, db_to_code_hash = None,
                db_is_lazy = False, db_read_set = [], db_read_accounts = Map.empty\<rparr>
      in case te_transact_to tx of
           Create \<Rightarrow> Some (Inr db)
         | Call to \<Rightarrow>
             (case get_code_hash vm m db to of
                Inl e \<Rightarrow> Some (Inl e)
              | Inr (h, db1) \<Rightarrow>
                  do {
                    is_lazy \<leftarrow>
                      (if h \<noteq> None then Some False
                       else if data m1 from_hash \<noteq> None then Some True
                       else do { t \<leftarrow> to_hash; Some (data m2 t \<noteq> None) });
                    Some (Inr (db1\<lparr>db_to_code_hash := h, db_is_lazy := is_lazy\<rparr>))
                  }))"

text \<open>
  The loop of \<^verbatim>\<open>basic\<close> that evaluates lazy updates, from the closest entry back to an absolute
  value: the origins read before, whether there are any, the entries, and the new origins, the
  magnitude and the sign of the balance added so far and the nonces added.
\<close>

fun evaluate_lazy ::
    "read_origins \<Rightarrow> bool \<Rightarrow> (tx_idx_t \<times> memory_entry) list \<Rightarrow> read_origins \<Rightarrow> u256 \<Rightarrow> bool \<Rightarrow> u64
       \<Rightarrow> read_error + account_basic option \<times> read_origins \<times> u256 \<times> bool \<times> u64" where
  "evaluate_lazy ros prev [] nos add pos na = Inr (None, nos, add, pos, na)"
| "evaluate_lazy ros prev ((j, Estimate) # it) nos add pos na = Inl (Blocking j)"
| "evaluate_lazy ros prev ((j, Data inc v) # it) nos add pos na =
     (let origin = OriginMvMemory \<lparr>tx_idx = j, tx_incarnation = inc\<rparr>;
          nos' = nos @ [origin]
      in if prev \<and> length ros = length nos then Inl InconsistentRead
         else if prev \<and> ros ! length nos \<noteq> origin then Inl InconsistentRead
         else (case v of
             ValBasic b \<Rightarrow> Inr (Some b, nos', add, pos, na)
           | LazyRecipient x \<Rightarrow>
               if pos then evaluate_lazy ros prev it nos' (sat_add add x) True na
               else evaluate_lazy ros prev it nos' (abs_diff add x) (add \<le> x) na
           | LazySender x \<Rightarrow>
               if pos then evaluate_lazy ros prev it nos' (abs_diff add x) (x \<le> add) (na + 1)
               else evaluate_lazy ros prev it nos' (sat_add add x) False (na + 1)
           | _ \<Rightarrow> Inl InvalidMemoryValueType))"

definition storage_account :: "('blob, 'eof) vm \<Rightarrow> address \<Rightarrow> u256 \<Rightarrow> read_error + account_basic option" where
  "storage_account vm a add =
     (case st_basic (vm_storage vm) a of
        Inr (Some b) \<Rightarrow> Inr (Some b)
      | Inr None \<Rightarrow> Inr (if add > 0 then Some default_account else None)
      | Inl e \<Rightarrow> Inl (ReadStorageError e))"

text \<open>The first half of \<^verbatim>\<open>basic\<close>: the account before its additions, and the origins.\<close>

definition resolve_account ::
    "('blob, 'eof) vm \<Rightarrow> 'eof bytecode mv_memory \<Rightarrow> vm_db \<Rightarrow> memory_location_hash \<Rightarrow> address
       \<Rightarrow> read_error + (account_basic option \<times> u256 \<times> bool \<times> u64) \<times> vm_db" where
  "resolve_account vm m db l a =
     (let ros = origins_of db l;
          prev = (ros \<noteq> []);
          it = (if db_tx_idx db > 0 then mem_below m l (db_tx_idx db) else [])
      in and_then (evaluate_lazy ros prev it [] 0 True 0) (\<lambda>(final, nos, add, pos, na).
         and_then
           (case final of
              Some b \<Rightarrow> Inr (Some b, nos)
            | None \<Rightarrow>
                if prev \<and> (length ros \<noteq> length nos + 1 \<or> last ros \<noteq> OriginStorage) then Inl InconsistentRead
                else and_then (storage_account vm a add) (\<lambda>acct. Inr (acct, nos @ [OriginStorage])))
           (\<lambda>(final', nos'). Inr ((final', add, pos, na), if prev then db else set_origins db l nos'))))"

definition load_code ::
    "('blob, 'eof) vm \<Rightarrow> 'eof bytecode mv_memory \<Rightarrow> b256 option \<Rightarrow> read_error + 'eof bytecode option" where
  "load_code vm m code_hash =
     (case code_hash of
        None \<Rightarrow> Inr None
      | Some h \<Rightarrow>
          (case new_bytecodes m h of
             Some c \<Rightarrow> Inr (Some c)
           | None \<Rightarrow>
               and_then (map_error ReadStorageError (st_code_by_hash (vm_storage vm) h))
                 (\<lambda>c. map_error InvalidBytecode (transpose_code (vm_revm vm) c))))"

text \<open>The second half: the nonce of the sender, the balance, and the code.\<close>

definition complete_account ::
    "('blob, 'eof) vm \<Rightarrow> 'eof bytecode mv_memory \<Rightarrow> 'eof bytecode mv_memory \<Rightarrow> vm_db \<Rightarrow> memory_location_hash
       \<Rightarrow> address \<Rightarrow> account_basic option \<times> u256 \<times> bool \<times> u64
       \<Rightarrow> read_error + 'eof account_info option \<times> vm_db" where
  "complete_account vm mc mb db l a = (\<lambda>(final, add, pos, na).
     case final of
       None \<Rightarrow> Inr (None, db)
     | Some account \<Rightarrow>
         let n = nonce account + na in
         if l = db_from_hash db \<and> (case te_nonce (db_tx db) of Some n' \<Rightarrow> n' \<noteq> n | None \<Rightarrow> False) then
           Inl (if db_tx_idx db > 0 then Blocking (db_tx_idx db - 1) else InvalidNonce (db_tx_idx db))
         else
           let b = (if pos then sat_add (balance account) add else sat_sub (balance account) add);
               acct = \<lparr>balance = b, nonce = n\<rparr>
           in and_then
                (if Some l = db_to_hash db then Inr (db_to_code_hash db, db) else get_code_hash vm mc db a)
                (\<lambda>(code_hash, db1).
                   and_then (load_code vm mb code_hash) (\<lambda>code.
                     Inr (Some \<lparr>info_balance = b, info_nonce = n,
                                info_code_hash = (case code_hash of Some h \<Rightarrow> h | None \<Rightarrow> keccak_empty (vm_revm vm)),
                                info_code = code\<rparr>,
                          db1\<lparr>db_read_accounts := (db_read_accounts db1)(l \<mapsto> (acct, code_hash))\<rparr>))))"

text \<open>
  \<^verbatim>\<open>basic\<close>: the memories are those at the account, at its code hash and at its code. A lazy
  transfer gets a mock of its sender, and no account for its recipient.
\<close>

definition lazy_sender_mock :: "('blob, 'eof) vm \<Rightarrow> vm_db \<Rightarrow> 'eof account_info" where
  "lazy_sender_mock vm db =
     \<lparr>info_balance = - 1, info_nonce = (case te_nonce (db_tx db) of Some n \<Rightarrow> n | None \<Rightarrow> 1),
      info_code_hash = keccak_empty (vm_revm vm), info_code = None\<rparr>"

definition db_basic ::
    "('blob, 'eof) vm \<Rightarrow> 'eof bytecode mv_memory \<Rightarrow> 'eof bytecode mv_memory \<Rightarrow> 'eof bytecode mv_memory \<Rightarrow> vm_db
       \<Rightarrow> address \<Rightarrow> (read_error + 'eof account_info option \<times> vm_db) option" where
  "db_basic vm m mc mb db a =
     do {
       l \<leftarrow> hash_basic vm db a;
       Some (
         if db_is_lazy db \<and> l = db_from_hash db then Inr (Some (lazy_sender_mock vm db), db)
         else if db_is_lazy db \<and> Some l = db_to_hash db then Inr (None, db)
         else and_then (resolve_account vm m db l a) (\<lambda>(acct, db1). complete_account vm mc mb db1 l a acct))
     }"

definition db_code_by_hash :: "('blob, 'eof) vm \<Rightarrow> b256 \<Rightarrow> read_error + 'eof bytecode" where
  "db_code_by_hash vm h =
     and_then (map_error ReadStorageError (st_code_by_hash (vm_storage vm) h)) (\<lambda>c.
       case c of
         Some code \<Rightarrow> map_error InvalidBytecode (bytecode_try_from (vm_revm vm) code)
       | None \<Rightarrow> Inr (default_bytecode (vm_revm vm)))"

definition db_storage ::
    "('blob, 'eof) vm \<Rightarrow> 'eof bytecode mv_memory \<Rightarrow> vm_db \<Rightarrow> address \<Rightarrow> u256 \<Rightarrow> read_error + u256 \<times> vm_db" where
  "db_storage vm m db a i =
     (let l = vm_hash vm (LocStorage a i);
          os = origins_of db l
      in case (if db_tx_idx db > 0 then mem_below m l (db_tx_idx db) else []) of
           (j, Data inc (ValStorage v)) # it \<Rightarrow>
             and_then (push_origin os (OriginMvMemory \<lparr>tx_idx = j, tx_incarnation = inc\<rparr>)) (\<lambda>os'.
               Inr (v, set_origins db l os'))
         | (j, Estimate) # it \<Rightarrow> Inl (Blocking j)
         | (j, e) # it \<Rightarrow> Inl InvalidMemoryValueType
         | [] \<Rightarrow>
             and_then (push_origin os OriginStorage) (\<lambda>os'.
               and_then (map_error ReadStorageError (st_storage (vm_storage vm) a i)) (\<lambda>v.
                 Inr (v, set_origins db l os'))))"

definition db_block_hash :: "('blob, 'eof) vm \<Rightarrow> u64 \<Rightarrow> read_error + b256" where
  "db_block_hash vm n = map_error ReadStorageError (st_block_hash (vm_storage vm) n)"

section \<open>A run\<close>

text \<open>
  revm on the database. \<open>ms k\<close> is the memory at the \<open>k\<close>th access, and \<open>k\<close> counts three accesses
  for every read.
\<close>

primrec run_evm ::
    "'eof evm_run \<Rightarrow> ('blob, 'eof) vm \<Rightarrow> (nat \<Rightarrow> 'eof bytecode mv_memory) \<Rightarrow> nat \<Rightarrow> vm_db
       \<Rightarrow> (read_error + (evm_error + 'eof result_and_state) \<times> vm_db) option" where
  "run_evm (Finished r) vm ms k db = Some (Inr (r, db))"
| "run_evm (AskBasic a f) vm ms k db =
     (case db_basic vm (ms k) (ms (k + 1)) (ms (k + 2)) db a of
        None \<Rightarrow> None
      | Some (Inl e) \<Rightarrow> Some (Inl e)
      | Some (Inr (x, db')) \<Rightarrow> run_evm (f x) vm ms (k + 3) db')"
| "run_evm (AskCode h f) vm ms k db =
     (case db_code_by_hash vm h of
        Inl e \<Rightarrow> Some (Inl e)
      | Inr c \<Rightarrow> run_evm (f c) vm ms (k + 3) db)"
| "run_evm (AskStorage a i f) vm ms k db =
     (case db_storage vm (ms k) db a i of
        Inl e \<Rightarrow> Some (Inl e)
      | Inr (v, db') \<Rightarrow> run_evm (f v) vm ms (k + 3) db')"
| "run_evm (AskBlockHash n f) vm ms k db =
     (case db_block_hash vm n of
        Inl e \<Rightarrow> Some (Inl e)
      | Inr h \<Rightarrow> run_evm (f h) vm ms (k + 3) db)"

end
