(* ===== verification/Vm_Execute.thy ===== *)
theory Vm_Execute
  imports Vm_Database
begin

text \<open>
  Executing one transaction, \<^verbatim>\<open>Vm::execute\<close> of \<^verbatim>\<open>vm.rs\<close>: the run of revm on the database of
  the transaction, the write set its result state leads to, the rewards, and recording it all in the
  multi-version memory. \<open>ms\<close> is the memory at each read and \<open>m\<close> the memory it is recorded in. The
  outer \<^const>\<open>None\<close> is a panic, or an index the scheduler never hands out.
\<close>

section \<open>Errors\<close>

datatype evm_execution_error = Database read_error | EvmFailed evm_error | CustomError string

datatype vm_execution_error =
    Retry
  | FallbackToSequential
  | VmBlocking tx_idx_t
  | VmExecutionError evm_execution_error

fun of_read_error :: "read_error \<Rightarrow> vm_execution_error" where
  "of_read_error InconsistentRead = Retry"
| "of_read_error SelfDestructedAccount = FallbackToSequential"
| "of_read_error (Blocking i) = VmBlocking i"
| "of_read_error e = VmExecutionError (Database e)"

section \<open>The run\<close>

definition vm_attempt ::
    "('blob, 'eof) vm \<Rightarrow> (nat \<Rightarrow> 'eof bytecode mv_memory) \<Rightarrow> tx_idx_t
       \<Rightarrow> (vm_execution_error + vm_db \<times> 'eof result_and_state) option" where
  "vm_attempt vm ms i =
     do {
       tx \<leftarrow> index_mutex (vm_txs vm) i;
       let from_hash = vm_hash vm (LocBasic (te_caller tx));
       let to_hash = map_option (\<lambda>to. vm_hash vm (LocBasic to)) (tx_kind_to (te_transact_to tx));
       created \<leftarrow> db_new vm (ms 0) (ms 1) (ms 2) i tx from_hash to_hash;
       (case created of
          Inl e \<Rightarrow> Some (Inl (of_read_error e))
        | Inr db \<Rightarrow>
            do {
              run \<leftarrow> run_evm (vm_transact vm tx) vm ms 3 db;
              Some (case run of
                 Inl e \<Rightarrow> Inl (of_read_error e)
               | Inr (Inr res, db') \<Rightarrow> Inr (db', res)
               | Inr (Inl err, db') \<Rightarrow>
                   Inl (if i > 0 \<and> (case err of LackOfFundForMaxFee _ _ \<Rightarrow> True | NonceTooHigh \<Rightarrow> True | OtherEvmError _ \<Rightarrow> False)
                        then VmBlocking (i - 1) else VmExecutionError (EvmFailed err)))
            })
     }"

section \<open>The write set\<close>

text \<open>The writes of a touched account, and the table of new byte codes with its code.\<close>

definition touched_writes ::
    "('blob, 'eof) vm \<Rightarrow> vm_db \<Rightarrow> (b256 \<rightharpoonup> 'eof bytecode) \<Rightarrow> address \<Rightarrow> 'eof revm_account
       \<Rightarrow> (write_set \<times> (b256 \<rightharpoonup> 'eof bytecode)) option" where
  "touched_writes vm db codes a acct =
     (let l = vm_hash vm (LocBasic a);
          info = acct_info acct;
          read_account = db_read_accounts db l;
          has_code = \<not> is_empty_code_hash acct;
          is_new_code = (has_code \<and> (case read_account of None \<Rightarrow> True | Some (_, code_hash) \<Rightarrow> code_hash = None));
          changed = (is_new_code \<or>
            (case read_account of None \<Rightarrow> True
             | Some (basic, _) \<Rightarrow> nonce basic \<noteq> info_nonce info \<or> balance basic \<noteq> info_balance info));
          ws = (if \<not> changed then []
                else if db_is_lazy db then
                  (if l = db_from_hash db then [(l, LazySender (- 1 - info_balance info))]
                   else if Some l = db_to_hash db then [(l, LazyRecipient (te_value (db_tx db)))]
                   else [])
                else if \<not> chain_eip_161 (vm_chain vm) (vm_spec_id vm) \<or> \<not> is_empty_account acct then
                  [(l, ValBasic \<lparr>balance = info_balance info, nonce = info_nonce info\<rparr>)]
                else [])
      in if is_new_code then
           do {
             codes' \<leftarrow> (case codes (info_code_hash info) of
                          Some _ \<Rightarrow> Some codes
                        | None \<Rightarrow> do { c \<leftarrow> info_code info; Some (codes(info_code_hash info \<mapsto> c)) });
             Some (ws @ [(vm_hash vm (LocCodeHash a), ValCodeHash (info_code_hash info))], codes')
           }
         else Some (ws, codes))"

fun account_writes ::
    "('blob, 'eof) vm \<Rightarrow> vm_db \<Rightarrow> (b256 \<rightharpoonup> 'eof bytecode) \<Rightarrow> (address \<times> 'eof revm_account) list
       \<Rightarrow> (write_set \<times> (b256 \<rightharpoonup> 'eof bytecode)) option" where
  "account_writes vm db codes [] = Some ([], codes)"
| "account_writes vm db codes ((a, acct) # accts) =
     (if is_selfdestructed acct then
        do {
          (ws, codes') \<leftarrow> account_writes vm db codes accts;
          Some ((vm_hash vm (LocCodeHash a), SelfDestructed) # ws, codes')
        }
      else
        do {
          (ws1, codes1) \<leftarrow> (if is_touched acct then touched_writes vm db codes a acct else Some ([], codes));
          (ws, codes') \<leftarrow> account_writes vm db codes1 accts;
          Some (ws1 @ map (\<lambda>(slot, v). (vm_hash vm (LocStorage a slot), ValStorage v)) (changed_storage_slots acct) @ ws,
                codes')
        })"

section \<open>Rewards\<close>

text \<open>An amount goes to the first write of its recipient, or to a new lazy one.\<close>

fun pay_reward :: "write_set \<Rightarrow> memory_location_hash \<times> u256 \<Rightarrow> read_error + write_set" where
  "pay_reward [] (recipient, amount) = Inr [(recipient, LazyRecipient amount)]"
| "pay_reward ((l, v) # ws) (recipient, amount) =
     (if l = recipient then
        (case v of
           ValBasic basic \<Rightarrow> Inr ((l, ValBasic (basic\<lparr>balance := sat_add (balance basic) amount\<rparr>)) # ws)
         | LazySender subtraction \<Rightarrow> Inr ((l, LazySender (sat_sub subtraction amount)) # ws)
         | LazyRecipient addition \<Rightarrow> Inr ((l, LazyRecipient (sat_add addition amount)) # ws)
         | _ \<Rightarrow> Inl InvalidMemoryValueType)
      else and_then (pay_reward ws (recipient, amount)) (\<lambda>ws'. Inr ((l, v) # ws')))"

fun pay_rewards :: "write_set \<Rightarrow> (memory_location_hash \<times> u256) list \<Rightarrow> read_error + write_set" where
  "pay_rewards ws [] = Inr ws"
| "pay_rewards ws (r # rs) = and_then (pay_reward ws r) (\<lambda>ws'. pay_rewards ws' rs)"

definition reward_gas_price :: "('blob, 'eof) vm \<Rightarrow> tx_env \<Rightarrow> u256" where
  "reward_gas_price vm tx =
     (let basefee = be_basefee (vm_block_env vm);
          gas_price = (case te_gas_priority_fee tx of
                         Some priority_fee \<Rightarrow> min (te_gas_price tx) (sat_add priority_fee basefee)
                       | None \<Rightarrow> te_gas_price tx)
      in if chain_eip_1559 (vm_chain vm) (vm_spec_id vm) then sat_sub gas_price basefee else gas_price)"

definition apply_rewards ::
    "('blob, 'eof) vm \<Rightarrow> tx_env \<Rightarrow> u256 \<Rightarrow> (byte list \<Rightarrow> u256) option \<Rightarrow> write_set
       \<Rightarrow> (read_error + write_set) option" where
  "apply_rewards vm tx gas_used l1_cost ws =
     (let gas_price = reward_gas_price vm tx;
          beneficiary = (vm_beneficiary_location_hash vm, sat_mul gas_price gas_used)
      in case vm_reward_policy vm of
           RewardEthereum \<Rightarrow> Some (pay_rewards ws [beneficiary])
         | RewardOptimism l1_fee_recipient base_fee_vault \<Rightarrow>
             if op_source_hash (te_optimism tx) \<noteq> None then Some (pay_rewards ws [])
             else do {
               enveloped_tx \<leftarrow> op_enveloped_tx (te_optimism tx);
               cost \<leftarrow> l1_cost;
               Some (pay_rewards ws
                 [beneficiary, (l1_fee_recipient, cost enveloped_tx),
                  (base_fee_vault, sat_mul (be_basefee (vm_block_env vm)) gas_used)])
             })"

section \<open>Execution\<close>

definition vm_writes ::
    "('blob, 'eof) vm \<Rightarrow> vm_db \<Rightarrow> 'eof result_and_state \<Rightarrow> (b256 \<rightharpoonup> 'eof bytecode)
       \<Rightarrow> ((read_error + write_set) \<times> (b256 \<rightharpoonup> 'eof bytecode)) option" where
  "vm_writes vm db res codes =
     do {
       (ws, codes') \<leftarrow> account_writes vm db codes (rs_state res);
       r \<leftarrow> apply_rewards vm (db_tx db) (ucast (rs_gas_used res)) (rs_l1_cost res) ws;
       Some (r, codes')
     }"

text \<open>The accounts of a lazy transfer are noted for evaluation at the end of the block.\<close>

definition note_lazy :: "vm_db \<Rightarrow> 'code mv_memory \<Rightarrow> 'code mv_memory option" where
  "note_lazy db m =
     (if db_is_lazy db
      then map_option (\<lambda>to. add_lazy_addresses m [te_caller (db_tx db), to]) (tx_kind_to (te_transact_to (db_tx db)))
      else Some m)"

definition execution_flags :: "tx_idx_t \<Rightarrow> bool \<Rightarrow> bool \<Rightarrow> finish_exec_flags" where
  "execution_flags i is_lazy wrote_new =
     (let flags = (if i > 0 \<and> \<not> is_lazy then NeedValidation else 0)
      in if wrote_new then flags OR WroteNewLocation else flags)"

definition vm_execute ::
    "('blob, 'eof) vm \<Rightarrow> (nat \<Rightarrow> 'eof bytecode mv_memory) \<Rightarrow> 'eof bytecode mv_memory \<Rightarrow> tx_version
       \<Rightarrow> ((vm_execution_error + pexe_tx_execution_result \<times> finish_exec_flags) \<times> 'eof bytecode mv_memory) option" where
  "vm_execute vm ms m v =
     do {
       attempt \<leftarrow> vm_attempt vm ms (tx_idx v);
       (case attempt of
          Inl e \<Rightarrow> Some (Inl e, m)
        | Inr (db, res) \<Rightarrow>
            do {
              (writes, codes) \<leftarrow> vm_writes vm db res (new_bytecodes m);
              (case writes of
                 Inl e \<Rightarrow> Some (Inl (of_read_error e), m\<lparr>new_bytecodes := codes\<rparr>)
               | Inr write_set \<Rightarrow>
                   do {
                     m1 \<leftarrow> note_lazy db (m\<lparr>new_bytecodes := codes\<rparr>);
                     (m2, wrote_new) \<leftarrow> mv_record m1 v (db_read_set db) write_set;
                     execution_result \<leftarrow> result_from_revm (vm_revm vm)
                       (chain_eip_161 (vm_chain vm) (vm_spec_id vm)) res;
                     Some (Inr (execution_result, execution_flags (tx_idx v) (db_is_lazy db) wrote_new), m2)
                   })
            })
     }"

end
