(* ===== verification/Pexe_Block.thy ===== *)
theory Pexe_Block
  imports Vm_Execute
begin

text \<open>
  What \<^verbatim>\<open>pexe.rs\<close> does around the worker threads: the choice between the sequential and the
  parallel path, the sequential path, and what the parallel path does once its threads have left:
  the abort reason, the receipts, and the accounts that were only updated lazily. How the threads
  interleave is an argument here (\<^verbatim>\<open>Scheduler_Machine\<close> and \<^verbatim>\<open>Engine\<close> say how), and so is
  revm's \<^verbatim>\<open>CacheDB\<close>. The outer \<^const>\<open>None\<close> is a panic.
\<close>

section \<open>Errors and state\<close>

datatype ('be, 'te) pexe_error =
    BlockSpecError 'be
  | MissingTransactionData
  | InvalidTransaction 'te
  | NonceMismatch tx_idx_t u64 u64
  | PexeStorageError string
  | PexeExecutionError evm_execution_error
  | UnreachableError

type_synonym ('be, 'te) pexe_result = "(('be, 'te) pexe_error + pexe_tx_execution_result list) option"

datatype abort_reason_t = AbortFallback | AbortExecution evm_execution_error

record pexe =
  execution_results :: "pexe_tx_execution_result option list"
  pexe_abort_reason :: "abort_reason_t option"

text \<open>An answer that is a panic, an error or a value.\<close>

definition and_try :: "('e + 'a) option \<Rightarrow> ('a \<Rightarrow> ('e + 'b) option) \<Rightarrow> ('e + 'b) option" where
  "and_try r f = (case r of None \<Rightarrow> None | Some (Inl e) \<Rightarrow> Some (Inl e) | Some (Inr x) \<Rightarrow> f x)"

lemma and_try_simps [simp]:
  "and_try None f = None" "and_try (Some (Inl e)) f = Some (Inl e)" "and_try (Some (Inr x)) f = f x"
  by (simp_all add: and_try_def)

lemma and_try_InrE:
  assumes "and_try r f = Some (Inr y)"
  obtains x where "r = Some (Inr x)" "f x = Some (Inr y)"
  using assms by (auto simp: and_try_def split: option.splits sum.splits)

section \<open>Choosing a path\<close>

datatype 'tx block_transactions = Full "'tx list" | NotFull

definition pexe_execute ::
    "(u64 \<Rightarrow> bool \<Rightarrow> 'blob) \<Rightarrow> (header \<Rightarrow> 'be + spec_id) \<Rightarrow> ('tx \<Rightarrow> 'te + tx_env)
       \<Rightarrow> (spec_id \<Rightarrow> 'blob block_env \<Rightarrow> tx_env list \<Rightarrow> ('be, 'te) pexe_result)
       \<Rightarrow> (spec_id \<Rightarrow> 'blob block_env \<Rightarrow> tx_env list \<Rightarrow> nat \<Rightarrow> ('be, 'te) pexe_result)
       \<Rightarrow> header \<Rightarrow> 'tx block_transactions \<Rightarrow> nat \<Rightarrow> bool \<Rightarrow> ('be, 'te) pexe_result" where
  "pexe_execute blob_new block_spec tx_env_of sequential parallel h txs concurrency_level force_sequential =
     and_try (Some (map_error BlockSpecError (block_spec h))) (\<lambda>spec_id.
       let block_env = get_block_env blob_new h spec_id
       in and_try
            (case txs of
               Full l \<Rightarrow> Some (map_error InvalidTransaction (collect_results (map tx_env_of l)))
             | NotFull \<Rightarrow> Some (Inl MissingTransactionData))
            (\<lambda>tx_envs.
               if force_sequential \<or> length tx_envs < concurrency_level \<or> hd_gas_used h < 4000000
               then sequential spec_id block_env tx_envs
               else parallel spec_id block_env tx_envs concurrency_level))"

section \<open>The sequential path\<close>

text \<open>The evm on revm's \<^verbatim>\<open>CacheDB\<close>: a transaction, and the commitment of its state.\<close>

record ('db, 'eof) cache_evm =
  cache_new :: "evm_storage \<Rightarrow> 'db"
  cache_transact :: "'db \<Rightarrow> tx_env \<Rightarrow> (string + 'eof result_and_state) \<times> 'db"
  cache_commit :: "'db \<Rightarrow> (address \<times> 'eof revm_account) list \<Rightarrow> 'db"

definition set_cumulative_gas :: "pexe_tx_execution_result \<Rightarrow> u64 \<Rightarrow> pexe_tx_execution_result" where
  "set_cumulative_gas r gas = r\<lparr>per_receipt := (per_receipt r)\<lparr>rc_cumulative_gas_used := gas\<rparr>\<rparr>"

fun sequential_loop ::
    "'eof revm_code \<Rightarrow> bool \<Rightarrow> ('db, 'eof) cache_evm \<Rightarrow> 'db \<Rightarrow> u64 \<Rightarrow> tx_env list \<Rightarrow> ('be, 'te) pexe_result" where
  "sequential_loop R eip_161 E db cumulative_gas_used [] = Some (Inr [])"
| "sequential_loop R eip_161 E db cumulative_gas_used (tx # txs) =
     (case cache_transact E db tx of
        (Inl e, _) \<Rightarrow> Some (Inl (PexeExecutionError (CustomError e)))
      | (Inr result_and_state, db') \<Rightarrow>
          do {
            execution_result \<leftarrow> result_from_revm R eip_161 result_and_state;
            let gas = sat_add cumulative_gas_used (rc_cumulative_gas_used (per_receipt execution_result));
            and_try (sequential_loop R eip_161 E (cache_commit E db' (rs_state result_and_state)) gas txs)
              (\<lambda>results. Some (Inr (set_cumulative_gas execution_result gas # results)))
          })"

definition execute_revm_sequential ::
    "'eof revm_code \<Rightarrow> (spec_id \<Rightarrow> 'blob block_env \<Rightarrow> ('db, 'eof) cache_evm) \<Rightarrow> ('blob, 'code) pexe_chain
       \<Rightarrow> evm_storage \<Rightarrow> spec_id \<Rightarrow> 'blob block_env \<Rightarrow> tx_env list \<Rightarrow> ('be, 'te) pexe_result" where
  "execute_revm_sequential R evm chain st spec_id block_env txs =
     (let E = evm spec_id block_env
      in sequential_loop R (chain_eip_161 chain spec_id) E (cache_new E st) 0 txs)"

section \<open>Finishing a parallel block\<close>

text \<open>Places for the results of a block; those of an earlier, larger block are kept.\<close>

definition reserve_results :: "nat \<Rightarrow> pexe \<Rightarrow> pexe" where
  "reserve_results block_size p =
     p\<lparr>execution_results := execution_results p @ replicate (block_size - length (execution_results p)) None\<rparr>"

text \<open>The results are taken out one by one, a missing one being a panic.\<close>

fun take_results :: "pexe_tx_execution_result option list \<Rightarrow> nat \<Rightarrow> nat \<Rightarrow> u64
    \<Rightarrow> (pexe_tx_execution_result list \<times> pexe_tx_execution_result option list) option" where
  "take_results rs i 0 cumulative_gas_used = Some ([], rs)"
| "take_results rs i (Suc k) cumulative_gas_used =
     do {
       slot \<leftarrow> index_mutex rs i;
       execution_result \<leftarrow> slot;
       let gas = sat_add cumulative_gas_used (rc_cumulative_gas_used (per_receipt execution_result));
       (results, rs') \<leftarrow> take_results (rs[i := None]) (Suc i) k gas;
       Some (set_cumulative_gas execution_result gas # results, rs')
     }"

definition lazy_max_fee :: "tx_env \<Rightarrow> u256" where
  "lazy_max_fee tx =
     (let max_fee = sat_add (sat_mul (ucast (te_gas_limit tx)) (te_gas_price tx)) (te_value tx)
      in case te_max_fee_per_blob_gas tx of
           None \<Rightarrow> max_fee
         | Some blob_fee \<Rightarrow> sat_add max_fee (sat_mul (ucast (te_total_blob_gas tx)) blob_fee))"

text \<open>The balance and the nonce after one entry.\<close>

definition settle_entry :: "tx_env \<Rightarrow> u256 \<times> u64 \<Rightarrow> memory_entry \<Rightarrow> (('be, 'te) pexe_error + u256 \<times> u64) option" where
  "settle_entry tx acct entry =
     (case entry of
        Data _ (ValBasic info) \<Rightarrow> Some (Inr (balance info, nonce info))
      | Data _ (LazyRecipient addition) \<Rightarrow> Some (Inr (sat_add (fst acct) addition, snd acct))
      | Data _ (LazySender subtraction) \<Rightarrow>
          if fst acct < lazy_max_fee tx
          then Some (Inl (PexeExecutionError (EvmFailed (LackOfFundForMaxFee (fst acct) (lazy_max_fee tx)))))
          else Some (Inr (sat_sub (fst acct) subtraction, snd acct + 1))
      | _ \<Rightarrow> None)"

definition check_executed_nonce :: "tx_idx_t \<Rightarrow> tx_env \<Rightarrow> address \<Rightarrow> u64 \<Rightarrow> ('be, 'te) pexe_error + unit" where
  "check_executed_nonce i tx a n =
     (case te_nonce tx of
        None \<Rightarrow> Inr ()
      | Some tx_nonce \<Rightarrow>
          if te_caller tx \<noteq> a then Inr ()
          else if n = 0 then Inl UnreachableError
          else if tx_nonce \<noteq> n - 1 then Inl (NonceMismatch i tx_nonce (n - 1))
          else Inr ())"

text \<open>The account of an address in the state of a result.\<close>

definition settled_account ::
    "bool \<Rightarrow> b256 option \<Rightarrow> evm_code option \<Rightarrow> u256 \<times> u64 \<Rightarrow> evm_account option \<Rightarrow> evm_account option" where
  "settled_account eip_161 code_hash code acct account =
     (if eip_161 \<and> code_hash = None \<and> snd acct = 0 \<and> fst acct = 0 then None
      else case account of
             Some x \<Rightarrow> Some (x\<lparr>ea_balance := fst acct, ea_nonce := snd acct\<rparr>)
           | None \<Rightarrow> Some \<lparr>ea_balance = fst acct, ea_nonce = snd acct, ea_code_hash = code_hash, ea_code = code,
                           ea_storage = []\<rparr>)"

definition settle_result ::
    "bool \<Rightarrow> address \<Rightarrow> b256 option \<Rightarrow> evm_code option \<Rightarrow> u256 \<times> u64 \<Rightarrow> pexe_tx_execution_result
       \<Rightarrow> pexe_tx_execution_result" where
  "settle_result eip_161 a code_hash code acct r =
     (let account = (case per_state r a of Some x \<Rightarrow> x | None \<Rightarrow> None)
      in r\<lparr>per_state := (per_state r)(a \<mapsto> settled_account eip_161 code_hash code acct account)\<rparr>)"

fun evaluate_history ::
    "('blob, 'eof) vm \<Rightarrow> address \<Rightarrow> b256 option \<Rightarrow> evm_code option \<Rightarrow> (tx_idx_t \<times> memory_entry) list \<Rightarrow> u256 \<times> u64
       \<Rightarrow> pexe_tx_execution_result list \<Rightarrow> ('be, 'te) pexe_result" where
  "evaluate_history vm a code_hash code [] acct results = Some (Inr results)"
| "evaluate_history vm a code_hash code ((i, entry) # history) acct results =
     do {
       tx \<leftarrow> index_mutex (vm_txs vm) i;
       and_try (settle_entry tx acct entry) (\<lambda>acct'.
       and_try (Some (check_executed_nonce i tx a (snd acct'))) (\<lambda>_.
         do {
           r \<leftarrow> index_mutex results i;
           evaluate_history vm a code_hash code history acct'
             (results[i := settle_result (chain_eip_161 (vm_chain vm) (vm_spec_id vm)) a code_hash code acct' r])
         }))
     }"

text \<open>Storage is read unless the history begins with an absolute value.\<close>

definition initial_account :: "('blob, 'eof) vm \<Rightarrow> address \<Rightarrow> memory_entry btree \<Rightarrow> u256 \<times> u64" where
  "initial_account vm a write_history =
     (case write_history of
        (_, Data _ (ValBasic _)) # _ \<Rightarrow> (0, 0)
      | _ \<Rightarrow>
          (case st_basic (vm_storage vm) a of
             Inr (Some account) \<Rightarrow> (balance account, nonce account)
           | _ \<Rightarrow> (0, 0)))"

definition evaluate_address ::
    "('blob, 'eof) vm \<Rightarrow> 'eof bytecode mv_memory \<Rightarrow> address \<Rightarrow> pexe_tx_execution_result list
       \<Rightarrow> ('be, 'te) pexe_result" where
  "evaluate_address vm m a results =
     (case data m (vm_hash vm (LocBasic a)) of
        None \<Rightarrow> Some (Inr results)
      | Some write_history \<Rightarrow>
          and_try (Some (map_error PexeStorageError (st_code_hash (vm_storage vm) a))) (\<lambda>code_hash.
          and_try
            (case code_hash of
               Some h \<Rightarrow> Some (map_error PexeStorageError (st_code_by_hash (vm_storage vm) h))
             | None \<Rightarrow> Some (Inr None))
            (\<lambda>code. evaluate_history vm a code_hash code write_history (initial_account vm a write_history) results)))"

fun evaluate_addresses ::
    "('blob, 'eof) vm \<Rightarrow> 'eof bytecode mv_memory \<Rightarrow> address list \<Rightarrow> pexe_tx_execution_result list
       \<Rightarrow> ('be, 'te) pexe_result" where
  "evaluate_addresses vm m [] results = Some (Inr results)"
| "evaluate_addresses vm m (a # as) results =
     and_try (evaluate_address vm m a results) (evaluate_addresses vm m as)"

definition finish_parallel ::
    "('be, 'te) pexe_result \<Rightarrow> ('blob, 'eof) vm \<Rightarrow> 'eof bytecode mv_memory \<Rightarrow> pexe
       \<Rightarrow> ('be, 'te) pexe_result \<times> pexe" where
  "finish_parallel sequential vm m p =
     (case pexe_abort_reason p of
        Some AbortFallback \<Rightarrow> (sequential, p\<lparr>pexe_abort_reason := None\<rparr>)
      | Some (AbortExecution err) \<Rightarrow> (Some (Inl (PexeExecutionError err)), p\<lparr>pexe_abort_reason := None\<rparr>)
      | None \<Rightarrow>
          (case take_results (execution_results p) 0 (length (vm_txs vm)) 0 of
             None \<Rightarrow> (None, p)
           | Some (results, slots') \<Rightarrow>
               let (m', lazy) = consume_lazy_addresses m
               in (evaluate_addresses vm m' lazy results, p\<lparr>execution_results := slots'\<rparr>)))"

text \<open>
  \<open>workers\<close> is what the threads leave of the memory, the results and the abort reason, in some
  interleaving, when they start on what they are given.
\<close>

definition execute_revm_parallel ::
    "(memory_location \<Rightarrow> u64) \<Rightarrow> 'eof revm_code \<Rightarrow> (spec_id \<Rightarrow> 'blob block_env \<Rightarrow> tx_env \<Rightarrow> 'eof evm_run)
       \<Rightarrow> (('blob, 'eof) vm \<Rightarrow> nat \<Rightarrow> 'eof bytecode mv_memory \<times> pexe \<Rightarrow> 'eof bytecode mv_memory \<times> pexe)
       \<Rightarrow> ('be, 'te) pexe_result \<Rightarrow> ('blob, 'eof bytecode) pexe_chain \<Rightarrow> evm_storage \<Rightarrow> spec_id \<Rightarrow> 'blob block_env
       \<Rightarrow> tx_env list \<Rightarrow> nat \<Rightarrow> pexe \<Rightarrow> ('be, 'te) pexe_result \<times> pexe" where
  "execute_revm_parallel fx R transact workers sequential chain st spec_id block_env txs concurrency_level p =
     (if txs = [] then (Some (Inr []), p)
      else
        let mv_memory = chain_build_mv_memory chain block_env txs;
            vm = vm_new fx R transact st chain block_env txs spec_id;
            (m, p') = workers vm concurrency_level (mv_memory, reserve_results (length txs) p)
        in finish_parallel sequential vm m p')"

end
