(* ===== verification/Engine.thy ===== *)
theory Engine
  imports Scheduler_Machine Pexe_Block
begin

text \<open>
  The whole parallel engine: the worker threads of \<^verbatim>\<open>Scheduler_Machine\<close>, the multi-version memory
  they share, and the virtual machine, as \<^verbatim>\<open>try_execute\<close> and \<^verbatim>\<open>try_validate\<close> of
  \<^verbatim>\<open>pexe.rs\<close> put them together. What was a free choice of the worker machine is now the answer of the
  virtual machine or of a validation. An execution may have read any memories of the past, in their
  order; a validation checks its locations one by one, each in the memory it meets; recording an
  execution and marking the writes of an aborted one are one step each.
\<close>

section \<open>Between two steps of the scheduler\<close>

text \<open>
  How far a thread is with the task of its program counter: an execution is recorded but not yet
  finished, a validation has some origins left to check or has failed, the writes of an aborted
  version are marked, a reason for aborting the block is yet to be set.
\<close>

datatype stage =
    Fresh
  | Recorded pexe_tx_execution_result finish_exec_flags
  | Checking read_set
  | Failed
  | Converted
  | Faulted abort_reason_t

text \<open>What \<^verbatim>\<open>try_execute\<close> does with an error of the virtual machine.\<close>

fun choice_of_error :: "vm_execution_error \<Rightarrow> choice" where
  "choice_of_error Retry = ExecRetry"
| "choice_of_error (VmBlocking b) = ExecBlocking b"
| "choice_of_error _ = ExecFatal"

fun stage_of_error :: "vm_execution_error \<Rightarrow> stage" where
  "stage_of_error FallbackToSequential = Faulted AbortFallback"
| "stage_of_error (VmExecutionError e) = Faulted (AbortExecution e)"
| "stage_of_error _ = Fresh"

definition get_or_init :: "abort_reason_t \<Rightarrow> pexe \<Rightarrow> pexe" where
  "get_or_init r p = (case pexe_abort_reason p of None \<Rightarrow> p\<lparr>pexe_abort_reason := Some r\<rparr> | Some _ \<Rightarrow> p)"

definition store_result :: "tx_idx_t \<Rightarrow> pexe_tx_execution_result \<Rightarrow> pexe \<Rightarrow> pexe" where
  "store_result i r p = p\<lparr>execution_results := (execution_results p)[i := Some r]\<rparr>"

record 'eof local =
  tl_sched :: scheduler
  tl_reason :: bool
  tl_pc :: pc
  tl_stage :: stage
  tl_memory :: "'eof bytecode mv_memory"
  tl_outcome :: pexe

text \<open>A step of the scheduler with a given answer, after which the thread is at stage \<open>\<sigma>\<close>.\<close>

definition advance :: "(u8 \<Rightarrow> u8 \<Rightarrow> bool) \<Rightarrow> choice \<Rightarrow> stage \<Rightarrow> 'eof local \<Rightarrow> 'eof local option" where
  "advance c x \<sigma> L =
     map_option (\<lambda>(s, reason, p). L\<lparr>tl_sched := s, tl_reason := reason, tl_pc := p, tl_stage := \<sigma>\<rparr>)
       (thread_step c x (tl_sched L) (tl_reason L) (tl_pc L))"

definition try_execute_task ::
    "(u8 \<Rightarrow> u8 \<Rightarrow> bool) \<Rightarrow> ('blob, 'eof) vm \<Rightarrow> (nat \<Rightarrow> 'eof bytecode mv_memory) \<Rightarrow> tx_version \<Rightarrow> 'eof local
       \<Rightarrow> 'eof local option" where
  "try_execute_task c vm ms v L =
     (case tl_stage L of
        Recorded r flags \<Rightarrow> advance c (ExecOk flags) Fresh (L\<lparr>tl_outcome := store_result (tx_idx v) r (tl_outcome L)\<rparr>)
      | _ \<Rightarrow>
          do {
            (answer, m) \<leftarrow> vm_execute vm ms (tl_memory L) v;
            (case answer of
               Inr (r, flags) \<Rightarrow> Some (L\<lparr>tl_memory := m, tl_stage := Recorded r flags\<rparr>)
             | Inl e \<Rightarrow> advance c (choice_of_error e) (stage_of_error e) (L\<lparr>tl_memory := m\<rparr>))
          })"

definition try_validate_task ::
    "(u8 \<Rightarrow> u8 \<Rightarrow> bool) \<Rightarrow> tx_version \<Rightarrow> 'eof local \<Rightarrow> 'eof local option" where
  "try_validate_task c v L =
     (case tl_stage L of
        Checking [] \<Rightarrow> advance c (ReadsValid True) Fresh L
      | Checking (r # rs) \<Rightarrow>
          Some (L\<lparr>tl_stage := if validate_location (tl_memory L) (tx_idx v) r then Checking rs else Failed\<rparr>)
      | Failed \<Rightarrow> advance c (ReadsValid False) Fresh L
      | _ \<Rightarrow>
          do {
            last \<leftarrow> index_mutex (last_locations (tl_memory L)) (tx_idx v);
            Some (L\<lparr>tl_stage := Checking (ll_read last)\<rparr>)
          })"

definition local_step ::
    "(u8 \<Rightarrow> u8 \<Rightarrow> bool) \<Rightarrow> ('blob, 'eof) vm \<Rightarrow> (nat \<Rightarrow> 'eof bytecode mv_memory) \<Rightarrow> 'eof local \<Rightarrow> 'eof local option" where
  "local_step c vm ms L =
     (case tl_pc L of
        HasTask (Execution v) \<Rightarrow> try_execute_task c vm ms v L
      | HasTask (Validation v) \<Rightarrow> try_validate_task c v L
      | AbortSucceeded v \<Rightarrow>
          (if tl_stage L = Converted then advance c ExecRetry Fresh L
           else do {
             m \<leftarrow> convert_writes_to_estimates (tl_memory L) (tx_idx v);
             Some (L\<lparr>tl_memory := m, tl_stage := Converted\<rparr>)
           })
      | SetReason \<Rightarrow>
          (case tl_stage L of
             Faulted r \<Rightarrow> advance c ExecRetry Fresh (L\<lparr>tl_outcome := get_or_init r (tl_outcome L)\<rparr>)
           | _ \<Rightarrow> None)
      | _ \<Rightarrow> advance c ExecRetry Fresh L)"

section \<open>The engine\<close>

record 'eof engine =
  workers :: machine
  stages :: "stage list"
  memory :: "'eof bytecode mv_memory"
  past :: "'eof bytecode mv_memory list"
  outcome :: pexe

definition engine_init :: "('blob, 'eof) vm \<Rightarrow> nat \<Rightarrow> pexe \<Rightarrow> 'eof engine" where
  "engine_init vm concurrency_level p =
     (let n = length (vm_txs vm);
          m = chain_build_mv_memory (vm_chain vm) (vm_block_env vm) (vm_txs vm)
      in \<lparr>workers = machine_init n concurrency_level, stages = replicate concurrency_level Fresh, memory = m,
          past = [m], outcome = reserve_results n p\<rparr>)"

definition local_of :: "'eof engine \<Rightarrow> nat \<Rightarrow> 'eof local" where
  "local_of e k =
     \<lparr>tl_sched = sched (workers e), tl_reason = abort_reason (workers e), tl_pc = pcs (workers e) ! k,
      tl_stage = stages e ! k, tl_memory = memory e, tl_outcome = outcome e\<rparr>"

definition put_local :: "'eof engine \<Rightarrow> nat \<Rightarrow> 'eof local \<Rightarrow> 'eof engine" where
  "put_local e k L =
     \<lparr>workers = \<lparr>sched = tl_sched L, abort_reason = tl_reason L, pcs = (pcs (workers e))[k := tl_pc L]\<rparr>,
      stages = (stages e)[k := tl_stage L], memory = tl_memory L, past = past e @ [tl_memory L], outcome = tl_outcome L\<rparr>"

text \<open>The memories of an execution: those of the past, in their order.\<close>

definition observed :: "'m list \<Rightarrow> (nat \<Rightarrow> 'm) \<Rightarrow> bool" where
  "observed hist ms \<longleftrightarrow> (\<exists>f. mono f \<and> (\<forall>k. f k < length hist \<and> ms k = hist ! f k))"

inductive engine_step :: "(u8 \<Rightarrow> u8 \<Rightarrow> bool) \<Rightarrow> ('blob, 'eof) vm \<Rightarrow> 'eof engine \<Rightarrow> 'eof engine \<Rightarrow> bool" for c vm where
  thread:
    "\<lbrakk> k < length (pcs (workers e)); observed (past e) ms; local_step c vm ms (local_of e k) = Some L \<rbrakk>
     \<Longrightarrow> engine_step c vm e (put_local e k L)"

inductive_cases engine_stepE: "engine_step c vm e e'"

lemma local_of_simps [simp]:
  "tl_sched (local_of e k) = sched (workers e)" "tl_reason (local_of e k) = abort_reason (workers e)"
  "tl_pc (local_of e k) = pcs (workers e) ! k" "tl_stage (local_of e k) = stages e ! k"
  "tl_memory (local_of e k) = memory e" "tl_outcome (local_of e k) = outcome e"
  by (simp_all add: local_of_def)

lemma put_local_simps [simp]:
  "sched (workers (put_local e k L)) = tl_sched L" "abort_reason (workers (put_local e k L)) = tl_reason L"
  "pcs (workers (put_local e k L)) = (pcs (workers e))[k := tl_pc L]" "stages (put_local e k L) = (stages e)[k := tl_stage L]"
  "memory (put_local e k L) = tl_memory L" "past (put_local e k L) = past e @ [tl_memory L]"
  "outcome (put_local e k L) = tl_outcome L"
  by (simp_all add: put_local_def)

section \<open>The answers are admissible\<close>

definition db_wf :: "tx_idx_t \<Rightarrow> vm_db \<Rightarrow> bool" where
  "db_wf i db \<longleftrightarrow> db_tx_idx db = i \<and> wf_reads (db_read_set db)"

definition blocks_below :: "tx_idx_t \<Rightarrow> read_error \<Rightarrow> bool" where
  "blocks_below i e \<longleftrightarrow> (\<forall>b. e = Blocking b \<longrightarrow> b < i)"

text \<open>A read keeps the database in order, and blocks on a lower transaction only.\<close>

definition read_wf :: "tx_idx_t \<Rightarrow> read_error + 'a \<times> vm_db \<Rightarrow> bool" where
  "read_wf i r \<longleftrightarrow> (case r of Inl e \<Rightarrow> blocks_below i e | Inr (x, db) \<Rightarrow> db_wf i db)"

lemma mem_below_lower: "(j, e) \<in> set (mem_below m l i) \<Longrightarrow> j < i"
  by (auto simp: mem_below_def bt_below_def dest: set_takeWhileD split: option.splits)

lemma wf_reads_update:
  "wf_reads rs \<Longrightarrow> wf_origins os \<Longrightarrow> wf_reads (AList.update l os rs)"
  by (induction rs) (auto simp: wf_reads_def)

lemma db_wf_set_origins: "db_wf i db \<Longrightarrow> wf_origins os \<Longrightarrow> db_wf i (set_origins db l os)"
  by (simp add: db_wf_def set_origins_def wf_reads_update)

lemma origins_wf: "db_wf i db \<Longrightarrow> origins_of db l = [] \<or> wf_origins (origins_of db l)"
  by (auto simp: db_wf_def origins_of_def wf_reads_def list_all_iff dest!: map_of_SomeD split: option.splits)

lemma push_origin_wf:
  "push_origin os origin = Inr os' \<Longrightarrow> os = [] \<or> wf_origins os \<Longrightarrow> wf_origins os'"
  by (auto simp: push_origin_def wf_origins_def split: if_splits)

lemma push_origin_error: "push_origin os origin = Inl e \<Longrightarrow> blocks_below i e"
  by (auto simp: push_origin_def blocks_below_def split: if_splits)

lemma pushed_wf:
  "db_wf i db \<Longrightarrow> push_origin (origins_of db l) origin = Inr os \<Longrightarrow> db_wf i (set_origins db l os)"
  by (rule db_wf_set_origins) (assumption, rule push_origin_wf [OF _ origins_wf])

lemma blocks_below_simps [simp]:
  "blocks_below i (ReadStorageError e)" "blocks_below i InconsistentRead" "blocks_below i (InvalidNonce j)"
  "blocks_below i SelfDestructedAccount" "blocks_below i (InvalidBytecode b)" "blocks_below i InvalidMemoryValueType"
  "blocks_below i (Blocking j) \<longleftrightarrow> j < i"
  by (simp_all add: blocks_below_def)

lemma map_error_Inl_iff: "map_error f r = Inl e \<longleftrightarrow> (\<exists>x. r = Inl x \<and> e = f x)"
  by (cases r) auto

lemma and_then_Inl_iff: "and_then r f = Inl e \<longleftrightarrow> r = Inl e \<or> (\<exists>x. r = Inr x \<and> f x = Inl e)"
  by (cases r) (auto simp: and_then_def)

lemma read_wfI:
  assumes "\<And>e. r = Inl e \<Longrightarrow> blocks_below i e" "\<And>x db'. r = Inr (x, db') \<Longrightarrow> db_wf i db'"
  shows "read_wf i r"
  using assms by (cases r) (auto simp: read_wf_def)

lemma get_code_hash_wf:
  assumes "db_wf i db"
  shows "read_wf i (get_code_hash vm m db a)"
proof (rule read_wfI)
  fix e assume "get_code_hash vm m db a = Inl e"
  then show "blocks_below i e"
    by (auto simp: get_code_hash_def Let_def and_then_Inl_iff map_error_Inl_iff dest: push_origin_error [where i = i]
        split: list.splits prod.splits memory_entry.splits memory_value.splits)
next
  fix h db' assume "get_code_hash vm m db a = Inr (h, db')"
  then obtain origin os where "push_origin (origins_of db (vm_hash vm (LocCodeHash a))) origin = Inr os"
    "db' = set_origins db (vm_hash vm (LocCodeHash a)) os"
    by (auto simp: get_code_hash_def Let_def and_then_Inr_iff
        split: list.splits prod.splits memory_entry.splits memory_value.splits)
  then show "db_wf i db'" using pushed_wf [OF assms] by simp
qed

lemma db_storage_wf:
  assumes "db_wf i db"
  shows "read_wf i (db_storage vm m db a x)"
proof (rule read_wfI)
  let ?l = "vm_hash vm (LocStorage a x)"
  fix e assume e: "db_storage vm m db a x = Inl e"
  show "blocks_below i e"
  proof (cases "(if db_tx_idx db > 0 then mem_below m ?l (db_tx_idx db) else [])")
    case Nil
    with e show ?thesis
      by (auto simp: db_storage_def Let_def and_then_Inl_iff map_error_Inl_iff dest: push_origin_error [where i = i])
  next
    case (Cons y ys)
    obtain j en where y: "y = (j, en)" by (cases y)
    have "j < i"
      using Cons mem_below_lower [of j en m ?l "db_tx_idx db"] assms by (auto simp: y db_wf_def split: if_splits)
    with e Cons show ?thesis
      by (auto simp: y db_storage_def Let_def and_then_Inl_iff dest: push_origin_error [where i = i]
          split: memory_entry.splits memory_value.splits)
  qed
next
  fix v db' assume "db_storage vm m db a x = Inr (v, db')"
  then obtain origin os where "push_origin (origins_of db (vm_hash vm (LocStorage a x))) origin = Inr os"
    "db' = set_origins db (vm_hash vm (LocStorage a x)) os"
    by (auto simp: db_storage_def Let_def and_then_Inr_iff
        split: list.splits prod.splits memory_entry.splits memory_value.splits if_splits)
  then show "db_wf i db'" using pushed_wf [OF assms] by simp
qed

definition memory_origins :: "read_origins \<Rightarrow> bool" where
  "memory_origins os \<longleftrightarrow> OriginStorage \<notin> set os"

lemma evaluate_lazy_wf:
  "memory_origins nos \<Longrightarrow> \<forall>x \<in> set it. fst x < i \<Longrightarrow>
   (case evaluate_lazy ros prev it nos add pos na of
      Inl e \<Rightarrow> blocks_below i e
    | Inr (final, nos', _) \<Rightarrow> memory_origins nos' \<and> (final \<noteq> None \<longrightarrow> nos' \<noteq> []))"
  by (induction ros prev it nos add pos na rule: evaluate_lazy.induct)
    (auto simp: memory_origins_def Let_def split: memory_value.splits)

lemma read_wf_then:
  "read_wf i r \<Longrightarrow> (\<And>x db. db_wf i db \<Longrightarrow> read_wf i (f (x, db))) \<Longrightarrow> read_wf i (and_then r f)"
  by (cases r) (auto simp: read_wf_def)

lemma read_wf_check:
  "(\<And>e. r = Inl e \<Longrightarrow> blocks_below i e) \<Longrightarrow> (\<And>x. r = Inr x \<Longrightarrow> read_wf i (f x)) \<Longrightarrow> read_wf i (and_then r f)"
  by (cases r) (auto simp: read_wf_def)

lemma read_wf_simps [simp]:
  "read_wf i (Inl e) \<longleftrightarrow> blocks_below i e" "read_wf i (Inr (x, db)) \<longleftrightarrow> db_wf i db"
  by (simp_all add: read_wf_def)

lemma resolve_account_wf:
  assumes "db_wf i db"
  shows "read_wf i (resolve_account vm m db l a)"
proof -
  let ?ros = "origins_of db l"
  let ?it = "if db_tx_idx db > 0 then mem_below m l (db_tx_idx db) else []"
  let ?ev = "evaluate_lazy ?ros (?ros \<noteq> []) ?it [] 0 True 0"
  have "\<forall>x \<in> set ?it. fst x < i"
    using assms mem_below_lower [of _ _ m l] by (auto simp: db_wf_def)
  then have ev: "case ?ev of
      Inl e \<Rightarrow> blocks_below i e
    | Inr (final, nos', _) \<Rightarrow> memory_origins nos' \<and> (final \<noteq> None \<longrightarrow> nos' \<noteq> [])"
    by (intro evaluate_lazy_wf) (simp_all add: memory_origins_def)
  have wf: "db_wf i (if ?ros \<noteq> [] then db else set_origins db l nos)" if "wf_origins nos" for nos
    using assms db_wf_set_origins [OF assms that] by simp
  show ?thesis
    unfolding resolve_account_def Let_def
  proof (rule read_wf_check)
    fix e assume "?ev = Inl e"
    with ev show "blocks_below i e" by simp
  next
    fix r assume r: "?ev = Inr r"
    obtain final nos add pos na where x: "r = (final, nos, add, pos, na)" by (cases r)
    have nos: "memory_origins nos" "final \<noteq> None \<Longrightarrow> nos \<noteq> []" using ev by (simp_all add: r x)
    have stored: "wf_origins (nos @ [OriginStorage])"
      using nos(1) by (simp add: wf_origins_def memory_origins_def)
    show "read_wf i ((\<lambda>(final, nos, add, pos, na).
         and_then
           (case final of
              Some b \<Rightarrow> Inr (Some b, nos)
            | None \<Rightarrow>
                if ?ros \<noteq> [] \<and> (length ?ros \<noteq> length nos + 1 \<or> last ?ros \<noteq> OriginStorage) then Inl InconsistentRead
                else and_then (storage_account vm a add) (\<lambda>acct. Inr (acct, nos @ [OriginStorage])))
           (\<lambda>(final', nos'). Inr ((final', add, pos, na), if ?ros \<noteq> [] then db else set_origins db l nos'))) r)"
    proof (cases final)
      case (Some b)
      have "wf_origins nos" using nos Some by (auto simp: wf_origins_def memory_origins_def dest: in_set_butlastD)
      with Some wf show ?thesis by (simp add: x)
    next
      case None
      have "blocks_below i e" if "storage_account vm a add = Inl e" for e
        using that by (auto simp: storage_account_def split: sum.splits option.splits)
      with None wf [OF stored] show ?thesis
        by (cases "storage_account vm a add") (auto simp: x and_then_def)
    qed
  qed
qed

lemma complete_account_wf:
  fixes vm :: "('blob, 'eof) vm"
  assumes "db_wf i db"
  shows "read_wf i (complete_account vm mc mb db l a x)"
proof -
  obtain final add pos na where x: "x = (final, add, pos, na)" by (cases x)
  have load: "blocks_below i e" if "load_code vm mb h = Inl e" for h e
    using that by (auto simp: load_code_def and_then_Inl_iff map_error_Inl_iff split: option.splits)
  have code: "read_wf i (if Some l = db_to_hash db then Inr (db_to_code_hash db, db) else get_code_hash vm mc db a)"
    using assms get_code_hash_wf [OF assms, of vm mc a] by simp
  have i: "db_tx_idx db = i" using assms by (simp add: db_wf_def)
  show ?thesis
  proof (cases final)
    case (Some account)
    have "read_wf i (and_then
        (if Some l = db_to_hash db then Inr (db_to_code_hash db, db) else get_code_hash vm mc db a)
        (\<lambda>(code_hash, db1).
           and_then (load_code vm mb code_hash) (\<lambda>code.
             Inr (g code_hash code, db1\<lparr>db_read_accounts := (db_read_accounts db1)(l \<mapsto> (acct, code_hash))\<rparr>))))"
      for g :: "b256 option \<Rightarrow> 'eof bytecode option \<Rightarrow> 'eof account_info option" and acct
    proof (rule read_wf_then [OF code])
      fix h db1 assume "db_wf i db1"
      then show "read_wf i (case (h, db1) of (code_hash, db1) \<Rightarrow>
           and_then (load_code vm mb code_hash) (\<lambda>code.
             Inr (g code_hash code, db1\<lparr>db_read_accounts := (db_read_accounts db1)(l \<mapsto> (acct, code_hash))\<rparr>)))"
        unfolding prod.case by (intro read_wf_check load) (simp_all add: db_wf_def)
    qed
    then show ?thesis by (simp add: x Some complete_account_def Let_def i)
  qed (simp add: x complete_account_def assms)
qed

lemma db_basic_wf:
  assumes "db_wf i db" "db_basic vm m mc mb db a = Some r"
  shows "read_wf i r"
proof -
  obtain l where l: "hash_basic vm db a = Some l"
    using assms(2) by (cases "hash_basic vm db a") (simp_all add: db_basic_def)
  have "read_wf i (and_then (resolve_account vm m db l a) (\<lambda>(acct, db1). complete_account vm mc mb db1 l a acct))"
    by (rule read_wf_then [OF resolve_account_wf [OF assms(1)]]) (simp add: complete_account_wf)
  then show ?thesis using assms l by (auto simp: db_basic_def)
qed

lemma run_evm_wf:
  "db_wf i db \<Longrightarrow> run_evm t vm ms k db = Some r \<Longrightarrow> read_wf i r"
proof (induction t arbitrary: k db)
  case (Finished x)
  then show ?case by (auto simp: read_wf_def)
next
  case (AskBasic a f)
  then show ?case
    using db_basic_wf [OF AskBasic.prems(1), of vm "ms k" "ms (k + 1)" "ms (k + 2)" a]
    by (fastforce simp: read_wf_def split: option.splits sum.splits)
next
  case (AskCode h f)
  then show ?case
    by (fastforce simp: read_wf_def db_code_by_hash_def and_then_Inl_iff map_error_Inl_iff split: sum.splits option.splits)
next
  case (AskStorage a x f)
  then show ?case
    using db_storage_wf [OF AskStorage.prems(1), of vm "ms k" a x]
    by (fastforce simp: read_wf_def split: sum.splits)
next
  case (AskBlockHash n f)
  then show ?case
    by (fastforce simp: read_wf_def db_block_hash_def map_error_Inl_iff split: sum.splits)
qed

lemma db_new_wf: "db_new vm m m1 m2 i tx fh th = Some (Inr db) \<Longrightarrow> db_wf i db"
  and db_new_blocks: "db_new vm m m1 m2 i tx fh th = Some (Inl e) \<Longrightarrow> blocks_below i e"
proof -
  let ?db = "\<lparr>db_tx_idx = i, db_tx = tx, db_from_hash = fh, db_to_hash = th, db_to_code_hash = None,
      db_is_lazy = False, db_read_set = [], db_read_accounts = Map.empty\<rparr>"
  have db: "db_wf i ?db" by (simp add: db_wf_def wf_reads_def)
  have code: "read_wf i (get_code_hash vm m ?db a)" for a
    by (rule get_code_hash_wf [OF db])
  show "db_wf i db" if "db_new vm m m1 m2 i tx fh th = Some (Inr db)"
  proof (cases "te_transact_to tx")
    case Create
    with that db show ?thesis by (simp add: db_new_def)
  next
    case (Call to)
    show ?thesis
    proof (cases "get_code_hash vm m ?db to")
      case (Inr r)
      then show ?thesis
        using that Call code [of to]
        by (cases r) (auto simp: db_new_def Let_def db_wf_def Option.bind_eq_Some_conv)
    qed (use that Call in \<open>simp add: db_new_def Let_def\<close>)
  qed
  show "blocks_below i e" if "db_new vm m m1 m2 i tx fh th = Some (Inl e)"
  proof (cases "te_transact_to tx")
    case (Call to)
    show ?thesis
    proof (cases "get_code_hash vm m ?db to")
      case (Inl e')
      then show ?thesis using that Call code [of to] by (simp add: db_new_def Let_def)
    next
      case (Inr r)
      then show ?thesis
        using that Call by (cases r) (auto simp: db_new_def Let_def Option.bind_eq_Some_conv)
    qed
  qed (use that in \<open>simp add: db_new_def\<close>)
qed

lemma of_read_error_blocks: "of_read_error e = VmBlocking b \<Longrightarrow> blocks_below i e \<Longrightarrow> b < i"
  by (cases e) auto

lemma vm_attempt_wf:
  assumes "vm_attempt vm ms i = Some r"
  shows "case r of Inl e \<Rightarrow> \<forall>b. e = VmBlocking b \<longrightarrow> b < i | Inr (db, res) \<Rightarrow> db_wf i db"
proof -
  note a = assms [unfolded vm_attempt_def Let_def]
  obtain tx created where tx: "index_mutex (vm_txs vm) i = Some tx" and created:
    "db_new vm (ms 0) (ms 1) (ms 2) i tx (vm_hash vm (LocBasic (te_caller tx)))
       (map_option (\<lambda>to. vm_hash vm (LocBasic to)) (tx_kind_to (te_transact_to tx))) = Some created"
    using a by (auto simp: Option.bind_eq_Some_conv)
  show ?thesis
  proof (cases created)
    case (Inl e)
    then show ?thesis using a tx created db_new_blocks [OF created [unfolded Inl]] of_read_error_blocks by auto
  next
    case (Inr db)
    note db = db_new_wf [OF created [unfolded Inr]]
    obtain run where run: "run_evm (vm_transact vm tx) vm ms 3 db = Some run"
      using a tx created Inr by (auto simp: Option.bind_eq_Some_conv)
    note wf = run_evm_wf [OF db run]
    show ?thesis
    proof (cases run)
      case (Inl e)
      then show ?thesis using a tx created Inr run wf of_read_error_blocks by auto
    next
      case (Inr x)
      obtain verdict db' where x: "x = (verdict, db')" by (cases x)
      show ?thesis
        using a tx created \<open>created = Inr db\<close> run wf
        by (cases verdict) (auto simp: Inr x split: if_splits)
    qed
  qed
qed

lemma vm_execute_blocks:
  assumes "vm_execute vm ms m v = Some (Inl (VmBlocking b), m')"
  shows "b < tx_idx v"
proof -
  obtain r where r: "vm_attempt vm ms (tx_idx v) = Some r"
    using assms by (auto simp: vm_execute_def Option.bind_eq_Some_conv)
  show ?thesis
  proof (cases r)
    case (Inl e)
    then show ?thesis using vm_attempt_wf [OF r] assms r by (simp add: vm_execute_def)
  next
    case (Inr x)
    have "blocks_below (tx_idx v) e" if "pay_reward ws y = Inl e" for ws y e
      using that by (induction ws y rule: pay_reward.induct) (auto simp: and_then_Inl_iff split: if_splits memory_value.splits)
    then have "blocks_below (tx_idx v) e" if "pay_rewards ws rs = Inl e" for ws rs e
      using that by (induction ws rs rule: pay_rewards.induct) (auto simp: and_then_Inl_iff)
    then have "blocks_below (tx_idx v) e" if "apply_rewards vm tx g c ws = Some (Inl e)" for tx g c ws e
      using that
      by (auto simp: apply_rewards_def Let_def Option.bind_eq_Some_conv simp del: pay_rewards.simps
          split: reward_policy.splits if_splits)
    then have "blocks_below (tx_idx v) e" if "vm_writes vm db res codes = Some (Inl e, codes')" for db res codes e codes'
      using that by (auto simp: vm_writes_def Option.bind_eq_Some_conv)
    note errors = this
    obtain db res where x: "x = (db, res)" by (cases x)
    obtain w codes where w: "vm_writes vm db res (new_bytecodes m) = Some (w, codes)"
      using assms by (auto simp: vm_execute_def r Inr x Option.bind_eq_Some_conv)
    with assms obtain e where e: "w = Inl e" "of_read_error e = VmBlocking b"
      by (cases w) (auto simp: vm_execute_def r Inr x Option.bind_eq_Some_conv)
    show ?thesis using of_read_error_blocks [OF e(2) errors [OF w [unfolded e(1)]]] .
  qed
qed

text \<open>What a successful execution records.\<close>

lemma vm_execute_records:
  assumes "vm_execute vm ms m v = Some (Inr (r, flags), m')"
  obtains db res ws codes mc new where "vm_attempt vm ms (tx_idx v) = Some (Inr (db, res))" "wf_reads (db_read_set db)"
    "vm_writes vm db res (new_bytecodes m) = Some (Inr ws, codes)"
    "note_lazy db (m\<lparr>new_bytecodes := codes\<rparr>) = Some mc" "mv_record mc v (db_read_set db) ws = Some (m', new)"
    "flags = execution_flags (tx_idx v) (db_is_lazy db) new"
proof -
  obtain a where a: "vm_attempt vm ms (tx_idx v) = Some a"
    using assms by (auto simp: vm_execute_def Option.bind_eq_Some_conv)
  with assms obtain db res where attempt: "a = Inr (db, res)"
    by (cases a) (auto simp: vm_execute_def)
  have "wf_reads (db_read_set db)" using vm_attempt_wf [OF a] by (simp add: attempt db_wf_def)
  moreover obtain w codes where w: "vm_writes vm db res (new_bytecodes m) = Some (w, codes)"
    using assms by (auto simp: vm_execute_def a attempt Option.bind_eq_Some_conv)
  moreover from assms obtain ws where "w = Inr ws"
    by (cases w) (auto simp: vm_execute_def a attempt w)
  ultimately show thesis
    using that assms a attempt by (auto simp: vm_execute_def Option.bind_eq_Some_conv)
qed

section \<open>The engine is a worker machine\<close>

lemma advance_eq:
  "advance c x \<sigma> L = Some L' \<longleftrightarrow> (\<exists>s reason p. thread_step c x (tl_sched L) (tl_reason L) (tl_pc L) = Some (s, reason, p) \<and>
     L' = L\<lparr>tl_sched := s, tl_reason := reason, tl_pc := p, tl_stage := \<sigma>\<rparr>)"
  by (auto simp: advance_def)

text \<open>
  A thread's step is one of its worker with an admissible answer, or leaves its worker alone. What
  the memory and the stage do is told apart with it.
\<close>

inductive local_kind :: "(u8 \<Rightarrow> u8 \<Rightarrow> bool) \<Rightarrow> ('blob, 'eof) vm \<Rightarrow> (nat \<Rightarrow> 'eof bytecode mv_memory) \<Rightarrow> 'eof local \<Rightarrow> 'eof local \<Rightarrow> bool"
  for c vm ms L where
  recorded:
    "tl_pc L = HasTask (Execution v) \<Longrightarrow> \<forall>r flags. tl_stage L \<noteq> Recorded r flags \<Longrightarrow>
     vm_execute vm ms (tl_memory L) v = Some (Inr (r, flags), m) \<Longrightarrow>
     local_kind c vm ms L (L\<lparr>tl_memory := m, tl_stage := Recorded r flags\<rparr>)"
| finished:
    "tl_pc L = HasTask (Execution v) \<Longrightarrow> tl_stage L = Recorded r flags \<Longrightarrow>
     thread_step c (ExecOk flags) (tl_sched L) (tl_reason L) (tl_pc L) = Some (s, reason, p) \<Longrightarrow>
     local_kind c vm ms L (L\<lparr>tl_sched := s, tl_reason := reason, tl_pc := p, tl_stage := Fresh,
       tl_outcome := store_result (tx_idx v) r (tl_outcome L)\<rparr>)"
| execution_error:
    "tl_pc L = HasTask (Execution v) \<Longrightarrow> \<forall>r flags. tl_stage L \<noteq> Recorded r flags \<Longrightarrow>
     vm_execute vm ms (tl_memory L) v = Some (Inl e, m) \<Longrightarrow>
     thread_step c (choice_of_error e) (tl_sched L) (tl_reason L) (tl_pc L) = Some (s, reason, p) \<Longrightarrow>
     local_kind c vm ms L (L\<lparr>tl_sched := s, tl_reason := reason, tl_pc := p, tl_stage := stage_of_error e, tl_memory := m\<rparr>)"
| started:
    "tl_pc L = HasTask (Validation v) \<Longrightarrow> tl_stage L \<noteq> Failed \<Longrightarrow> \<forall>rs. tl_stage L \<noteq> Checking rs \<Longrightarrow>
     tx_idx v < length (last_locations (tl_memory L)) \<Longrightarrow>
     local_kind c vm ms L (L\<lparr>tl_stage := Checking (reads_of (tl_memory L) (tx_idx v))\<rparr>)"
| checked:
    "tl_pc L = HasTask (Validation v) \<Longrightarrow> tl_stage L = Checking (r # rs) \<Longrightarrow>
     local_kind c vm ms L (L\<lparr>tl_stage := if validate_location (tl_memory L) (tx_idx v) r then Checking rs else Failed\<rparr>)"
| validated:
    "tl_pc L = HasTask (Validation v) \<Longrightarrow> tl_stage L = (if b then Checking [] else Failed) \<Longrightarrow>
     thread_step c (ReadsValid b) (tl_sched L) (tl_reason L) (tl_pc L) = Some (s, reason, p) \<Longrightarrow>
     local_kind c vm ms L (L\<lparr>tl_sched := s, tl_reason := reason, tl_pc := p, tl_stage := Fresh\<rparr>)"
| converted:
    "tl_pc L = AbortSucceeded v \<Longrightarrow> tl_stage L \<noteq> Converted \<Longrightarrow>
     convert_writes_to_estimates (tl_memory L) (tx_idx v) = Some m \<Longrightarrow>
     local_kind c vm ms L (L\<lparr>tl_memory := m, tl_stage := Converted\<rparr>)"
| other:
    "\<forall>t. tl_pc L \<noteq> HasTask t \<Longrightarrow> \<forall>v. tl_pc L = AbortSucceeded v \<longrightarrow> tl_stage L = Converted \<Longrightarrow>
     tl_pc L \<noteq> SetReason \<and> outcome' = tl_outcome L \<or> tl_pc L = SetReason \<and> (\<exists>r. outcome' = get_or_init r (tl_outcome L)) \<Longrightarrow>
     thread_step c ExecRetry (tl_sched L) (tl_reason L) (tl_pc L) = Some (s, reason, p) \<Longrightarrow>
     local_kind c vm ms L (L\<lparr>tl_sched := s, tl_reason := reason, tl_pc := p, tl_stage := Fresh, tl_outcome := outcome'\<rparr>)"

lemma local_step_kind:
  assumes "local_step c vm ms L = Some L'"
  shows "local_kind c vm ms L L'"
proof (cases "tl_pc L")
  case (HasTask t)
  show ?thesis
  proof (cases t)
    case (Execution v)
    note pc = HasTask [unfolded Execution]
    have step: "try_execute_task c vm ms v L = Some L'" using assms by (simp add: local_step_def pc)
    show ?thesis
    proof (cases "\<exists>r flags. tl_stage L = Recorded r flags")
      case True
      then obtain r flags where st: "tl_stage L = Recorded r flags" by blast
      from step obtain s reason p where "thread_step c (ExecOk flags) (tl_sched L) (tl_reason L) (tl_pc L) = Some (s, reason, p)"
        "L' = L\<lparr>tl_sched := s, tl_reason := reason, tl_pc := p, tl_stage := Fresh, tl_outcome := store_result (tx_idx v) r (tl_outcome L)\<rparr>"
        by (auto simp: try_execute_task_def st advance_eq)
      then show ?thesis using local_kind.finished [OF pc st] by simp
    next
      case False
      then have st: "\<forall>r flags. tl_stage L \<noteq> Recorded r flags" by blast
      then obtain answer m where ex: "vm_execute vm ms (tl_memory L) v = Some (answer, m)"
        and L': "(case answer of
             Inr (r, flags) \<Rightarrow> Some (L\<lparr>tl_memory := m, tl_stage := Recorded r flags\<rparr>)
           | Inl e \<Rightarrow> advance c (choice_of_error e) (stage_of_error e) (L\<lparr>tl_memory := m\<rparr>)) = Some L'"
        using step by (auto simp: try_execute_task_def Option.bind_eq_Some_conv split: stage.splits)
      show ?thesis
      proof (cases answer)
        case (Inl e)
        with L' obtain s reason p where
          "thread_step c (choice_of_error e) (tl_sched L) (tl_reason L) (tl_pc L) = Some (s, reason, p)"
          "L' = L\<lparr>tl_sched := s, tl_reason := reason, tl_pc := p, tl_stage := stage_of_error e, tl_memory := m\<rparr>"
          by (auto simp: advance_eq)
        then show ?thesis using local_kind.execution_error [OF pc st ex [unfolded Inl]] by simp
      next
        case (Inr r)
        then show ?thesis using L' local_kind.recorded [OF pc st] ex by (cases r) auto
      qed
    qed
  next
    case (Validation v)
    note pc = HasTask [unfolded Validation]
    have step: "try_validate_task c v L = Some L'" using assms by (simp add: local_step_def pc)
    consider (start) "tl_stage L \<noteq> Failed" "\<forall>rs. tl_stage L \<noteq> Checking rs" | (check) r rs where "tl_stage L = Checking (r # rs)"
      | (passed) "tl_stage L = Checking []" | (failed) "tl_stage L = Failed"
    proof (cases "tl_stage L")
      case (Checking rs)
      then show ?thesis using that by (cases rs) auto
    qed (use that in auto)
    then show ?thesis
    proof cases
      case start
      then have "tx_idx v < length (last_locations (tl_memory L)) \<and>
          L' = L\<lparr>tl_stage := Checking (reads_of (tl_memory L) (tx_idx v))\<rparr>"
        using step by (auto simp: try_validate_task_def index_mutex_Some_iff Option.bind_eq_Some_conv split: stage.splits)
      then show ?thesis using local_kind.started [OF pc start] by simp
    next
      case check
      then show ?thesis using step local_kind.checked [OF pc check] by (auto simp: try_validate_task_def)
    next
      case passed
      with step obtain s reason p where "thread_step c (ReadsValid True) (tl_sched L) (tl_reason L) (tl_pc L) = Some (s, reason, p)"
        "L' = L\<lparr>tl_sched := s, tl_reason := reason, tl_pc := p, tl_stage := Fresh\<rparr>"
        by (auto simp: try_validate_task_def advance_eq)
      then show ?thesis using local_kind.validated [of L v True c s reason p vm ms] pc passed by simp
    next
      case failed
      with step obtain s reason p where "thread_step c (ReadsValid False) (tl_sched L) (tl_reason L) (tl_pc L) = Some (s, reason, p)"
        "L' = L\<lparr>tl_sched := s, tl_reason := reason, tl_pc := p, tl_stage := Fresh\<rparr>"
        by (auto simp: try_validate_task_def advance_eq)
      then show ?thesis using local_kind.validated [of L v False c s reason p vm ms] pc failed by simp
    qed
  qed
next
  case (AbortSucceeded v)
  show ?thesis
  proof (cases "tl_stage L = Converted")
    case True
    then obtain s reason p where "thread_step c ExecRetry (tl_sched L) (tl_reason L) (tl_pc L) = Some (s, reason, p)"
      "L' = L\<lparr>tl_sched := s, tl_reason := reason, tl_pc := p, tl_stage := Fresh\<rparr>"
      using assms by (auto simp: local_step_def AbortSucceeded advance_eq)
    then show ?thesis using local_kind.other [of L "tl_outcome L" c s reason p vm ms] AbortSucceeded True by simp
  next
    case False
    then show ?thesis using assms local_kind.converted [OF AbortSucceeded False]
      by (auto simp: local_step_def AbortSucceeded Option.bind_eq_Some_conv)
  qed
next
  case SetReason
  then obtain r where r: "tl_stage L = Faulted r"
    using assms by (cases "tl_stage L") (auto simp: local_step_def)
  have "advance c ExecRetry Fresh (L\<lparr>tl_outcome := get_or_init r (tl_outcome L)\<rparr>) = Some L'"
    using assms by (simp add: local_step_def SetReason r)
  then obtain s reason p where "thread_step c ExecRetry (tl_sched L) (tl_reason L) (tl_pc L) = Some (s, reason, p)"
    and L': "L' = (L\<lparr>tl_outcome := get_or_init r (tl_outcome L)\<rparr>)\<lparr>tl_sched := s, tl_reason := reason, tl_pc := p, tl_stage := Fresh\<rparr>"
    unfolding advance_eq by (elim exE conjE) simp
  then have "local_kind c vm ms L (L\<lparr>tl_sched := s, tl_reason := reason, tl_pc := p, tl_stage := Fresh,
      tl_outcome := get_or_init r (tl_outcome L)\<rparr>)"
    using SetReason by (intro local_kind.other) auto
  then show ?thesis unfolding L' by (cases L) simp
qed (use assms local_kind.other [of L "tl_outcome L" c _ _ _ vm ms] in \<open>auto simp: local_step_def advance_eq\<close>)

lemma local_kind_admissible:
  assumes "local_kind c vm ms L L'"
  obtains (same) "tl_sched L' = tl_sched L" "tl_reason L' = tl_reason L" "tl_pc L' = tl_pc L"
    | (worker) x where "admissible x (tl_pc L)"
      "thread_step c x (tl_sched L) (tl_reason L) (tl_pc L) = Some (tl_sched L', tl_reason L', tl_pc L')"
  using assms
proof (cases rule: local_kind.cases)
  case (execution_error v e m s reason p)
  have "admissible (choice_of_error e) (tl_pc L)"
    using execution_error(2,4) vm_execute_blocks [of vm ms "tl_memory L" v] by (cases e) auto
  then show thesis using execution_error worker by simp
next
  case (other outcome' s reason p)
  have "admissible ExecRetry (tl_pc L)"
    using other(2) by (cases "tl_pc L") auto
  then show thesis using other worker by simp
next
  case (finished v r flags s reason p)
  then show thesis using worker [of "ExecOk flags"] by simp
next
  case (validated v b s reason p)
  then show thesis using worker [of "ReadsValid b"] by simp
qed (use same worker in auto)

text \<open>So the engine refines the worker machine: a step of the one is a step of the other, or none.\<close>

lemma engine_refines_workers:
  assumes "bitflags_contains c" "engine_step c vm e e'"
  shows "workers e' = workers e \<or> worker_step (workers e) (workers e')"
  using assms(2)
proof (cases rule: engine_step.cases)
  case (thread k ms L)
  show ?thesis
    using local_step_kind [OF thread(4)]
  proof (cases rule: local_kind_admissible)
    case same
    then show ?thesis using thread(1) by (simp add: put_local_def)
  next
    case (worker x)
    then have "machine_step c (workers e) (workers e')"
      using machine_step.thread [OF thread(2), of x c] thread(1) by (simp add: put_local_def)
    then show ?thesis using assms(1) by (auto simp: worker_step_def)
  qed
qed

end
