(* ===== verification/Status_Changes.thy ===== *)
theory Status_Changes
  imports Scheduler_Machine
begin

text \<open>
  What one step of a worker thread does to the statuses and the incarnations: seven kinds of change,
  and which program counters they belong to.
\<close>

text \<open>A transaction that has run: it waits for validation or has passed it.\<close>

definition has_run :: "scheduler \<Rightarrow> tx_idx_t \<Rightarrow> bool" where
  "has_run s j \<longleftrightarrow> st s j \<in> {Executed, Validated}"

inductive status_change :: "choice \<Rightarrow> scheduler \<Rightarrow> pc \<Rightarrow> scheduler \<Rightarrow> pc \<Rightarrow> bool" for x s p s' p' where
  kept:
    "\<lbrakk> \<And>j. st s' j = st s j; \<And>j. inc s' j = inc s j; pc_claim p' = pc_claim p \<or> pc_claim p' = None;
       \<And>v flags. p = HasTask (Execution v) \<Longrightarrow> x \<noteq> ExecOk flags; \<And>v. p \<noteq> AbortSucceeded v; \<And>v. p' \<noteq> AbortSucceeded v \<rbrakk>
     \<Longrightarrow> status_change x s p s' p'"
| taken:
    "\<lbrakk> i < block_size s; st s i = ReadyToExecute; s' = set_status s i Executing;
       \<And>j. st s' j = (if j = i then Executing else st s j); \<And>j. inc s' j = inc s j; pc_claim p = None;
       pc_claim p' = Some (ClaimExec \<lparr>tx_idx = i, tx_incarnation = inc s i\<rparr>) \<rbrakk>
     \<Longrightarrow> status_change x s p s' p'"
| executed:
    "\<lbrakk> p = HasTask (Execution v); x = ExecOk flags; p' = AfterTask r; pc_claim p' = None; st s (tx_idx v) = Executing;
       \<And>j. st s' j = (if j = tx_idx v then Executed else if j \<in> D then ReadyToExecute else st s j);
       \<And>j. inc s' j = (if j \<in> D then usize_add (inc s j) 1 else inc s j);
       \<And>j. j \<in> D \<Longrightarrow> st s j = Aborting \<and> j \<noteq> tx_idx v \<rbrakk>
     \<Longrightarrow> status_change x s p s' p'"
| blocked:
    "\<lbrakk> p = HasTask (Execution v); x = ExecBlocking b; p' = AfterTask None; st s (tx_idx v) = Executing;
       \<And>j. st s' j = (if j = tx_idx v then Aborting else st s j); \<And>j. inc s' j = inc s j \<rbrakk>
     \<Longrightarrow> status_change x s p s' p'"
| aborted:
    "\<lbrakk> p = HasTask (Validation v); p' = AbortSucceeded v; has_run s (tx_idx v);
       \<And>j. st s' j = (if j = tx_idx v then Aborting else st s j); \<And>j. inc s' j = inc s j \<rbrakk>
     \<Longrightarrow> status_change x s p s' p'"
| readied:
    "\<lbrakk> p = AbortSucceeded v; p' = Readied v; st s (tx_idx v) = Aborting;
       \<And>j. st s' j = (if j = tx_idx v then ReadyToExecute else st s j);
       \<And>j. inc s' j = (if j = tx_idx v then usize_add (inc s j) 1 else inc s j) \<rbrakk>
     \<Longrightarrow> status_change x s p s' p'"
| validated:
    "\<lbrakk> p = ReadsChecked v; p' = AfterTask None; st s (tx_idx v) = Executed;
       \<And>j. st s' j = (if j = tx_idx v then Validated else st s j); \<And>j. inc s' j = inc s j \<rbrakk>
     \<Longrightarrow> status_change x s p s' p'"

inductive_cases status_changeE: "status_change x s p s' p'"

lemma status_change_same:
  assumes "pc_claim p' = pc_claim p \<or> pc_claim p' = None" "\<And>v flags. p = HasTask (Execution v) \<Longrightarrow> x \<noteq> ExecOk flags"
    and "\<And>v. p \<noteq> AbortSucceeded v" "\<And>v. p' \<noteq> AbortSucceeded v"
  shows "status_change x s p s p'"
  by (rule status_change.kept) (use assms in auto)

lemma status_change_taken:
  assumes "sized s" "i < block_size s" "st s i = ReadyToExecute" "pc_claim p = None"
    and "pc_claim p' = Some (ClaimExec \<lparr>tx_idx = i, tx_incarnation = inc s i\<rparr>)"
  shows "status_change x s p (set_status s i Executing) p'"
  by (rule status_change.taken [OF assms(2,3) refl]) (use assms in \<open>auto simp: st_set_status sized_def\<close>)

lemma execution_changes_status:
  assumes ok: "sched_ok s" "claimable s (ClaimExec v)" "bitflags_contains c"
    and t: "execution_outcome c x s v = Some (s', p')" and adm: "admissible x (HasTask (Execution v))"
  shows "status_change x s (HasTask (Execution v)) s' p'"
proof -
  let ?i = "tx_idx v"
  have sz: "sized s" by (rule sched_okD(1) [OF ok(1)])
  have v: "?i < block_size s" "st s ?i = Executing" "v = \<lparr>tx_idx = ?i, tx_incarnation = inc s ?i\<rparr>"
    using ok(2) by auto
  show ?thesis
  proof (cases x)
    case (ExecOk flags)
    obtain r where r: "finish_execution c s v flags = Some (s', r)" "p' = AfterTask r"
      using t ExecOk by auto
    have e: "st s' j = (if j = ?i then Executed else if j \<in> set (deps s ?i) then ReadyToExecute else st s j)"
      "inc s' j = (if j \<in> set (deps s ?i) then usize_add (inc s j) 1 else inc s j)"
      "r = (if ?i < validation_idx s then Some (Validation v) else None)" for j
      using finish_execution_effect [where c = c and flags = flags,
          OF ok(1) v(1,2) contains_NeedValidation [OF ok(3)] v(3)] r by auto
    show ?thesis
      by (rule status_change.executed [where D = "set (deps s ?i)", OF refl ExecOk r(2)])
        (use e r(2) v(2) deps_okD(2,4) [OF sched_okD(4) [OF ok(1)] v(1)] in auto)
  next
    case ExecRetry
    then show ?thesis using t by (auto intro!: status_change_same)
  next
    case (ExecBlocking b)
    have b: "b < ?i" "b < block_size s" using adm v(1) ExecBlocking by auto
    show ?thesis
    proof (cases "st s b \<in> {Executed, Validated}")
      case True
      then show ?thesis
        using t add_dependency_refused [OF sz b(2)] ExecBlocking by (auto intro!: status_change_same)
    next
      case False
      then have s': "s' = with_dependency s ?i b" "p' = AfterTask None"
        using t add_dependency_added [OF sz v(1) b(1) v(2)] ExecBlocking by auto
      show ?thesis
        by (rule status_change.blocked [OF refl ExecBlocking s'(2) v(2)])
          (use with_dependency_views(1) [OF sz v(1) b(2)] in \<open>simp_all add: s'(1)\<close>)
    qed
  next
    case ExecFatal
    then show ?thesis using t by (auto simp: sched_abort_def intro!: status_change.kept)
  qed (use t in simp)
qed

lemma thread_step_change:
  assumes ok: "sched_ok s" "pc_in (block_size s) p" "\<And>d. pc_claim p = Some d \<Longrightarrow> claimable s d" "bitflags_contains c"
    and t: "thread_step c x s reason p = Some (s', reason', p')" and adm: "admissible x p"
  shows "status_change x s p s' p'"
proof -
  have sz: "sized s" by (rule sched_okD(1) [OF ok(1)])
  show ?thesis
  proof (cases p)
    case (ValidationSlot i)
    show ?thesis
    proof (cases "i < block_size s \<and> st s i = ReadyToExecute")
      case True
      with t ValidationSlot have s': "s' = set_status s i Executing" "p' = HasTask (Execution \<lparr>tx_idx = i, tx_incarnation = inc s i\<rparr>)"
        by (auto simp: validation_slot_cases [OF sz] Let_def)
      show ?thesis unfolding s' ValidationSlot by (rule status_change_taken [OF sz]) (use True in auto)
    next
      case False
      then have "s' = s" "pc_claim p' = None" "\<And>v. p' \<noteq> AbortSucceeded v"
        using t ValidationSlot by (auto simp: validation_slot_cases [OF sz] Let_def split: if_splits)
      with ValidationSlot show ?thesis by (auto intro!: status_change_same)
    qed
  next
    case (ExecutionSlot i)
    show ?thesis
    proof (cases "i < block_size s \<and> st s i = ReadyToExecute")
      case True
      with t ExecutionSlot have s': "s' = set_status s i Executing" "p' = HasTask (Execution \<lparr>tx_idx = i, tx_incarnation = inc s i\<rparr>)"
        by (auto simp: try_execute_cases [OF sz])
      show ?thesis unfolding s' ExecutionSlot by (rule status_change_taken [OF sz]) (use True in auto)
    next
      case False
      then show ?thesis
        using t ExecutionSlot by (auto simp: try_execute_cases [OF sz] intro!: status_change_same)
    qed
  next
    case (Reexecute v)
    show ?thesis
    proof (cases "tx_idx v < block_size s \<and> st s (tx_idx v) = ReadyToExecute")
      case True
      with t Reexecute have s': "s' = set_status s (tx_idx v) Executing"
        "p' = AfterTask (Some (Execution \<lparr>tx_idx = tx_idx v, tx_incarnation = inc s (tx_idx v)\<rparr>))"
        by (auto simp: try_execute_cases [OF sz])
      show ?thesis unfolding s' Reexecute by (rule status_change_taken [OF sz]) (use True in auto)
    next
      case False
      then show ?thesis
        using t Reexecute by (auto simp: try_execute_cases [OF sz] intro!: status_change_same)
    qed
  next
    case (HasTask task)
    show ?thesis
    proof (cases task)
      case (Execution v)
      then show ?thesis
        using t execution_changes_status [OF ok(1) _ ok(4), of v x s' p'] ok(3) adm HasTask by auto
    next
      case (Validation v)
      have i: "tx_idx v < block_size s" using ok(2) HasTask Validation by simp
      obtain b where x: "x = ReadsValid b" using adm HasTask Validation by (cases x) auto
      show ?thesis
      proof (cases "\<not> b \<and> has_run s (tx_idx v)")
        case True
        then have s': "s' = (set_status s (tx_idx v) Aborting)\<lparr>num_validated :=
            if st s (tx_idx v) = Validated then usize_sub (num_validated s) 1 else num_validated s\<rparr>" "p' = AbortSucceeded v"
          using t HasTask Validation x by (auto simp: try_validation_abort_eq [OF ok(1) i] has_run_def)
        have "st s' j = (if j = tx_idx v then Aborting else st s j)" for j
          using i sz by (simp add: s'(1) st_set_status sized_def)
        then show ?thesis
          using True by (intro status_change.aborted [OF _ s'(2)]) (simp_all add: HasTask Validation s'(1))
      next
        case False
        then have "s' = s" "p' = ReadsChecked v"
          using t HasTask Validation x
          by (cases b; auto simp: try_validation_abort_eq [OF ok(1) i] has_run_def)+
        then show ?thesis using HasTask Validation by (auto intro!: status_change_same)
      qed
    qed
  next
    case (AbortSucceeded v)
    have cl: "tx_idx v < block_size s" "st s (tx_idx v) = Aborting" using ok(3) AbortSucceeded by auto
    then have s': "s' = readied s (tx_idx v)" "p' = Readied v"
      using t AbortSucceeded set_ready_status_eq [OF sz cl] by auto
    show ?thesis
      by (rule status_change.readied [OF AbortSucceeded s'(2) cl(2)]) (simp_all add: s'(1) readied_views [OF sz cl(1)])
  next
    case (ReadsChecked v)
    have i: "tx_idx v < block_size s" using ok(2) ReadsChecked by simp
    show ?thesis
    proof (cases "st s (tx_idx v) = Executed")
      case True
      then have s': "s' = count_validated s (tx_idx v)" "p' = AfterTask None"
        using t ReadsChecked finish_validation_kept_eq [OF sz i] by auto
      show ?thesis
        by (rule status_change.validated [OF ReadsChecked s'(2) True]) (simp_all add: s'(1) st_count_validated [OF sz i])
    next
      case False
      then show ?thesis
        using t ReadsChecked finish_validation_kept_eq [OF sz i] by (auto intro!: status_change_same)
    qed
  next
    case (AfterTask r)
    then show ?thesis
      using t by (cases "AfterTask r" rule: pc_claim.cases) (auto intro!: status_change_same split: if_splits)
  next
    case Exit
    then show ?thesis using t by simp
  qed (use t in \<open>auto simp: Let_def take_validation_idx_def take_execution_idx_def split: if_splits intro!: status_change.kept\<close>)
qed

lemma has_run_lost:
  "status_change x s p s' p' \<Longrightarrow> has_run s j \<Longrightarrow> \<not> has_run s' j \<Longrightarrow> \<exists>v. p' = AbortSucceeded v \<and> tx_idx v = j"
  by (erule status_change.cases) (auto simp: has_run_def split: if_splits)

lemma has_run_gained:
  "status_change x s p s' p' \<Longrightarrow> \<not> has_run s j \<Longrightarrow> has_run s' j \<Longrightarrow>
    \<exists>v flags. p = HasTask (Execution v) \<and> x = ExecOk flags \<and> tx_idx v = j"
  by (erule status_change.cases) (auto simp: has_run_def split: if_splits)

lemma executed_has_run:
  "status_change (ExecOk flags) s (HasTask (Execution v)) s' p' \<Longrightarrow> has_run s' (tx_idx v)"
  by (erule status_change.cases) (auto simp: has_run_def)

end
