(* ===== verification/Engine_Invariant.thy ===== *)
theory Engine_Invariant
  imports Engine Status_Changes
begin

text \<open>
  Why the workers may leave: in every interleaving of the whole engine, a read that does not hold in
  the shared memory is one that somebody is still going to look at.
\<close>

section \<open>Who looks at a read again\<close>

text \<open>
  A thread checks the read \<open>r\<close> of \<open>j\<close> again, or is about to bring the validation index down to \<open>j\<close>.
\<close>

fun rechecks :: "(u8 \<Rightarrow> u8 \<Rightarrow> bool) \<Rightarrow> pc \<Rightarrow> stage \<Rightarrow> tx_idx_t \<Rightarrow> memory_location_hash \<times> read_origins \<Rightarrow> bool" where
  "rechecks c (ValidationSlot i) \<sigma> j r = (i = j)"
| "rechecks c (AfterTask (Some (Validation v))) \<sigma> j r = (tx_idx v = j)"
| "rechecks c (HasTask (Validation v)) \<sigma> j r = (tx_idx v = j \<and> (case \<sigma> of Checking rs \<Rightarrow> r \<in> set rs | _ \<Rightarrow> True))"
| "rechecks c (HasTask (Execution v)) \<sigma> j r =
     (tx_idx v < j \<and> (case \<sigma> of Recorded _ flags \<Rightarrow> c flags WroteNewLocation | _ \<Rightarrow> False))"
| "rechecks c (AbortSucceeded v) \<sigma> j r = (tx_idx v < j)"
| "rechecks c (Readied v) \<sigma> j r = (tx_idx v < j)"
| "rechecks c _ \<sigma> j r = False"

text \<open>A step of the scheduler hands on what it no longer looks at.\<close>

definition recheck_step ::
    "(u8 \<Rightarrow> u8 \<Rightarrow> bool) \<Rightarrow> scheduler \<Rightarrow> pc \<Rightarrow> stage \<Rightarrow> scheduler \<Rightarrow> pc \<Rightarrow> bool" where
  "recheck_step c s p \<sigma> s' p' \<longleftrightarrow>
     (\<forall>j < block_size s. has_run s' j \<longrightarrow> (\<forall>r. validation_idx s' \<le> j \<or> rechecks c p' Fresh j r \<or>
        has_run s j \<and> \<not> validation_idx s \<le> j \<and> \<not> rechecks c p \<sigma> j r))"

text \<open>The answer the engine gives at a task.\<close>

fun answers :: "choice \<Rightarrow> pc \<Rightarrow> stage \<Rightarrow> bool" where
  "answers x (HasTask (Execution v)) \<sigma> =
     (case \<sigma> of Recorded _ flags \<Rightarrow> x = ExecOk flags | _ \<Rightarrow> (\<forall>flags. x \<noteq> ExecOk flags))"
| "answers x (HasTask (Validation v)) \<sigma> = (x = ReadsValid True \<and> \<sigma> = Checking [] \<or> x = ReadsValid False \<and> \<sigma> = Failed)"
| "answers x p \<sigma> = True"

lemma recheck_stepI:
  assumes "\<And>j r. j < block_size s \<Longrightarrow> has_run s' j \<Longrightarrow> \<not> validation_idx s' \<le> j \<Longrightarrow> \<not> rechecks c p' Fresh j r \<Longrightarrow>
    has_run s j \<and> \<not> validation_idx s \<le> j \<and> \<not> rechecks c p \<sigma> j r"
  shows "recheck_step c s p \<sigma> s' p'"
  unfolding recheck_step_def using assms by blast

lemma recheck_step_same:
  assumes "\<And>j r. rechecks c p \<sigma> j r \<Longrightarrow> rechecks c p' Fresh j r \<or> \<not> has_run s j"
  shows "recheck_step c s p \<sigma> s p'"
  using assms by (intro recheck_stepI) blast

lemma recheck_step_status:
  assumes "st s i = ReadyToExecute \<or> st s i = Executing" "validation_idx s' = validation_idx s"
    and "\<And>j. st s' j = (if j = i then x else st s j)" "x \<noteq> Executed" "x \<noteq> Validated"
    and "\<And>j r. rechecks c p \<sigma> j r \<Longrightarrow> j = i"
  shows "recheck_step c s p \<sigma> s' p'"
  using assms by (intro recheck_stepI) (auto simp: has_run_def split: if_splits)

lemma recheck_grab:
  assumes "sized s" "i < block_size s" "st s i = ReadyToExecute" "\<And>j r. rechecks c p \<sigma> j r \<Longrightarrow> j = i"
  shows "recheck_step c s p \<sigma> (set_status s i Executing) p'"
  using assms st_set_status [of i s Executing]
  by (intro recheck_step_status [of s i _ Executing]) (auto simp: sized_def)

lemma recheck_finish_execution:
  assumes "sched_ok s" "claimable s (ClaimExec v)" "bitflags_contains c" "finish_execution c s v flags = Some (s', r)"
  shows "recheck_step c s (HasTask (Execution v)) (Recorded res flags) s' (AfterTask r)"
proof -
  let ?i = "tx_idx v"
  have v: "?i < block_size s" "st s ?i = Executing" "v = \<lparr>tx_idx = ?i, tx_incarnation = inc s ?i\<rparr>"
    using assms(2) by auto
  have st': "st s' j = (if j = ?i then Executed else if j \<in> set (deps s ?i) then ReadyToExecute else st s j)"
    and va: "validation_idx s' = (if c flags WroteNewLocation then min (validation_idx s) (?i + 1) else validation_idx s)"
    and r: "r = (if ?i < validation_idx s then Some (Validation v) else None)" for j
    using finish_execution_effect [where c = c and flags = flags,
        OF assms(1) v(1,2) contains_NeedValidation [OF assms(3)] v(3)] assms(4) by auto
  show ?thesis
  proof (rule recheck_stepI)
    fix j q assume "has_run s' j" "\<not> validation_idx s' \<le> j" "\<not> rechecks c (AfterTask r) Fresh j q"
    then show "has_run s j \<and> \<not> validation_idx s \<le> j \<and> \<not> rechecks c (HasTask (Execution v)) (Recorded res flags) j q"
      by (cases "j = ?i") (auto simp: has_run_def st' va r split: if_splits)
  qed
qed

lemma recheck_abort:
  assumes "sched_ok s" "tx_idx v < block_size s" "try_validation_abort s v = Some (s', b)"
  shows "recheck_step c s (HasTask (Validation v)) \<sigma> s' (if b then AbortSucceeded v else ReadsChecked v)"
proof -
  have il: "tx_idx v < length (transactions_status s)" using assms(1,2) by (simp add: sched_ok_def sized_def)
  show ?thesis
    using assms(3) try_validation_abort_eq [OF assms(1,2)]
    by (intro recheck_stepI) (auto simp: has_run_def st_set_status [OF il] split: if_splits)
qed

lemma recheck_thread_step:
  assumes ok: "sched_ok s" "pc_in (block_size s) p" "\<And>d. pc_claim p = Some d \<Longrightarrow> claimable s d" "bitflags_contains c"
    and t: "thread_step c x s reason p = Some (s', reason', p')" and ans: "answers x p \<sigma>"
    and adm: "admissible x p"
    and na: "\<not> reason" "\<not> aborted s'"
  shows "recheck_step c s p \<sigma> s' p'"
proof -
  have sz: "sized s" by (rule sched_okD(1) [OF ok(1)])
  have il: "i < length (transactions_status s)" if "i < block_size s" for i using sz that by (simp add: sized_def)
  show ?thesis
  proof (cases p)
    case (LoadValidation e)
    with t show ?thesis by (intro recheck_stepI) (auto simp: Let_def split: if_splits)
  next
    case TakeValidation
    with t have "s' = s\<lparr>validation_idx := usize_add (validation_idx s) 1\<rparr>" "p' = ValidationSlot (validation_idx s)"
      by (auto simp: take_validation_idx_def)
    moreover have "st s' = st s" using calculation(1) by (simp add: fun_eq_iff)
    ultimately show ?thesis
      using TakeValidation usize_inc_le [of "validation_idx s"]
      by (intro recheck_stepI) (auto simp: has_run_def)
  next
    case TakeExecution
    with t have "validation_idx s' = validation_idx s" "st s' = st s"
      by (auto simp: take_execution_idx_def fun_eq_iff)
    with TakeExecution show ?thesis by (intro recheck_stepI) (auto simp: has_run_def)
  next
    case (ValidationSlot i)
    note slot = validation_slot_cases [OF sz, of i]
    show ?thesis
    proof (cases "i < block_size s \<and> st s i = ReadyToExecute")
      case True
      with t slot ValidationSlot have s': "s' = set_status s i Executing" by (auto simp: Let_def)
      show ?thesis
        unfolding ValidationSlot s' by (rule recheck_grab [OF sz]) (use True in auto)
    next
      case False
      then show ?thesis
        using t slot ValidationSlot
        by (intro recheck_stepI) (auto simp: has_run_def Let_def split: if_splits)
    qed
  next
    case (ExecutionSlot i)
    with t consider "s' = s" | "s' = set_status s i Executing" "i < block_size s" "st s i = ReadyToExecute"
      using try_execute_cases [OF sz, of i] by (auto split: if_splits)
    then show ?thesis
    proof cases
      case 2
      show ?thesis unfolding ExecutionSlot 2(1) by (rule recheck_grab [OF sz 2(2,3)]) simp
    qed (use ExecutionSlot in \<open>auto intro: recheck_step_same\<close>)
  next
    case (Reexecute v)
    with t consider "s' = s" | "s' = set_status s (tx_idx v) Executing" "tx_idx v < block_size s" "st s (tx_idx v) = ReadyToExecute"
      using try_execute_cases [OF sz, of "tx_idx v"] by (auto split: if_splits)
    then show ?thesis
    proof cases
      case 2
      show ?thesis unfolding Reexecute 2(1) by (rule recheck_grab [OF sz 2(2,3)]) simp
    qed (use Reexecute in \<open>auto intro: recheck_step_same\<close>)
  next
    case (HasTask task)
    show ?thesis
    proof (cases task)
      case (Execution v)
      have cl: "claimable s (ClaimExec v)" using ok(3) HasTask Execution by simp
      show ?thesis
      proof (cases x)
        case (ExecOk flags)
        obtain r0 where "\<sigma> = Recorded r0 flags"
          using ans HasTask Execution ExecOk by (auto split: stage.splits)
        then show ?thesis
          using t HasTask Execution ExecOk recheck_finish_execution [OF ok(1) cl ok(4)] by auto
      next
        case ExecRetry
        then show ?thesis
          using t ans HasTask Execution by (intro recheck_stepI) (auto split: stage.splits)
      next
        case (ExecBlocking b)
        have nr: "\<not> rechecks c p \<sigma> j r" for j r
          using ans HasTask Execution ExecBlocking by (auto split: stage.splits)
        have b: "b < tx_idx v" "b < block_size s" using cl adm HasTask Execution ExecBlocking by auto
        show ?thesis
        proof (cases "st s b \<in> {Executed, Validated}")
          case True
          then have s': "s' = s"
            using t add_dependency_refused [OF sz b(2)] HasTask Execution ExecBlocking by auto
          show ?thesis unfolding s' by (rule recheck_step_same) (use nr in blast)
        next
          case False
          then have "s' = with_dependency s (tx_idx v) b"
            using t add_dependency_added [OF sz _ b(1)] cl HasTask Execution ExecBlocking by auto
          then show ?thesis
            using cl nr with_dependency_views(1) [OF sz _ b(2)]
            by (intro recheck_step_status [of s "tx_idx v" s' Aborting]) auto
        qed
      next
        case ExecFatal
        then show ?thesis using t na HasTask Execution by (auto simp: sched_abort_def)
      qed (use t HasTask Execution in simp)
    next
      case (Validation v)
      have i: "tx_idx v < block_size s" using ok(2) HasTask Validation by simp
      from ans HasTask Validation consider "x = ReadsValid True" "\<sigma> = Checking []" | "x = ReadsValid False" "\<sigma> = Failed"
        by auto
      then show ?thesis
      proof cases
        case 1
        then show ?thesis using t HasTask Validation by (auto intro: recheck_step_same)
      next
        case 2
        then show ?thesis
          using t HasTask Validation recheck_abort [OF ok(1) i] by (auto simp: Option.bind_eq_Some_conv)
      qed
    qed
  next
    case (AbortSucceeded v)
    have cl: "tx_idx v < block_size s" "st s (tx_idx v) = Aborting" using ok(3) AbortSucceeded by auto
    then have "s' = readied s (tx_idx v)" "p' = Readied v"
      using t AbortSucceeded set_ready_status_eq [OF sz cl] by auto
    then show ?thesis
      using cl AbortSucceeded by (intro recheck_stepI) (auto simp: has_run_def readied_views [OF sz] split: if_splits)
  next
    case (Readied v)
    then show ?thesis
      using t by (intro recheck_stepI) (auto simp: has_run_def)
  next
    case (ReadsChecked v)
    have i: "tx_idx v < block_size s" using ok(2) ReadsChecked by simp
    show ?thesis
      using t ReadsChecked finish_validation_kept_eq [OF sz i] st_count_validated [OF sz i]
      by (intro recheck_stepI) (auto simp: has_run_def split: if_splits)
  next
    case (AfterTask r)
    then have s': "s' = s" "p' = (case r of Some task \<Rightarrow> HasTask task | None \<Rightarrow> Loop)" using t na by auto
    show ?thesis
    proof (cases r)
      case None
      then show ?thesis unfolding s' AfterTask by (intro recheck_step_same) simp
    next
      case (Some task)
      then show ?thesis unfolding s' AfterTask by (intro recheck_step_same) (cases task; simp)
    qed
  qed (use t in \<open>auto intro!: recheck_step_same\<close>)
qed

section \<open>Who holds what a transaction has written\<close>

text \<open>
  A transaction that has not run shows no value, unless a thread has just recorded its execution, or
  has aborted it and is about to mark its writes.
\<close>

definition clean :: "'code mv_memory \<Rightarrow> tx_idx_t \<Rightarrow> bool" where
  "clean m i \<longleftrightarrow> (\<forall>l inc x. entry_at m l i \<noteq> Some (Data inc x))"

fun holds_data :: "pc \<Rightarrow> stage \<Rightarrow> tx_idx_t \<Rightarrow> bool" where
  "holds_data (HasTask (Execution v)) \<sigma> i = (tx_idx v = i \<and> (case \<sigma> of Recorded _ _ \<Rightarrow> True | _ \<Rightarrow> False))"
| "holds_data (AbortSucceeded v) \<sigma> i = (tx_idx v = i \<and> \<sigma> \<noteq> Converted)"
| "holds_data _ \<sigma> i = False"

lemma clean_thread_step:
  assumes ok: "sched_ok s" "pc_in (block_size s) p" "\<And>d. pc_claim p = Some d \<Longrightarrow> claimable s d" "bitflags_contains c"
    and t: "thread_step c x s reason p = Some (s', reason', p')" and ans: "answers x p \<sigma>"
    and adm: "admissible x p" and conv: "\<And>v. p = AbortSucceeded v \<Longrightarrow> \<sigma> = Converted"
    and not_run: "\<not> has_run s' j"
  shows "holds_data p' Fresh j \<or> \<not> has_run s j \<and> \<not> holds_data p \<sigma> j"
proof (cases "has_run s j")
  case True
  then show ?thesis using has_run_lost [OF thread_step_change [OF ok t adm] True not_run] by auto
next
  case False
  have "\<not> holds_data p \<sigma> j"
  proof
    assume h: "holds_data p \<sigma> j"
    then obtain v r flags where p: "p = HasTask (Execution v)" "tx_idx v = j" and s: "\<sigma> = Recorded r flags"
      using conv by (cases "(p, \<sigma>, j)" rule: holds_data.cases) (auto split: stage.splits)
    then have "x = ExecOk flags" using ans by simp
    then show False using executed_has_run thread_step_change [OF ok t adm] p not_run by blast
  qed
  with False show ?thesis by blast
qed

section \<open>The memory\<close>

definition memory_ok :: "scheduler \<Rightarrow> 'code mv_memory \<Rightarrow> bool" where
  "memory_ok s m \<longleftrightarrow> mv_ok m \<and> length (last_locations m) = block_size s \<and> (\<forall>j < block_size s. wf_reads (reads_of m j))"

lemma validate_reads:
  assumes "memory_ok s m" "j < block_size s" "(l, os) \<in> set (reads_of m j)"
  shows "validate_location m j (l, os) \<longleftrightarrow> match_origins os (mem_below m l j)" "wf_origins os"
proof -
  show "wf_origins os" using assms by (auto simp: memory_ok_def wf_reads_def list_all_iff)
  then show "validate_location m j (l, os) \<longleftrightarrow> match_origins os (mem_below m l j)" by (rule validate_location_wf)
qed

lemma same_reads_valid:
  assumes "memory_ok s m" "memory_ok s m'" "j < block_size s" "r \<in> set (reads_of m j)"
    and "last_locations m' ! j = last_locations m ! j" "\<And>l. mem_below m' l j = mem_below m l j"
  shows "validate_location m' j r = validate_location m j r"
proof -
  obtain l os where r: "r = (l, os)" by (cases r)
  show ?thesis
    using validate_reads(1) [OF assms(1,3), of l os] validate_reads(1) [OF assms(2,3), of l os] assms(4-6) by (simp add: r)
qed

text \<open>A failed execution touches neither entries nor recorded reads; a successful one records.\<close>

lemma vm_execute_error_memory:
  assumes "vm_execute vm ms m v = Some (Inl e, m')"
  obtains codes where "m' = m\<lparr>new_bytecodes := codes\<rparr>"
proof -
  obtain a where a: "vm_attempt vm ms (tx_idx v) = Some a"
    using assms by (auto simp: vm_execute_def Option.bind_eq_Some_conv)
  show thesis
  proof (cases a)
    case (Inl e')
    then have "m' = m" using assms a by (simp add: vm_execute_def)
    then show ?thesis by (intro that [of "new_bytecodes m"]) simp
  next
    case (Inr x)
    obtain w codes where w: "vm_writes vm (fst x) (snd x) (new_bytecodes m) = Some (w, codes)"
      using assms a Inr by (auto simp: vm_execute_def Option.bind_eq_Some_conv split: prod.splits)
    show ?thesis
    proof (cases w)
      case (Inl e')
      then show ?thesis using assms a Inr w that by (auto simp: vm_execute_def split: prod.splits)
    next
      case (Inr ws)
      then show ?thesis
        using assms a \<open>a = Inr x\<close> w by (auto simp: vm_execute_def Option.bind_eq_Some_conv split: prod.splits)
    qed
  qed
qed

lemma mv_same:
  assumes "data m' = data m" "last_locations m' = last_locations m"
  shows "entry_at m' l j = entry_at m l j" "mem_below m' l j = mem_below m l j" "mv_ok m' = mv_ok m"
    "memory_ok s m' = memory_ok s m" "clean m' j = clean m j" "validate_location m' j r = validate_location m j r"
proof -
  show e: "entry_at m' l j = entry_at m l j" for l j by (simp add: entry_at_def assms)
  show "mem_below m' l j = mem_below m l j" by (simp add: mem_below_def assms)
  show ok: "mv_ok m' = mv_ok m" by (simp add: mv_ok_def e assms)
  show "memory_ok s m' = memory_ok s m" by (simp add: memory_ok_def ok assms)
  show "clean m' j = clean m j" by (simp add: clean_def e)
  show "validate_location m' j r = validate_location m j r" by (simp add: validate_location_def assms split: prod.splits)
qed

lemma execution_flags_wrote:
  assumes "bitflags_contains c"
  shows "c (execution_flags i is_lazy wrote_new) WroteNewLocation = wrote_new"
  using assms by (simp add: bitflags_contains_def execution_flags_def NeedValidation_def WroteNewLocation_def)

text \<open>Recording an execution of a clean transaction that writes no new location keeps the others' reads valid.\<close>

lemma vm_execute_memory:
  assumes ex: "vm_execute vm ms m v = Some (Inr (r, flags), m')" and ok: "memory_ok s m" and c: "bitflags_contains c"
  shows "tx_idx v < block_size s" "memory_ok s m'" "j \<noteq> tx_idx v \<Longrightarrow> last_locations m' ! j = last_locations m ! j"
    "j \<noteq> tx_idx v \<Longrightarrow> entry_at m' l j = entry_at m l j"
    "clean m (tx_idx v) \<Longrightarrow> \<not> c flags WroteNewLocation \<Longrightarrow> j < block_size s \<Longrightarrow> j \<noteq> tx_idx v \<Longrightarrow> q \<in> set (reads_of m j) \<Longrightarrow>
       validate_location m j q \<Longrightarrow> validate_location m' j q"
    "j < block_size s \<Longrightarrow> j < tx_idx v \<Longrightarrow> q \<in> set (reads_of m j) \<Longrightarrow> validate_location m' j q = validate_location m j q"
proof -
  obtain db ws codes mc new where wf: "wf_reads (db_read_set db)"
    and lz: "note_lazy db (m\<lparr>new_bytecodes := codes\<rparr>) = Some mc"
    and rec: "mv_record mc v (db_read_set db) ws = Some (m', new)"
    and flags: "flags = execution_flags (tx_idx v) (db_is_lazy db) new"
    using vm_execute_records [OF ex] by metis
  have d: "data mc = data m" "last_locations mc = last_locations m"
    using lz by (auto simp: note_lazy_def add_lazy_addresses_def split: if_splits)
  note same = mv_same [OF d]
  have mc: "mv_ok mc" "length (last_locations mc) = block_size s" using ok same(3) d(2) by (simp_all add: memory_ok_def)
  note loc = mv_record_locations [OF mc(1) rec] and raw = mv_record_raw [OF mc(1) rec]
  show i: "tx_idx v < block_size s" using raw(1) mc(2) by simp
  show ll: "last_locations m' ! j = last_locations m ! j" if "j \<noteq> tx_idx v" for j using loc(4) that d(2) by simp
  show e: "entry_at m' l j = entry_at m l j" if "j \<noteq> tx_idx v" for l j using raw(5) that same(1) by simp
  show ok': "memory_ok s m'"
    using ok ll loc(1,3) mc(2) mv_record_ok [OF mc(1) rec] wf by (auto simp: memory_ok_def) (metis)
  show "validate_location m' j q = validate_location m j q" if "j < block_size s" "j < tx_idx v" "q \<in> set (reads_of m j)" for j q
    using that ll mem_below_record [OF mc(1) rec, of j] same(2)
    by (intro same_reads_valid [OF ok ok']) auto
  then have low: "validate_location m' j q = validate_location m j q"
    if "j < block_size s" "j < tx_idx v" "q \<in> set (reads_of m j)" for j q
    using that .
  show "validate_location m' j q"
    if cl: "clean m (tx_idx v)" "\<not> c flags WroteNewLocation" and j: "j < block_size s" "j \<noteq> tx_idx v"
      and q: "q \<in> set (reads_of m j)" "validate_location m j q" for j q
  proof (cases "tx_idx v < j")
    case True
    obtain l os where lo: "q = (l, os)" by (cases q)
    note vr = validate_reads [OF ok j(1), of l os] and vr' = validate_reads [OF ok' j(1), of l os]
    have wf: "wf_origins os" "match_origins os (mem_below m l j)" using vr q by (simp_all add: lo)
    have oks: "mv_ok m" "mv_ok m'" using ok ok' by (simp_all add: memory_ok_def)
    have nw: "written ws \<subseteq> writes_of m (tx_idx v)"
      using raw(4) cl(2) d(2) execution_flags_wrote [OF c] by (simp add: flags)
    have "match_origins os (mem_below m' l j)"
    proof (cases "l \<in> writes_of m (tx_idx v)")
      case True
      then have "entry_at m l (tx_idx v) = Some Estimate"
        using mv_okD(3) [OF oks(1), of "tx_idx v" l] ok i cl(1)
        by (cases "entry_at m l (tx_idx v)"; cases "the (entry_at m l (tx_idx v))") (auto simp: memory_ok_def clean_def)
      then show ?thesis
        using match_origins_skip_estimate [OF oks \<open>tx_idx v < j\<close> _ _ wf] e by simp
    next
      case False
      then have "l \<notin> written ws" using nw by blast
      then have "map_of (rev ws) l = None" by (simp add: map_of_eq_None_iff written_def)
      then have "entry_at m' l k = entry_at m l k" for k
        using raw(5) [of l k] False d(2) same(1) by (simp split: if_splits)
      then have "mem_below m' l j = mem_below m l j" by (intro mem_below_cong oks) simp
      then show ?thesis using wf by simp
    qed
    then show ?thesis using vr' q(1) ll [OF j(2)] by (simp add: lo)
  next
    case False
    then show ?thesis using low [of j q] j q by simp
  qed
qed

lemma convert_memory:
  assumes conv: "convert_writes_to_estimates m i = Some m'" and ok: "memory_ok s m"
  shows "memory_ok s m'" "clean m' i" "last_locations m' = last_locations m" "j \<noteq> i \<Longrightarrow> entry_at m' l j = entry_at m l j"
    "j < block_size s \<Longrightarrow> j < i \<Longrightarrow> q \<in> set (reads_of m j) \<Longrightarrow> validate_location m' j q = validate_location m j q"
proof -
  have m: "mv_ok m" using ok by (simp add: memory_ok_def)
  note raw = convert_raw [OF m conv]
  show ll: "last_locations m' = last_locations m" by (rule raw(3))
  show "j \<noteq> i \<Longrightarrow> entry_at m' l j = entry_at m l j" by (simp add: raw(4))
  show ok': "memory_ok s m'" using ok convert_ok [OF m conv] by (simp add: memory_ok_def ll)
  show "clean m' i"
    using mv_okD(5) [OF m] by (auto simp: clean_def raw(4))
  show "j < block_size s \<Longrightarrow> j < i \<Longrightarrow> q \<in> set (reads_of m j) \<Longrightarrow> validate_location m' j q = validate_location m j q"
    using mem_below_convert [OF m conv, of j] ll by (intro same_reads_valid [OF ok ok']) auto
qed

section \<open>The invariant of the engine\<close>

definition awaited :: "(u8 \<Rightarrow> u8 \<Rightarrow> bool) \<Rightarrow> 'eof engine \<Rightarrow> tx_idx_t \<Rightarrow> memory_location_hash \<times> read_origins \<Rightarrow> bool" where
  "awaited c e j r \<longleftrightarrow> (\<exists>k < length (pcs (workers e)). rechecks c (pcs (workers e) ! k) (stages e ! k) j r)"

definition held :: "'eof engine \<Rightarrow> tx_idx_t \<Rightarrow> bool" where
  "held e i \<longleftrightarrow> (\<exists>k < length (pcs (workers e)). holds_data (pcs (workers e) ! k) (stages e ! k) i)"

definition reads_inv :: "(u8 \<Rightarrow> u8 \<Rightarrow> bool) \<Rightarrow> 'eof engine \<Rightarrow> bool" where
  "reads_inv c e \<longleftrightarrow> (\<forall>j < block_size (sched (workers e)). has_run (sched (workers e)) j \<longrightarrow>
     (\<forall>r \<in> set (reads_of (memory e) j).
        validate_location (memory e) j r \<or> validation_idx (sched (workers e)) \<le> j \<or> awaited c e j r))"

definition clean_inv :: "'eof engine \<Rightarrow> bool" where
  "clean_inv e \<longleftrightarrow> (\<forall>i < block_size (sched (workers e)). \<not> has_run (sched (workers e)) i \<longrightarrow> clean (memory e) i \<or> held e i)"

definition engine_inv :: "(u8 \<Rightarrow> u8 \<Rightarrow> bool) \<Rightarrow> 'eof engine \<Rightarrow> bool" where
  "engine_inv c e \<longleftrightarrow> workers_inv (workers e) \<and> length (stages e) = length (pcs (workers e)) \<and>
     memory_ok (sched (workers e)) (memory e) \<and>
     (\<not> aborted (sched (workers e)) \<longrightarrow> clean_inv e \<and> reads_inv c e)"

text \<open>What the step of one thread hands on to the others.\<close>

definition hand_on ::
    "(u8 \<Rightarrow> u8 \<Rightarrow> bool) \<Rightarrow> scheduler \<Rightarrow> pc \<Rightarrow> stage \<Rightarrow> 'code mv_memory \<Rightarrow> scheduler \<Rightarrow> pc \<Rightarrow> stage \<Rightarrow> 'code mv_memory \<Rightarrow> bool" where
  "hand_on c s p \<sigma> m s' p' \<sigma>' m' \<longleftrightarrow>
     (\<forall>j < block_size s. \<forall>r. has_run s' j \<longrightarrow> r \<in> set (reads_of m' j) \<longrightarrow>
        validate_location m' j r \<or> validation_idx s' \<le> j \<or> rechecks c p' \<sigma>' j r \<or>
        has_run s j \<and> r \<in> set (reads_of m j) \<and> \<not> validate_location m j r \<and> \<not> validation_idx s \<le> j \<and> \<not> rechecks c p \<sigma> j r) \<and>
     (\<forall>i < block_size s. \<not> has_run s' i \<longrightarrow>
        clean m' i \<or> holds_data p' \<sigma>' i \<or> \<not> has_run s i \<and> \<not> clean m i \<and> \<not> holds_data p \<sigma> i)"

lemma ex_thread_update:
  assumes "\<exists>l < length ps. Q (ps ! l) (\<sigma>s ! l)" "\<not> Q (ps ! k) (\<sigma>s ! k)" "length \<sigma>s = length ps"
  shows "\<exists>l < length (ps[k := p']). Q (ps[k := p'] ! l) (\<sigma>s[k := \<sigma>'] ! l)"
proof -
  obtain l where l: "l < length ps" "Q (ps ! l) (\<sigma>s ! l)" using assms(1) by blast
  with assms(2) have "l \<noteq> k" by blast
  with l assms(3) show ?thesis by (intro exI [of _ l]) simp
qed

lemma ex_thread_new:
  "Q p' \<sigma>' \<Longrightarrow> k < length ps \<Longrightarrow> length \<sigma>s = length ps \<Longrightarrow> \<exists>l < length (ps[k := p']). Q (ps[k := p'] ! l) (\<sigma>s[k := \<sigma>'] ! l)"
  by (intro exI [of _ k]) simp

lemma hand_on_update:
  assumes k: "k < length (pcs (workers e))" and len: "length (stages e) = length (pcs (workers e))"
    and bs: "block_size (tl_sched L) = block_size (sched (workers e))"
    and step: "hand_on c (sched (workers e)) (pcs (workers e) ! k) (stages e ! k) (memory e)
        (tl_sched L) (tl_pc L) (tl_stage L) (tl_memory L)"
    and inv: "clean_inv e" "reads_inv c e"
  shows "clean_inv (put_local e k L)" "reads_inv c (put_local e k L)"
proof -
  let ?s = "sched (workers e)"
  have aw: "awaited c (put_local e k L) j r" if "rechecks c (tl_pc L) (tl_stage L) j r" for j r
    unfolding awaited_def put_local_simps
    using ex_thread_new [where Q = "\<lambda>p \<sigma>. rechecks c p \<sigma> j r", OF that k len] .
  have aw': "awaited c (put_local e k L) j r" if "awaited c e j r" "\<not> rechecks c (pcs (workers e) ! k) (stages e ! k) j r" for j r
    using ex_thread_update [where Q = "\<lambda>p \<sigma>. rechecks c p \<sigma> j r", OF _ that(2) len] that(1)
    unfolding awaited_def put_local_simps by blast
  have he: "held (put_local e k L) i" if "holds_data (tl_pc L) (tl_stage L) i" for i
    unfolding held_def put_local_simps
    using ex_thread_new [where Q = "\<lambda>p \<sigma>. holds_data p \<sigma> i", OF that k len] .
  have he': "held (put_local e k L) i" if "held e i" "\<not> holds_data (pcs (workers e) ! k) (stages e ! k) i" for i
    using ex_thread_update [where Q = "\<lambda>p \<sigma>. holds_data p \<sigma> i", OF _ that(2) len] that(1)
    unfolding held_def put_local_simps by blast
  have "clean (tl_memory L) i \<or> held (put_local e k L) i" if i: "i < block_size ?s" "\<not> has_run (tl_sched L) i" for i
  proof -
    from step i consider "clean (tl_memory L) i" | "holds_data (tl_pc L) (tl_stage L) i"
      | "\<not> has_run ?s i" "\<not> clean (memory e) i" "\<not> holds_data (pcs (workers e) ! k) (stages e ! k) i"
      unfolding hand_on_def by blast
    then show ?thesis
    proof cases
      case 3
      then have "held e i" using inv(1) i(1) unfolding clean_inv_def by blast
      with 3(3) he' show ?thesis by blast
    qed (use he in blast)+
  qed
  then show "clean_inv (put_local e k L)" by (simp add: clean_inv_def bs)
  have "validate_location (tl_memory L) j r \<or> validation_idx (tl_sched L) \<le> j \<or> awaited c (put_local e k L) j r"
    if j: "j < block_size ?s" "has_run (tl_sched L) j" "r \<in> set (reads_of (tl_memory L) j)" for j r
  proof -
    from step j consider "validate_location (tl_memory L) j r \<or> validation_idx (tl_sched L) \<le> j"
      | "rechecks c (tl_pc L) (tl_stage L) j r"
      | "has_run ?s j" "r \<in> set (reads_of (memory e) j)" "\<not> validate_location (memory e) j r" "\<not> validation_idx ?s \<le> j"
        "\<not> rechecks c (pcs (workers e) ! k) (stages e ! k) j r"
      unfolding hand_on_def by blast
    then show ?thesis
    proof cases
      case 3
      then have "awaited c e j r" using inv(2) j(1) unfolding reads_inv_def by blast
      with 3(5) aw' show ?thesis by blast
    qed (use aw in blast)+
  qed
  then show "reads_inv c (put_local e k L)" by (simp add: reads_inv_def bs)
qed

text \<open>Each kind of step hands on.\<close>

lemma hand_on_scheduler:
  assumes "recheck_step c s p \<sigma> s' p'" "\<And>j. \<not> has_run s' j \<Longrightarrow> holds_data p' Fresh j \<or> \<not> has_run s j \<and> \<not> holds_data p \<sigma> j"
    and "data m' = data m" "last_locations m' = last_locations m"
  shows "hand_on c s p \<sigma> m s' p' Fresh m'"
  unfolding hand_on_def mv_same(5,6) [OF assms(3,4)] assms(4)
  using assms(1,2) unfolding recheck_step_def by blast

lemma hand_on_recorded:
  assumes "vm_execute vm ms m v = Some (Inr (r, flags), m')" "memory_ok s m" "bitflags_contains c"
    and "\<forall>r flags. \<sigma> \<noteq> Recorded r flags" "\<not> has_run s (tx_idx v)" "clean m (tx_idx v)"
  shows "hand_on c s (HasTask (Execution v)) \<sigma> m s (HasTask (Execution v)) (Recorded r flags) m'"
proof -
  note M = vm_execute_memory [OF assms(1-3)]
  have p: "\<not> rechecks c (HasTask (Execution v)) \<sigma> j q" "\<not> holds_data (HasTask (Execution v)) \<sigma> j" for j q
    using assms(4) by (auto split: stage.splits)
  have "validate_location m' j q \<or> rechecks c (HasTask (Execution v)) (Recorded r flags) j q \<or>
      q \<in> set (reads_of m j) \<and> \<not> validate_location m j q"
    if j: "j < block_size s" "has_run s j" "q \<in> set (reads_of m' j)" for j q
  proof -
    have ne: "j \<noteq> tx_idx v" using j(2) assms(5) by blast
    have q: "q \<in> set (reads_of m j)" using j(3) M(3) [OF ne] by simp
    show ?thesis
    proof (cases "tx_idx v < j \<and> c flags WroteNewLocation")
      case False
      then have "validate_location m j q \<Longrightarrow> validate_location m' j q"
        using M(5) [OF assms(6) _ j(1) ne q] M(6) [OF j(1) _ q] ne by (cases "tx_idx v < j") auto
      with q show ?thesis by blast
    qed simp
  qed
  moreover have "clean m' i \<or> holds_data (HasTask (Execution v)) (Recorded r flags) i \<or> \<not> clean m i" for i
    using M(4) [of i] by (cases "i = tx_idx v") (simp, simp add: clean_def, blast)
  ultimately show ?thesis
    unfolding hand_on_def using p by blast
qed

lemma hand_on_converted:
  assumes "convert_writes_to_estimates m (tx_idx v) = Some m'" "memory_ok s m" "\<not> has_run s (tx_idx v)"
  shows "hand_on c s (AbortSucceeded v) \<sigma> m s (AbortSucceeded v) Converted m'"
proof -
  note M = convert_memory [OF assms(1,2)]
  have "validate_location m' j q \<or> tx_idx v < j \<or> \<not> validate_location m j q"
    if "j < block_size s" "has_run s j" "q \<in> set (reads_of m j)" for j q
    using M(5) [OF that(1) _ that(3)] that(2) assms(3) by (cases "j = tx_idx v"; cases "j < tx_idx v") auto
  moreover have "clean m' i \<or> i \<noteq> tx_idx v \<and> \<not> clean m i" for i
    using M(2) M(4) [of i] by (cases "i = tx_idx v") (simp, simp add: clean_def, blast)
  ultimately show ?thesis
    unfolding hand_on_def M(3) rechecks.simps holds_data.simps by blast
qed

lemma hand_on_started:
  "hand_on c s (HasTask (Validation v)) \<sigma> m s (HasTask (Validation v)) (Checking (reads_of m (tx_idx v))) m"
  unfolding hand_on_def by auto

lemma hand_on_checked:
  "hand_on c s (HasTask (Validation v)) (Checking (r # rs)) m s (HasTask (Validation v))
     (if validate_location m (tx_idx v) r then Checking rs else Failed) m"
  unfolding hand_on_def by auto

lemma local_kind_hand_on:
  assumes kind: "local_kind c vm ms L L'"
    and ok: "sched_ok (tl_sched L)" "pc_in (block_size (tl_sched L)) (tl_pc L)"
      "\<And>d. pc_claim (tl_pc L) = Some d \<Longrightarrow> claimable (tl_sched L) d" "bitflags_contains c"
    and mem: "memory_ok (tl_sched L) (tl_memory L)"
    and clean: "\<And>v. tl_pc L = HasTask (Execution v) \<Longrightarrow> \<forall>r flags. tl_stage L \<noteq> Recorded r flags \<Longrightarrow> clean (tl_memory L) (tx_idx v)"
    and na: "\<not> tl_reason L" "\<not> aborted (tl_sched L')"
  shows "hand_on c (tl_sched L) (tl_pc L) (tl_stage L) (tl_memory L) (tl_sched L') (tl_pc L') (tl_stage L') (tl_memory L')"
proof -
  have sched: "hand_on c (tl_sched L) (tl_pc L) (tl_stage L) (tl_memory L) (tl_sched L') (tl_pc L') Fresh (tl_memory L')"
    if "thread_step c x (tl_sched L) (tl_reason L) (tl_pc L) = Some (tl_sched L', reason, tl_pc L')"
      "answers x (tl_pc L) (tl_stage L)" "admissible x (tl_pc L)" "\<And>v. tl_pc L = AbortSucceeded v \<Longrightarrow> tl_stage L = Converted"
      "data (tl_memory L') = data (tl_memory L)" "last_locations (tl_memory L') = last_locations (tl_memory L)" for x reason
    using recheck_thread_step [OF ok that(1,2,3) na] clean_thread_step [OF ok that(1-4)]
    by (intro hand_on_scheduler that(5,6)) blast+
  have stopped: "\<not> has_run (tl_sched L) (claim_idx d)" if "pc_claim (tl_pc L) = Some d" for d
    using ok(3) [OF that] by (cases d) (auto simp: has_run_def)
  from kind show ?thesis
  proof (cases rule: local_kind.cases)
    case (recorded v r flags m)
    then have "\<not> has_run (tl_sched L) (tx_idx v)" using stopped [of "ClaimExec v"] by simp
    then show ?thesis
      using recorded hand_on_recorded [OF recorded(4) mem ok(4)] clean by simp
  next
    case (finished v r flags s reason p)
    then show ?thesis using sched [of "ExecOk flags" reason] by simp
  next
    case (execution_error v e m s reason p)
    obtain codes where m: "m = (tl_memory L)\<lparr>new_bytecodes := codes\<rparr>"
      using vm_execute_error_memory [OF execution_error(4)] .
    have adm: "admissible (choice_of_error e) (tl_pc L)"
      using execution_error(2,4) vm_execute_blocks [of vm ms "tl_memory L" v] by (cases e) auto
    have ans: "answers (choice_of_error e) (tl_pc L) (tl_stage L)"
      using execution_error(2,3) by (cases e) (auto split: stage.splits)
    have "stage_of_error e = Fresh"
      using execution_error(1,2,5) na(2) by (cases e) (auto simp: sched_abort_def)
    then show ?thesis
      using execution_error sched [of "choice_of_error e" reason] adm ans by (simp add: m)
  next
    case (started v)
    then show ?thesis using hand_on_started by simp
  next
    case (checked v r rs)
    then show ?thesis using hand_on_checked [of c "tl_sched L" v r rs "tl_memory L"] by simp
  next
    case (validated v b s reason p)
    then show ?thesis using sched [of "ReadsValid b" reason] by (cases b) simp_all
  next
    case (converted v m)
    then have "\<not> has_run (tl_sched L) (tx_idx v)" using stopped [of "ClaimAbort (tx_idx v)"] by simp
    then show ?thesis
      using converted hand_on_converted [OF converted(4) mem] by simp
  next
    case (other outcome' s reason p)
    have "admissible ExecRetry (tl_pc L)" "answers ExecRetry (tl_pc L) (tl_stage L)"
      using other(2) by (cases "tl_pc L"; simp)+
    then show ?thesis using other sched [of ExecRetry reason] by simp
  qed
qed

lemma engine_local:
  assumes "engine_inv c e" "k < length (pcs (workers e))"
  shows "sched_ok (sched (workers e))" "pc_in (block_size (sched (workers e))) (pcs (workers e) ! k)"
    "pc_claim (pcs (workers e) ! k) = Some d \<Longrightarrow> claimable (sched (workers e)) d"
    "memory_ok (sched (workers e)) (memory e)" "\<not> aborted (sched (workers e)) \<Longrightarrow> \<not> abort_reason (workers e)"
  using assms unfolding engine_inv_def machine_inv_def claims_ok_def by auto

lemma claims_unique:
  assumes "engine_inv c e" "k < length (pcs (workers e))" "l < length (pcs (workers e))"
    and "pc_claim (pcs (workers e) ! k) = Some d" "pc_claim (pcs (workers e) ! l) = Some d'" "claim_idx d = claim_idx d'"
  shows "k = l"
  using assms unfolding engine_inv_def machine_inv_def claims_ok_def by metis

text \<open>A transaction that a thread is to execute shows nothing of an earlier execution.\<close>

lemma executing_not_held:
  assumes inv: "engine_inv c e" and k: "k < length (pcs (workers e))"
    and p: "pcs (workers e) ! k = HasTask (Execution v)" "\<forall>r flags. stages e ! k \<noteq> Recorded r flags"
  shows "\<not> held e (tx_idx v)"
proof
  let ?ps = "pcs (workers e)"
  assume "held e (tx_idx v)"
  then obtain l where l: "l < length ?ps" "holds_data (?ps ! l) (stages e ! l) (tx_idx v)"
    by (auto simp: held_def)
  then obtain d where d: "pc_claim (?ps ! l) = Some d" "claim_idx (ClaimExec v) = claim_idx d"
    by (cases "(?ps ! l, stages e ! l, tx_idx v)" rule: holds_data.cases) auto
  have "k = l" using claims_unique [OF inv k l(1) _ d] p(1) by simp
  then show False using l(2) p by (auto split: stage.splits)
qed

lemma executing_clean:
  assumes inv: "engine_inv c e" and k: "k < length (pcs (workers e))" and na: "\<not> aborted (sched (workers e))"
    and p: "pcs (workers e) ! k = HasTask (Execution v)" "\<forall>r flags. stages e ! k \<noteq> Recorded r flags"
  shows "clean (memory e) (tx_idx v)"
proof -
  have "pc_claim (pcs (workers e) ! k) = Some (ClaimExec v)" by (simp add: p(1))
  then have "tx_idx v < block_size (sched (workers e))" "\<not> has_run (sched (workers e)) (tx_idx v)"
    using engine_local(3) [OF inv k] by (auto simp: has_run_def)
  then show ?thesis
    using inv na executing_not_held [OF inv k p] unfolding engine_inv_def clean_inv_def by blast
qed

lemma memory_ok_kind:
  assumes "local_kind c vm ms L L'" "memory_ok s (tl_memory L)" "bitflags_contains c"
  shows "memory_ok s (tl_memory L')"
  using assms(1)
proof (cases rule: local_kind.cases)
  case (recorded v r flags m)
  then show ?thesis using vm_execute_memory(2) [OF recorded(4) assms(2,3)] by simp
next
  case (execution_error v e m s reason p)
  obtain codes where "m = (tl_memory L)\<lparr>new_bytecodes := codes\<rparr>"
    using vm_execute_error_memory [OF execution_error(4)] .
  then show ?thesis
    using execution_error assms(2) mv_same(4) [of m "tl_memory L"] by simp
next
  case (converted v m)
  then show ?thesis using convert_memory(1) [OF converted(4) assms(2)] by simp
qed (use assms(2) in simp_all)

lemma local_kind_keeps:
  assumes "engine_inv c e" "k < length (pcs (workers e))" "bitflags_contains c" "local_kind c vm ms (local_of e k) L"
  shows "block_size (tl_sched L) = block_size (sched (workers e)) \<and> (aborted (sched (workers e)) \<longrightarrow> aborted (tl_sched L))"
  using assms(4)
proof (cases rule: local_kind_admissible)
  case (worker x)
  have "pcs (workers e) ! k \<noteq> Exit" using worker(2) by auto
  then show ?thesis
    using machine_inv_thread [of "workers e" k x c] assms(1-3) worker
    by (auto simp: engine_inv_def steps_ok_def step_ok_def)
qed simp

lemma engine_inv_step:
  assumes inv: "engine_inv c e" and c: "bitflags_contains c" and step: "engine_step c vm e e'"
  shows "engine_inv c e'"
proof -
  from step obtain k ms L where e': "e' = put_local e k L" and k: "k < length (pcs (workers e))"
    and "local_step c vm ms (local_of e k) = Some L"
    by (cases rule: engine_step.cases) auto
  then have kind: "local_kind c vm ms (local_of e k) L" by (intro local_step_kind)
  note loc = engine_local [OF inv k]
  have len: "length (stages e) = length (pcs (workers e))" using inv by (simp add: engine_inv_def)
  have "workers_inv (workers e')"
    using engine_refines_workers [OF c step] inv workers_inv_step by (auto simp: engine_inv_def)
  moreover note bs = local_kind_keeps [OF inv k c kind]
  moreover have "memory_ok (tl_sched L) (tl_memory L)"
    using memory_ok_kind [OF kind _ c, of "sched (workers e)"] loc(4) bs by (simp add: memory_ok_def)
  moreover have "clean_inv e' \<and> reads_inv c e'" if "\<not> aborted (tl_sched L)"
  proof -
    have na: "\<not> aborted (sched (workers e))" using bs that by blast
    have "hand_on c (sched (workers e)) (pcs (workers e) ! k) (stages e ! k) (memory e)
        (tl_sched L) (tl_pc L) (tl_stage L) (tl_memory L)"
      using local_kind_hand_on [OF kind _ _ _ c] loc that executing_clean [OF inv k na] na by simp
    then show ?thesis
      using hand_on_update [OF k len] bs inv na unfolding e' engine_inv_def by blast
  qed
  ultimately show ?thesis using len unfolding engine_inv_def e' by simp
qed

section \<open>Results and the abort reason\<close>

text \<open>
  The abort reason of the block is set exactly when the flag of the workers says so, and every
  transaction that has run has a result in its place.
\<close>

definition outcome_inv :: "'eof engine \<Rightarrow> bool" where
  "outcome_inv e \<longleftrightarrow>
     (abort_reason (workers e) \<longleftrightarrow> pexe_abort_reason (outcome e) \<noteq> None) \<and>
     block_size (sched (workers e)) \<le> length (execution_results (outcome e)) \<and>
     (\<forall>i < block_size (sched (workers e)). has_run (sched (workers e)) i \<longrightarrow> execution_results (outcome e) ! i \<noteq> None)"

lemma thread_step_reason:
  "thread_step c x s reason p = Some (s', reason', p') \<Longrightarrow> reason' = (reason \<or> p = SetReason)"
  by (cases "(c, x, s, reason, p)" rule: thread_step.cases) (auto simp: Let_def Option.bind_eq_Some_conv split: prod.splits)

lemma store_result_simps [simp]:
  "execution_results (store_result i r p) = (execution_results p)[i := Some r]"
  "pexe_abort_reason (store_result i r p) = pexe_abort_reason p"
  by (simp_all add: store_result_def)

lemma get_or_init_simps [simp]:
  "execution_results (get_or_init r p) = execution_results p" "(pexe_abort_reason (get_or_init r p) = None) = False"
  "(\<exists>y. pexe_abort_reason (get_or_init r p) = Some y) = True"
  by (auto simp: get_or_init_def split: option.splits)

lemma outcome_inv_step:
  assumes inv: "engine_inv c e" and out: "outcome_inv e" and c: "bitflags_contains c" and step: "engine_step c vm e e'"
  shows "outcome_inv e'"
proof -
  from step obtain k ms L where e': "e' = put_local e k L" and k: "k < length (pcs (workers e))"
    and "local_step c vm ms (local_of e k) = Some L"
    by (cases rule: engine_step.cases) auto
  then have kind: "local_kind c vm ms (local_of e k) L" by (intro local_step_kind)
  note loc = engine_local [OF inv k]
  note bs = local_kind_keeps [OF inv k c kind]
  let ?s = "sched (workers e)" and ?p = "pcs (workers e) ! k"
  have ran: "has_run ?s i \<or> (\<exists>v flags. ?p = HasTask (Execution v) \<and> x = ExecOk flags \<and> tx_idx v = i)"
    if "thread_step c x ?s reason ?p = Some (s', reason', p')" "admissible x ?p" "has_run s' i" for x reason s' reason' p' i
    using has_run_gained [OF thread_step_change [OF loc(1-3) c that(1,2)] _ that(3)] by blast
  have "abort_reason (workers e') \<longleftrightarrow> pexe_abort_reason (outcome e') \<noteq> None"
    using kind
  proof (cases rule: local_kind.cases)
    case (other outcome' s reason p)
    then show ?thesis
      using out thread_step_reason [OF other(5)] by (auto simp: e' outcome_inv_def)
  qed (use out in \<open>auto simp: e' outcome_inv_def dest!: thread_step_reason\<close>)
  moreover have "length (execution_results (outcome e')) = length (execution_results (outcome e)) \<and>
      (\<forall>i < block_size ?s. has_run (tl_sched L) i \<longrightarrow> execution_results (outcome e') ! i \<noteq> None)"
    using kind
  proof (cases rule: local_kind.cases)
    case (finished v r flags s reason p)
    then have new: "has_run s i \<Longrightarrow> has_run ?s i \<or> i = tx_idx v" for i
      using ran [of "ExecOk flags" _ s reason p i] by auto
    have "execution_results (store_result (tx_idx v) r (outcome e)) ! i \<noteq> None" if "i < block_size ?s" "has_run s i" for i
      using out new [OF that(2)] that(1) by (cases "i = tx_idx v") (auto simp: outcome_inv_def)
    then show ?thesis using finished(1) by (simp add: e')
  next
    case (execution_error v e0 m s reason p)
    have "admissible (choice_of_error e0) ?p"
      using execution_error(2,4) vm_execute_blocks [of vm ms "memory e" v] by (cases e0) auto
    moreover have "choice_of_error e0 \<noteq> ExecOk flags" for flags by (cases e0) auto
    ultimately have "has_run s i \<Longrightarrow> has_run ?s i" for i
      using ran [of "choice_of_error e0" _ s reason p i] execution_error(5) by auto
    then show ?thesis using out execution_error(1) by (auto simp: e' outcome_inv_def)
  next
    case (validated v b s reason p)
    then have "has_run s i \<Longrightarrow> has_run ?s i" for i
      using ran [of "ReadsValid b" _ s reason p i] by auto
    then show ?thesis using out validated(1) by (auto simp: e' outcome_inv_def)
  next
    case (other outcome' s reason p)
    have "admissible ExecRetry ?p" using other(2) by (cases ?p) auto
    then have "has_run s i \<Longrightarrow> has_run ?s i" for i
      using ran [of ExecRetry _ s reason p i] other(5) by auto
    then show ?thesis using out other(1,4) by (auto simp: e' outcome_inv_def)
  qed (use out in \<open>auto simp: e' outcome_inv_def\<close>)
  ultimately show ?thesis
    using out bs by (simp add: outcome_inv_def e')
qed

section \<open>Runs of the engine\<close>

definition engine_ok :: "(u8 \<Rightarrow> u8 \<Rightarrow> bool) \<Rightarrow> ('blob, 'eof) vm \<Rightarrow> 'eof engine \<Rightarrow> bool" where
  "engine_ok c vm e \<longleftrightarrow> engine_inv c e \<and> outcome_inv e \<and> block_size (sched (workers e)) = length (vm_txs vm)"

text \<open>
  A run starts on the memory the chain builds, with no abort reason left from an earlier block. The
  chains of the repository build such memories (\<^verbatim>\<open>Chain\<close>).
\<close>

definition engine_start :: "('blob, 'eof) vm \<Rightarrow> 'eof engine \<Rightarrow> bool" where
  "engine_start vm e \<longleftrightarrow> fresh_memory (chain_build_mv_memory (vm_chain vm)) \<and> length (vm_txs vm) < 2 ^ 64 \<and>
     (\<exists>concurrency_level p. 0 < concurrency_level \<and> pexe_abort_reason p = None \<and> e = engine_init vm concurrency_level p)"

lemma engine_init_simps [simp]:
  "workers (engine_init vm t p) = machine_init (length (vm_txs vm)) t"
  "stages (engine_init vm t p) = replicate t Fresh"
  "memory (engine_init vm t p) = chain_build_mv_memory (vm_chain vm) (vm_block_env vm) (vm_txs vm)"
  "past (engine_init vm t p) = [chain_build_mv_memory (vm_chain vm) (vm_block_env vm) (vm_txs vm)]"
  "outcome (engine_init vm t p) = reserve_results (length (vm_txs vm)) p"
  by (simp_all add: engine_init_def Let_def)

lemma machine_init_simps [simp]:
  "sched (machine_init n t) = sched_new n" "pcs (machine_init n t) = replicate t Loop" "abort_reason (machine_init n t) = False"
  by (simp_all add: machine_init_def)

lemma engine_ok_start:
  assumes "engine_start vm e"
  shows "engine_ok c vm e"
proof -
  obtain t p where fm: "fresh_memory (chain_build_mv_memory (vm_chain vm))" and n: "length (vm_txs vm) < 2 ^ 64"
    and t: "0 < t" "pexe_abort_reason p = None" and e: "e = engine_init vm t p"
    using assms by (auto simp: engine_start_def)
  let ?m = "chain_build_mv_memory (vm_chain vm) (vm_block_env vm) (vm_txs vm)" and ?n = "length (vm_txs vm)"
  have nr: "\<not> has_run (sched_new ?n) i" if "i < ?n" for i using that by (simp add: has_run_def sched_new_views)
  have m: "mv_ok ?m" "last_locations ?m = replicate ?n empty_locations" "clean ?m i" for i
    using fresh_memory.fresh_ok [OF fm] fresh_memory.fresh_locations [OF fm]
    by (simp_all add: clean_def) (use fresh_memory.fresh_estimates [OF fm] in fastforce)
  have "workers_inv (machine_init ?n t)"
    using n t by (intro workers_inv_start) (auto simp: machine_start_def)
  moreover have "memory_ok (sched_new ?n) ?m"
    using m by (simp add: memory_ok_def sched_new_views empty_locations_def wf_reads_def)
  moreover have "clean_inv e" "reads_inv c e"
    using m(3) nr by (simp_all add: clean_inv_def reads_inv_def e sched_new_views)
  moreover have "outcome_inv e"
    using nr t(2) by (simp add: outcome_inv_def e sched_new_views reserve_results_def)
  ultimately show ?thesis by (simp add: engine_ok_def engine_inv_def e sched_new_views)
qed

lemma engine_ok_step:
  assumes "engine_ok c vm e" "bitflags_contains c" "engine_step c vm e e'"
  shows "engine_ok c vm e'"
proof -
  from assms(3) obtain k ms L where e': "e' = put_local e k L" and k: "k < length (pcs (workers e))"
    and "local_step c vm ms (local_of e k) = Some L"
    by (cases rule: engine_step.cases) auto
  then have "local_kind c vm ms (local_of e k) L" by (intro local_step_kind)
  then show ?thesis
    using assms engine_inv_step outcome_inv_step local_kind_keeps [OF _ k] unfolding engine_ok_def
    by (metis e' put_local_simps(1))
qed

text \<open>The steps of an engine whose flags behave as documented.\<close>

definition proper_step :: "(u8 \<Rightarrow> u8 \<Rightarrow> bool) \<Rightarrow> ('blob, 'eof) vm \<Rightarrow> 'eof engine \<Rightarrow> 'eof engine \<Rightarrow> bool" where
  "proper_step c vm e e' \<longleftrightarrow> bitflags_contains c \<and> engine_step c vm e e'"

interpretation engine_runs: transition_invariant "engine_start vm" "proper_step c vm" "engine_ok c vm" for vm c
  by unfold_locales (auto simp: proper_step_def intro: engine_ok_start engine_ok_step)

lemma engine_reachable:
  assumes "engine_start vm e0" "bitflags_contains c" "(engine_step c vm)\<^sup>*\<^sup>* e0 e"
  shows "engine_ok c vm e"
  using engine_runs.inv_reachable [OF assms(1), of c e] assms(2,3) by (simp add: proper_step_def [abs_def])

end
