(* ===== verification/Vm_Replay.thy ===== *)
theory Vm_Replay
  imports Vm_Execute
begin

text \<open>
  Why validation is enough: a transaction whose recorded reads are valid in a memory does in that
  memory just what it did when it ran, whatever its reads met while other threads were writing.
\<close>

section \<open>Memories that agree\<close>

text \<open>A version is recorded once, so where two memories show it, they show the same value.\<close>

definition same_values :: "'code mv_memory \<Rightarrow> 'code mv_memory \<Rightarrow> tx_idx_t \<Rightarrow> bool" where
  "same_values m m' i \<longleftrightarrow> (\<forall>l j inc x y.
     (j, Data inc x) \<in> set (mem_below m l i) \<longrightarrow> (j, Data inc y) \<in> set (mem_below m' l i) \<longrightarrow> x = y)"

lemma same_valuesD:
  "same_values m m' i \<Longrightarrow> (j, Data inc x) \<in> set (mem_below m l i) \<Longrightarrow> (j, Data inc y) \<in> set (mem_below m' l i) \<Longrightarrow> x = y"
  unfolding same_values_def by blast

text \<open>A hash whose code a transaction may ask for: one of storage, or one it can read.\<close>

definition readable_hash :: "('blob, 'eof) vm \<Rightarrow> 'eof bytecode mv_memory \<Rightarrow> tx_idx_t \<Rightarrow> b256 \<Rightarrow> bool" where
  "readable_hash vm m i h \<longleftrightarrow>
     (\<exists>a. st_code_hash (vm_storage vm) a = Inr (Some h)) \<or>
     (\<exists>l j inc. (j, Data inc (ValCodeHash h)) \<in> set (mem_below m l i))"

text \<open>
  \<open>m'\<close> is reached from the memories \<open>ms\<close> of a run: versions keep their values, and the code of a
  hash that could be read at one of them, and can be read in \<open>m'\<close>, is from then on what it is in \<open>m'\<close>.
\<close>

definition later_memory ::
    "('blob, 'eof) vm \<Rightarrow> (nat \<Rightarrow> 'eof bytecode mv_memory) \<Rightarrow> 'eof bytecode mv_memory \<Rightarrow> tx_idx_t \<Rightarrow> bool" where
  "later_memory vm ms m' i \<longleftrightarrow>
     (\<forall>k. same_values (ms k) m' i) \<and>
     (\<forall>k k' h c. k \<le> k' \<longrightarrow> readable_hash vm (ms k) i h \<longrightarrow> readable_hash vm m' i h \<longrightarrow> load_code vm (ms k') (Some h) = Inr c \<longrightarrow>
        load_code vm m' (Some h) = Inr c)"

lemma later_memoryD:
  assumes "later_memory vm ms m' i"
  shows "same_values (ms k) m' i"
    "k \<le> k' \<Longrightarrow> readable_hash vm (ms k) i h \<Longrightarrow> readable_hash vm m' i h \<Longrightarrow>
      load_code vm (ms k') (Some h) = Inr c \<Longrightarrow> load_code vm m' (Some h) = Inr c"
  using assms unfolding later_memory_def by blast+

section \<open>Origins\<close>

lemma match_origins_prefix: "match_origins (xs @ ys) it \<Longrightarrow> match_origins xs it"
  by (induction xs it rule: match_origins.induct) (auto split: if_splits)

lemma validate_location_match:
  "validate_location m i (l, os) \<Longrightarrow> match_origins os (mem_below m l i)"
  by (cases os) (auto simp: validate_location_def mem_below_def split: option.splits)

lemma match_origins_version:
  assumes "match_origins (OriginMvMemory v # os) it"
  obtains x it' where "it = (tx_idx v, Data (tx_incarnation v) x) # it'" "match_origins os it'"
  using assms by (cases "(OriginMvMemory v # os, it)" rule: match_origins.cases) (auto split: if_splits)

lemma match_origins_Storage [simp]: "match_origins [OriginStorage] it \<longleftrightarrow> it = []"
  by (cases it) auto

lemma push_origin_InrD:
  assumes "push_origin os org = Inr os'" "length os \<le> 1"
  shows "os' = [org]"
  using assms by (cases os) (auto simp: push_origin_def split: if_splits)

lemma push_origin_cases:
  "push_origin os org = Inr os' \<Longrightarrow> os' \<noteq> [] \<and> (os \<noteq> [] \<longrightarrow> os' = os)"
  by (auto simp: push_origin_def split: if_splits)

lemma origins_of_set [simp]: "origins_of (set_origins db l os) l' = (if l' = l then os else origins_of db l')"
  by (simp add: origins_of_def set_origins_def update_conv')

lemma origins_of_cong [simp]:
  "origins_of (db\<lparr>db_to_code_hash := h\<rparr>) = origins_of db"
  "origins_of (db\<lparr>db_is_lazy := b\<rparr>) = origins_of db"
  "origins_of (db\<lparr>db_read_accounts := r\<rparr>) = origins_of db"
  by (simp_all add: origins_of_def fun_eq_iff)

text \<open>Origins, once recorded, stay, and so does what a database knows of its transaction.\<close>

definition grows :: "vm_db \<Rightarrow> vm_db \<Rightarrow> bool" where
  "grows db db' \<longleftrightarrow>
     (\<forall>l. origins_of db l \<noteq> [] \<longrightarrow> origins_of db' l = origins_of db l) \<and>
     db_tx_idx db' = db_tx_idx db \<and> db_tx db' = db_tx db \<and> db_from_hash db' = db_from_hash db \<and>
     db_to_hash db' = db_to_hash db \<and> db_to_code_hash db' = db_to_code_hash db \<and> db_is_lazy db' = db_is_lazy db"

lemma grows_refl [simp]: "grows db db"
  by (simp add: grows_def)

lemma grows_trans: "grows db db1 \<Longrightarrow> grows db1 db2 \<Longrightarrow> grows db db2"
  by (auto simp: grows_def)

lemma grows_tx_idx: "grows db db' \<Longrightarrow> db_tx_idx db' = db_tx_idx db"
  by (simp add: grows_def)

lemma grows_push:
  "push_origin (origins_of db l) org = Inr os \<Longrightarrow> grows db (set_origins db l os)"
  using push_origin_cases [of "origins_of db l" org os] by (auto simp: grows_def) (auto simp: set_origins_def)

lemma pushed:
  assumes "push_origin (origins_of db l) org = Inr os"
  shows "grows db (set_origins db l os)" "os \<noteq> []"
  using grows_push [OF assms] push_origin_cases [OF assms] by simp_all

lemma grows_read_accounts [simp]: "grows db (db1\<lparr>db_read_accounts := r\<rparr>) \<longleftrightarrow> grows db db1"
  by (simp add: grows_def)

section \<open>Code hashes and storage slots\<close>

lemma get_code_hash_cases:
  assumes "get_code_hash vm m db a = Inr (h, db')"
  obtains (memory) j inc it h' os where
      "mem_below m (vm_hash vm (LocCodeHash a)) (db_tx_idx db) = (j, Data inc (ValCodeHash h')) # it" "h = Some h'"
      "push_origin (origins_of db (vm_hash vm (LocCodeHash a))) (OriginMvMemory \<lparr>tx_idx = j, tx_incarnation = inc\<rparr>) = Inr os"
      "db' = set_origins db (vm_hash vm (LocCodeHash a)) os"
    | (storage) os where
      "push_origin (origins_of db (vm_hash vm (LocCodeHash a))) OriginStorage = Inr os"
      "st_code_hash (vm_storage vm) a = Inr h"
      "db' = set_origins db (vm_hash vm (LocCodeHash a)) os"
  using assms
  by (auto simp: get_code_hash_def Let_def and_then_Inr_iff
      split: list.splits prod.splits memory_entry.splits memory_value.splits)

lemma get_code_hash_grows:
  assumes "get_code_hash vm m db a = Inr (h, db')"
  shows "grows db db' \<and> origins_of db' (vm_hash vm (LocCodeHash a)) \<noteq> [] \<and>
    (\<forall>l. l \<noteq> vm_hash vm (LocCodeHash a) \<longrightarrow> origins_of db' l = origins_of db l) \<and>
    (\<forall>h'. h = Some h' \<longrightarrow> readable_hash vm m (db_tx_idx db) h')"
  using assms
proof (cases rule: get_code_hash_cases)
  case (memory j inc it h' os)
  have "readable_hash vm m (db_tx_idx db) h'"
    unfolding readable_hash_def using memory(1) by (metis list.set_intros(1))
  with memory(2,4) pushed [OF memory(3)] show ?thesis by simp
next
  case (storage os)
  have "h = Some h' \<Longrightarrow> readable_hash vm m (db_tx_idx db) h'" for h'
    unfolding readable_hash_def using storage(2) by blast
  with storage(3) pushed [OF storage(1)] show ?thesis by simp
qed

lemma get_code_hash_repeat:
  assumes "get_code_hash vm m db a = Inr (h, db')" "same_values m m' (db_tx_idx db)"
    and "length (origins_of db (vm_hash vm (LocCodeHash a))) \<le> 1"
    and match: "match_origins (origins_of db' (vm_hash vm (LocCodeHash a))) (mem_below m' (vm_hash vm (LocCodeHash a)) (db_tx_idx db))"
  shows "get_code_hash vm m' db a = Inr (h, db')"
  using assms(1)
proof (cases rule: get_code_hash_cases)
  case (memory j inc it h' os)
  have os: "os = [OriginMvMemory \<lparr>tx_idx = j, tx_incarnation = inc\<rparr>]"
    by (rule push_origin_InrD [OF memory(3) assms(3)])
  then obtain y it' where it': "mem_below m' (vm_hash vm (LocCodeHash a)) (db_tx_idx db) = (j, Data inc y) # it'"
    using match memory(4) by (auto elim: match_origins_version)
  have "y = ValCodeHash h'"
    using same_valuesD [OF assms(2), where l = "vm_hash vm (LocCodeHash a)" and x = "ValCodeHash h'" and y = y] memory(1) it'
    by auto
  with memory it' show ?thesis by (simp add: get_code_hash_def Let_def)
next
  case (storage os)
  have "os = [OriginStorage]" by (rule push_origin_InrD [OF storage(1) assms(3)])
  with match storage(3) have "mem_below m' (vm_hash vm (LocCodeHash a)) (db_tx_idx db) = []" by simp
  with storage show ?thesis by (simp add: get_code_hash_def Let_def)
qed

lemma db_storage_cases:
  assumes "db_storage vm m db a i = Inr (v, db')"
  obtains (memory) j inc it os where
      "0 < db_tx_idx db"
      "mem_below m (vm_hash vm (LocStorage a i)) (db_tx_idx db) = (j, Data inc (ValStorage v)) # it"
      "push_origin (origins_of db (vm_hash vm (LocStorage a i))) (OriginMvMemory \<lparr>tx_idx = j, tx_incarnation = inc\<rparr>) = Inr os"
      "db' = set_origins db (vm_hash vm (LocStorage a i)) os"
    | (storage) os where
      "push_origin (origins_of db (vm_hash vm (LocStorage a i))) OriginStorage = Inr os"
      "st_storage (vm_storage vm) a i = Inr v"
      "db' = set_origins db (vm_hash vm (LocStorage a i)) os"
  using assms
  by (auto simp: db_storage_def Let_def and_then_Inr_iff
      split: list.splits prod.splits memory_entry.splits memory_value.splits if_splits)

lemma db_storage_grows:
  assumes "db_storage vm m db a i = Inr (v, db')"
  shows "grows db db' \<and> origins_of db' (vm_hash vm (LocStorage a i)) \<noteq> [] \<and>
    (\<forall>l. l \<noteq> vm_hash vm (LocStorage a i) \<longrightarrow> origins_of db' l = origins_of db l)"
  using assms
  by (cases rule: db_storage_cases) (simp_all add: pushed)

lemma db_storage_repeat:
  assumes "db_storage vm m db a i = Inr (v, db')" "same_values m m' (db_tx_idx db)"
    and "length (origins_of db (vm_hash vm (LocStorage a i))) \<le> 1"
    and match: "match_origins (origins_of db' (vm_hash vm (LocStorage a i))) (mem_below m' (vm_hash vm (LocStorage a i)) (db_tx_idx db))"
  shows "db_storage vm m' db a i = Inr (v, db')"
  using assms(1)
proof (cases rule: db_storage_cases)
  case (memory j inc it os)
  have os: "os = [OriginMvMemory \<lparr>tx_idx = j, tx_incarnation = inc\<rparr>]"
    by (rule push_origin_InrD [OF memory(3) assms(3)])
  then obtain y it' where it': "mem_below m' (vm_hash vm (LocStorage a i)) (db_tx_idx db) = (j, Data inc y) # it'"
    using match memory(4) by (auto elim: match_origins_version)
  have "y = ValStorage v"
    using same_valuesD [OF assms(2), where l = "vm_hash vm (LocStorage a i)" and x = "ValStorage v" and y = y] memory(2) it'
    by auto
  with memory it' show ?thesis by (simp add: db_storage_def Let_def)
next
  case (storage os)
  have "os = [OriginStorage]" by (rule push_origin_InrD [OF storage(1) assms(3)])
  with match storage(3) have "mem_below m' (vm_hash vm (LocStorage a i)) (db_tx_idx db) = []" by simp
  with storage show ?thesis by (simp add: db_storage_def Let_def)
qed

section \<open>Accounts\<close>

lemma evaluate_lazy_step:
  assumes "evaluate_lazy ros prev ((j, Data inc v) # it) nos add pos na = Inr (final, nos', r)"
  obtains (absolute) b where "v = ValBasic b" "final = Some b" "nos' = nos @ [OriginMvMemory \<lparr>tx_idx = j, tx_incarnation = inc\<rparr>]"
    | (lazy) add1 pos1 na1 where
      "evaluate_lazy ros prev it (nos @ [OriginMvMemory \<lparr>tx_idx = j, tx_incarnation = inc\<rparr>]) add1 pos1 na1 = Inr (final, nos', r)"
      "\<And>it'. evaluate_lazy ros prev ((j, Data inc v) # it') nos add pos na =
         evaluate_lazy ros prev it' (nos @ [OriginMvMemory \<lparr>tx_idx = j, tx_incarnation = inc\<rparr>]) add1 pos1 na1"
  using assms by (cases v) (auto simp: Let_def split: if_splits)

lemma evaluate_lazy_guard:
  assumes "evaluate_lazy ros prev ((j, Data inc v) # it) nos add pos na = Inr r" "prev" "length nos \<le> length ros"
  shows "length nos < length ros \<and> ros ! length nos = OriginMvMemory \<lparr>tx_idx = j, tx_incarnation = inc\<rparr>"
  using assms by (auto simp: Let_def split: if_splits)

lemma evaluate_lazy_Data:
  assumes "evaluate_lazy ros prev (e # it) nos add pos na = Inr r"
  obtains j inc v where "e = (j, Data inc v)"
  using assms by (cases e; cases "snd e") auto

lemma evaluate_lazy_extends:
  "evaluate_lazy ros prev it nos add pos na = Inr (final, nos', r) \<Longrightarrow> \<exists>tail. nos' = nos @ tail"
proof (induction it arbitrary: nos add pos na)
  case Nil
  then show ?case by simp
next
  case (Cons e it)
  obtain j inc v where e: "e = (j, Data inc v)"
    using evaluate_lazy_Data [OF Cons.prems] .
  from Cons.prems [unfolded e] show ?case
    by (cases rule: evaluate_lazy_step) (auto dest: Cons.IH)
qed

lemma evaluate_lazy_prefix:
  assumes "evaluate_lazy ros prev it nos add pos na = Inr (final, nos', r)"
    and "prev \<longrightarrow> length nos \<le> length ros \<and> nos = take (length nos) ros"
  shows "\<exists>tail. nos' = nos @ tail \<and> (prev \<longrightarrow> length nos' \<le> length ros \<and> nos' = take (length nos') ros)"
  using assms
proof (induction it arbitrary: nos add pos na)
  case Nil
  then show ?case by simp
next
  case (Cons e it)
  obtain j inc v where e: "e = (j, Data inc v)"
    using evaluate_lazy_Data [OF Cons.prems(1)] .
  note run = Cons.prems(1) [unfolded e]
  let ?nos = "nos @ [OriginMvMemory \<lparr>tx_idx = j, tx_incarnation = inc\<rparr>]"
  have p: "prev \<longrightarrow> length ?nos \<le> length ros \<and> ?nos = take (length ?nos) ros"
    using evaluate_lazy_guard [OF run] Cons.prems(2) by (auto simp: take_Suc_conv_app_nth)
  from run show ?case
  proof (cases rule: evaluate_lazy_step)
    case (absolute b)
    with p show ?thesis by simp
  next
    case (lazy add1 pos1 na1)
    from Cons.IH [OF lazy(1) p] show ?thesis by auto
  qed
qed

lemma evaluate_lazy_repeat:
  assumes "evaluate_lazy ros prev it nos add pos na = Inr (final, nos @ tail, r)"
    and "match_origins (tail @ (if final = None then [OriginStorage] else [])) it'"
    and "\<And>j inc x y. (j, Data inc x) \<in> set it \<Longrightarrow> (j, Data inc y) \<in> set it' \<Longrightarrow> x = y"
  shows "evaluate_lazy ros prev it' nos add pos na = Inr (final, nos @ tail, r)"
  using assms
proof (induction it arbitrary: it' nos tail add pos na)
  case Nil
  then show ?case by auto
next
  case (Cons e it)
  obtain j inc v where e: "e = (j, Data inc v)"
    using evaluate_lazy_Data [OF Cons.prems(1)] .
  let ?o = "OriginMvMemory \<lparr>tx_idx = j, tx_incarnation = inc\<rparr>"
  from Cons.prems(1) [unfolded e] show ?case
  proof (cases rule: evaluate_lazy_step)
    case (absolute b)
    then have "tail = [?o]" by simp
    with Cons.prems(2) absolute obtain y it'' where it': "it' = (j, Data inc y) # it''"
      by (auto elim: match_origins_version)
    have "v = y" by (rule Cons.prems(3) [of j inc]) (simp_all add: e it')
    with absolute Cons.prems(1) it' e show ?thesis by (simp add: Let_def split: if_splits)
  next
    case (lazy add1 pos1 na1)
    obtain rest where rest: "nos @ tail = (nos @ [?o]) @ rest"
      using evaluate_lazy_extends [OF lazy(1)] by blast
    then have tail: "tail = ?o # rest" by simp
    with Cons.prems(2) obtain y it'' where it': "it' = (j, Data inc y) # it''"
      and match: "match_origins (rest @ (if final = None then [OriginStorage] else [])) it''"
      by (auto elim: match_origins_version)
    have "v = y" by (rule Cons.prems(3) [of j inc]) (simp_all add: e it')
    moreover have "evaluate_lazy ros prev it'' (nos @ [?o]) add1 pos1 na1 = Inr (final, (nos @ [?o]) @ rest, r)"
    proof (rule Cons.IH [OF _ match])
      show "evaluate_lazy ros prev it (nos @ [?o]) add1 pos1 na1 = Inr (final, (nos @ [?o]) @ rest, r)"
        using lazy(1) rest by simp
      show "x = z" if "(j, Data inc x) \<in> set it" "(j, Data inc z) \<in> set it''" for j inc x z
        by (rule Cons.prems(3) [of j inc]) (use that it' in auto)
    qed
    ultimately show ?thesis using lazy(2) it' tail by simp
  qed
qed

lemma evaluate_lazy_Some:
  assumes "evaluate_lazy ros prev it nos add pos na = Inr (Some b, nos', r)"
  shows "nos' \<noteq> []"
proof (cases it)
  case Nil
  with assms show ?thesis by simp
next
  case (Cons e it')
  from assms [unfolded this] obtain j inc v where e: "e = (j, Data inc v)" by (rule evaluate_lazy_Data)
  from assms [unfolded Cons e] show ?thesis
    by (cases rule: evaluate_lazy_step) (auto dest: evaluate_lazy_extends)
qed

lemma resolve_account_cases:
  assumes "resolve_account vm m db l a = Inr ((acct, add, pos, na), db')"
  obtains final nos rest where
    "evaluate_lazy (origins_of db l) (origins_of db l \<noteq> []) (if db_tx_idx db > 0 then mem_below m l (db_tx_idx db) else [])
       [] 0 True 0 = Inr (final, nos, add, pos, na)"
    "db' = (if origins_of db l \<noteq> [] then db else set_origins db l (nos @ (if final = None then [OriginStorage] else [])))"
    "origins_of db' l = (nos @ (if final = None then [OriginStorage] else [])) @ rest"
    "case final of Some b \<Rightarrow> acct = Some b | None \<Rightarrow> storage_account vm a add = Inr acct"
proof -
  let ?ros = "origins_of db l"
  let ?it = "if db_tx_idx db > 0 then mem_below m l (db_tx_idx db) else []"
  define it where "it = ?it"
  let ?finish = "\<lambda>final nos add. case final of
      Some b \<Rightarrow> Inr (Some b, nos)
    | None \<Rightarrow>
        if ?ros \<noteq> [] \<and> (length ?ros \<noteq> length nos + 1 \<or> last ?ros \<noteq> OriginStorage) then Inl InconsistentRead
        else and_then (storage_account vm a add) (\<lambda>acct. Inr (acct, nos @ [OriginStorage]))"
  obtain final nos nos' where run': "evaluate_lazy ?ros (?ros \<noteq> []) it [] 0 True 0 = Inr (final, nos, add, pos, na)"
    and finish: "?finish final nos add = Inr (acct, nos')"
    and db1: "db' = (if ?ros \<noteq> [] then db else set_origins db l nos')"
    using assms unfolding resolve_account_def Let_def it_def [symmetric] by (auto elim!: and_then_InrE simp del: evaluate_lazy.simps)
  have run: "evaluate_lazy ?ros (?ros \<noteq> []) ?it [] 0 True 0 = Inr (final, nos, add, pos, na)"
    using run' by (simp add: it_def)
  have nos': "nos' = nos @ (if final = None then [OriginStorage] else [])"
    and final: "case final of Some b \<Rightarrow> acct = Some b | None \<Rightarrow> storage_account vm a add = Inr acct"
    using finish by (cases final; auto simp: and_then_Inr_iff split: if_splits)+
  have prev: "length ?ros = length nos + 1 \<and> last ?ros = OriginStorage" if "final = None" "?ros \<noteq> []"
    using finish that by (auto split: if_splits)
  note db' = db1 [unfolded nos']
  have "\<exists>rest. origins_of db' l = (nos @ (if final = None then [OriginStorage] else [])) @ rest"
  proof (cases "?ros = []")
    case True
    then show ?thesis using db' by simp
  next
    case False
    then have nos: "nos = take (length nos) ?ros"
      using evaluate_lazy_prefix [OF run] by simp
    show ?thesis
    proof (cases final)
      case None
      with prev False have len: "length ?ros = length nos + 1" "last ?ros = OriginStorage" by auto
      then have "?ros = nos @ [OriginStorage]"
        using nos append_butlast_last_id [OF False] by (metis butlast_conv_take diff_add_inverse2)
      with None False db' show ?thesis by simp
    next
      case (Some b)
      with False db' nos show ?thesis by (auto intro: exI [of _ "drop (length nos) ?ros"]) (metis append_take_drop_id)
    qed
  qed
  with that run db' final show thesis by blast
qed

lemma resolve_account_grows:
  assumes "resolve_account vm m db l a = Inr ((acct, add, pos, na), db')"
  shows "grows db db' \<and> origins_of db' l \<noteq> [] \<and> (\<forall>l'. l' \<noteq> l \<longrightarrow> origins_of db' l' = origins_of db l')"
  using assms
proof (cases rule: resolve_account_cases)
  case (1 final nos rest)
  have "grows db db'"
    using 1(2) by (auto simp: grows_def) (auto simp: set_origins_def)
  moreover have "origins_of db' l \<noteq> []"
    using 1(1,3) evaluate_lazy_Some by (cases final) auto
  ultimately show ?thesis using 1(2) by auto
qed

lemma resolve_account_repeat:
  assumes "resolve_account vm m db l a = Inr ((acct, add, pos, na), db')" "same_values m m' (db_tx_idx db)"
    and "match_origins (origins_of db' l) (mem_below m' l (db_tx_idx db))"
  shows "resolve_account vm m' db l a = Inr ((acct, add, pos, na), db')"
  using assms(1)
proof (cases rule: resolve_account_cases)
  case (1 final nos rest)
  let ?ros = "origins_of db l"
  have "evaluate_lazy ?ros (?ros \<noteq> []) (if db_tx_idx db > 0 then mem_below m' l (db_tx_idx db) else []) [] 0 True 0 =
      evaluate_lazy ?ros (?ros \<noteq> []) (if db_tx_idx db > 0 then mem_below m l (db_tx_idx db) else []) [] 0 True 0"
  proof (cases "0 < db_tx_idx db")
    case True
    have "match_origins (nos @ (if final = None then [OriginStorage] else [])) (mem_below m' l (db_tx_idx db))"
      using assms(3) 1(3) match_origins_prefix by metis
    moreover have "evaluate_lazy ?ros (?ros \<noteq> []) (mem_below m l (db_tx_idx db)) [] 0 True 0 =
        Inr (final, [] @ nos, add, pos, na)"
      using 1(1) True by simp
    ultimately show ?thesis
      using evaluate_lazy_repeat [of ?ros "?ros \<noteq> []" "mem_below m l (db_tx_idx db)" "[]" 0 True 0 final nos]
        same_valuesD [OF assms(2)] True by simp
  qed simp
  then show ?thesis using assms(1) by (simp add: resolve_account_def)
qed

section \<open>Reading an account again\<close>

lemma complete_account_grows:
  assumes "complete_account vm mc mb db l a (acct, add, pos, na) = Inr (x, db')"
  shows "grows db db' \<and> (\<forall>l'. l' \<noteq> vm_hash vm (LocCodeHash a) \<longrightarrow> origins_of db' l' = origins_of db l')"
proof (cases acct)
  case None
  with assms show ?thesis by (simp add: complete_account_def)
next
  case (Some account)
  obtain ch db1 r where "(if Some l = db_to_hash db then Inr (db_to_code_hash db, db) else get_code_hash vm mc db a) = Inr (ch, db1)"
    and "db' = db1\<lparr>db_read_accounts := r\<rparr>"
    using assms Some by (auto simp: complete_account_def Let_def and_then_Inr_iff split: if_splits)
  then show ?thesis using get_code_hash_grows [of vm mc db a ch db1] by (auto split: if_splits)
qed

lemma complete_account_repeat:
  assumes "complete_account vm mc mb db l a (acct, add, pos, na) = Inr (x, db')"
    and "same_values mc m' (db_tx_idx db)" "length (origins_of db (vm_hash vm (LocCodeHash a))) \<le> 1"
    and "origins_of db' (vm_hash vm (LocCodeHash a)) \<noteq> [] \<Longrightarrow>
      match_origins (origins_of db' (vm_hash vm (LocCodeHash a))) (mem_below m' (vm_hash vm (LocCodeHash a)) (db_tx_idx db))"
    and code: "\<And>h c. readable_hash vm mc (db_tx_idx db) h \<and> readable_hash vm m' (db_tx_idx db) h \<or>
        db_to_code_hash db = Some h \<Longrightarrow>
      load_code vm mb (Some h) = Inr c \<Longrightarrow> load_code vm m' (Some h) = Inr c"
  shows "complete_account vm m' m' db l a (acct, add, pos, na) = Inr (x, db')"
proof (cases acct)
  case None
  with assms show ?thesis by (simp add: complete_account_def)
next
  case (Some account)
  let ?read = "\<lambda>m. if Some l = db_to_hash db then Inr (db_to_code_hash db, db) else get_code_hash vm m db a"
  obtain ch db1 c r where read: "?read mc = Inr (ch, db1)" and load: "load_code vm mb ch = Inr c"
    and db': "db' = db1\<lparr>db_read_accounts := r\<rparr>"
    using assms(1) Some by (auto simp: complete_account_def Let_def and_then_Inr_iff split: if_splits)
  have read': "?read m' = Inr (ch, db1)"
  proof (cases "Some l = db_to_hash db")
    case False
    with read have r: "get_code_hash vm mc db a = Inr (ch, db1)" by simp
    with False show ?thesis
      using get_code_hash_repeat [OF r assms(2,3)] get_code_hash_grows [OF r] assms(4) db' by simp
  qed (use read in auto)
  moreover have "load_code vm m' ch = Inr c"
  proof (cases ch)
    case None
    with load show ?thesis by (simp add: load_code_def)
  next
    case (Some h)
    have "readable_hash vm mc (db_tx_idx db) h \<and> readable_hash vm m' (db_tx_idx db) h \<or> db_to_code_hash db = Some h"
      using read read' Some get_code_hash_grows [of vm mc db a ch db1] get_code_hash_grows [of vm m' db a ch db1]
      by (auto split: if_splits)
    with code load Some show ?thesis by blast
  qed
  ultimately show ?thesis
    using assms(1) read load Some by (auto simp: complete_account_def Let_def split: if_splits)
qed

lemma db_basic_cases:
  assumes "db_basic vm m mc mb db a = Some (Inr (x, db'))" "hash_basic vm db a = Some l"
  obtains (mock) "db' = db" "\<And>m mc mb. db_basic vm m mc mb db a = Some (Inr (x, db'))"
    | (read) acct add pos na db1 where
      "\<not> (db_is_lazy db \<and> l = db_from_hash db)" "\<not> (db_is_lazy db \<and> Some l = db_to_hash db)"
      "resolve_account vm m db l a = Inr ((acct, add, pos, na), db1)"
      "complete_account vm mc mb db1 l a (acct, add, pos, na) = Inr (x, db')"
proof -
  have eq: "db_basic vm m mc mb db a = Some (
       if db_is_lazy db \<and> l = db_from_hash db then Inr (Some (lazy_sender_mock vm db), db)
       else if db_is_lazy db \<and> Some l = db_to_hash db then Inr (None, db)
       else and_then (resolve_account vm m db l a) (\<lambda>(acct, db1). complete_account vm mc mb db1 l a acct))" for m mc mb
    using assms(2) by (simp add: db_basic_def)
  consider (sender) "db_is_lazy db \<and> l = db_from_hash db"
    | (recipient) "\<not> (db_is_lazy db \<and> l = db_from_hash db)" "db_is_lazy db \<and> Some l = db_to_hash db"
    | (other) "\<not> (db_is_lazy db \<and> l = db_from_hash db)" "\<not> (db_is_lazy db \<and> Some l = db_to_hash db)"
    by blast
  then show thesis
  proof cases
    case sender
    then have "db' = db" "x = Some (lazy_sender_mock vm db)" using assms(1) by (auto simp: eq)
    with sender show ?thesis by (intro mock) (simp_all add: eq)
  next
    case recipient
    then have "db' = db" "x = None" using assms(1) by (auto simp: eq)
    with recipient show ?thesis by (intro mock) (simp_all add: eq)
  next
    case other
    with assms have "and_then (resolve_account vm m db l a) (\<lambda>(acct, db1). complete_account vm mc mb db1 l a acct) = Inr (x, db')"
      by (simp add: eq)
    then obtain acct db1 where "resolve_account vm m db l a = Inr (acct, db1)" "complete_account vm mc mb db1 l a acct = Inr (x, db')"
      by (auto elim!: and_then_InrE)
    with other show ?thesis by (cases acct) (auto intro: read)
  qed
qed

lemma db_basic_grows:
  assumes "db_basic vm m mc mb db a = Some (Inr (x, db'))" "hash_basic vm db a = Some l"
  shows "grows db db' \<and> (\<forall>l'. l' \<noteq> l \<longrightarrow> l' \<noteq> vm_hash vm (LocCodeHash a) \<longrightarrow> origins_of db' l' = origins_of db l')"
  using assms
proof (cases rule: db_basic_cases)
  case mock
  then show ?thesis by simp
next
  case (read acct add pos na db1)
  with resolve_account_grows [OF read(3)] complete_account_grows [OF read(4)] show ?thesis
    by (auto intro: grows_trans)
qed

section \<open>Running again\<close>

text \<open>The locations a run reads, with the code hash of every account.\<close>

primrec run_locations ::
    "'eof evm_run \<Rightarrow> ('blob, 'eof) vm \<Rightarrow> (nat \<Rightarrow> 'eof bytecode mv_memory) \<Rightarrow> nat \<Rightarrow> vm_db \<Rightarrow> memory_location set" where
  "run_locations (Finished r) vm ms k db = {}"
| "run_locations (AskBasic a f) vm ms k db =
     {LocBasic a, LocCodeHash a} \<union>
     (case db_basic vm (ms k) (ms (k + 1)) (ms (k + 2)) db a of
        Some (Inr (x, db')) \<Rightarrow> run_locations (f x) vm ms (k + 3) db' | _ \<Rightarrow> {})"
| "run_locations (AskCode h f) vm ms k db =
     (case db_code_by_hash vm h of Inr c \<Rightarrow> run_locations (f c) vm ms (k + 3) db | _ \<Rightarrow> {})"
| "run_locations (AskStorage a i f) vm ms k db =
     {LocStorage a i} \<union>
     (case db_storage vm (ms k) db a i of Inr (v, db') \<Rightarrow> run_locations (f v) vm ms (k + 3) db' | _ \<Rightarrow> {})"
| "run_locations (AskBlockHash n f) vm ms k db =
     (case db_block_hash vm n of Inr h \<Rightarrow> run_locations (f h) vm ms (k + 3) db | _ \<Rightarrow> {})"

fun is_basic :: "memory_location \<Rightarrow> bool" where
  "is_basic (LocBasic a) = True"
| "is_basic _ = False"

text \<open>What holds of the database of transaction \<open>i\<close> at access \<open>k\<close>, for a set of locations apart.\<close>

definition db_ok ::
    "('blob, 'eof) vm \<Rightarrow> (nat \<Rightarrow> 'eof bytecode mv_memory) \<Rightarrow> 'eof bytecode mv_memory \<Rightarrow> nat \<Rightarrow> memory_location set
       \<Rightarrow> tx_idx_t \<Rightarrow> vm_db \<Rightarrow> bool" where
  "db_ok vm ms m' k L i db \<longleftrightarrow>
     db_tx_idx db = i \<and>
     db_from_hash db = vm_hash vm (LocBasic (te_caller (db_tx db))) \<and>
     db_to_hash db = map_option (\<lambda>to. vm_hash vm (LocBasic to)) (tx_kind_to (te_transact_to (db_tx db))) \<and>
     (\<forall>x \<in> L. \<not> is_basic x \<longrightarrow> length (origins_of db (vm_hash vm x)) \<le> 1) \<and>
     (\<forall>h. db_to_code_hash db = Some h \<longrightarrow> (\<exists>k0 \<le> k. readable_hash vm (ms k0) i h) \<and> readable_hash vm m' i h)"

lemma db_ok_hash: "db_ok vm ms m' k L i db \<Longrightarrow> hash_basic vm db a = Some (vm_hash vm (LocBasic a))"
  by (auto simp: db_ok_def hash_basic_def)

lemma db_ok_single:
  "db_ok vm ms m' k L i db \<Longrightarrow> x \<in> L \<Longrightarrow> \<not> is_basic x \<Longrightarrow> length (origins_of db (vm_hash vm x)) \<le> 1"
  by (simp add: db_ok_def)

lemma db_ok_to_code:
  "db_ok vm ms m' k L i db \<Longrightarrow> db_to_code_hash db = Some h \<Longrightarrow>
     (\<exists>k0 \<le> k. readable_hash vm (ms k0) i h) \<and> readable_hash vm m' i h"
  unfolding db_ok_def by blast

lemma db_ok_step:
  assumes "db_ok vm ms m' k L i db" "grows db db'" "inj_on (vm_hash vm) L" "X \<subseteq> L"
    and "\<And>l. l \<notin> vm_hash vm ` X \<Longrightarrow> origins_of db' l = origins_of db l"
    and "\<And>x. x \<in> X \<Longrightarrow> \<not> is_basic x \<Longrightarrow> length (origins_of db' (vm_hash vm x)) \<le> 1"
  shows "db_ok vm ms m' (k + 3) L i db'"
proof -
  have "length (origins_of db' (vm_hash vm y)) \<le> 1" if "y \<in> L" "\<not> is_basic y" for y
  proof (cases "y \<in> X")
    case False
    then have "vm_hash vm y \<notin> vm_hash vm ` X"
      using assms(3,4) \<open>y \<in> L\<close> by (auto dest: inj_onD)
    then show ?thesis using assms(1,5) that by (simp add: db_ok_def)
  qed (use assms(6) that in simp)
  then show ?thesis
    using assms(1,2) unfolding db_ok_def grows_def by (metis le_add1 le_trans)
qed

lemma get_code_hash_single:
  assumes "get_code_hash vm m db a = Inr (h, db')" "length (origins_of db (vm_hash vm (LocCodeHash a))) \<le> 1"
  shows "length (origins_of db' (vm_hash vm (LocCodeHash a))) \<le> 1"
  using assms by (cases rule: get_code_hash_cases) (auto dest: push_origin_InrD)

lemma db_storage_single:
  assumes "db_storage vm m db a i = Inr (v, db')" "length (origins_of db (vm_hash vm (LocStorage a i))) \<le> 1"
  shows "length (origins_of db' (vm_hash vm (LocStorage a i))) \<le> 1"
  using assms by (cases rule: db_storage_cases) (auto dest: push_origin_InrD)

lemma complete_account_single:
  assumes "complete_account vm mc mb db l a (acct, add, pos, na) = Inr (x, db')"
    and "length (origins_of db (vm_hash vm (LocCodeHash a))) \<le> 1"
  shows "length (origins_of db' (vm_hash vm (LocCodeHash a))) \<le> 1"
proof (cases acct)
  case None
  with assms show ?thesis by (simp add: complete_account_def)
next
  case (Some account)
  obtain ch db1 r where "(if Some l = db_to_hash db then Inr (db_to_code_hash db, db) else get_code_hash vm mc db a) = Inr (ch, db1)"
    and "db' = db1\<lparr>db_read_accounts := r\<rparr>"
    using assms Some by (auto simp: complete_account_def Let_def and_then_Inr_iff split: if_splits)
  then show ?thesis using get_code_hash_single [OF _ assms(2)] assms(2) by (auto split: if_splits)
qed

lemma db_basic_single:
  assumes "db_basic vm m mc mb db a = Some (Inr (x, db'))" "hash_basic vm db a = Some l"
    and "length (origins_of db (vm_hash vm (LocCodeHash a))) \<le> 1" "l \<noteq> vm_hash vm (LocCodeHash a)"
  shows "length (origins_of db' (vm_hash vm (LocCodeHash a))) \<le> 1"
  using assms(1,2)
proof (cases rule: db_basic_cases)
  case mock
  with assms(3) show ?thesis by simp
next
  case (read acct add pos na db1)
  have "origins_of db1 (vm_hash vm (LocCodeHash a)) = origins_of db (vm_hash vm (LocCodeHash a))"
    using resolve_account_grows [OF read(3)] assms(4) by simp
  with complete_account_single [OF read(4)] assms(3) show ?thesis by simp
qed

lemma basic_ok:
  assumes "db_ok vm ms m' k L i db" "inj_on (vm_hash vm) L" "{LocBasic a, LocCodeHash a} \<subseteq> L"
    and "db_basic vm m mc mb db a = Some (Inr (x, db'))"
  shows "db_ok vm ms m' (k + 3) L i db' \<and> grows db db'"
proof -
  note h = db_ok_hash [OF assms(1), of a] and g = db_basic_grows [OF assms(4)]
  have apart: "vm_hash vm (LocBasic a) \<noteq> vm_hash vm (LocCodeHash a)"
    using assms(2,3) by (auto dest: inj_onD)
  have "length (origins_of db' (vm_hash vm (LocCodeHash a))) \<le> 1"
    using db_basic_single [OF assms(4) h _ apart] db_ok_single [OF assms(1)] assms(3) by simp
  moreover have "db_ok vm ms m' (k + 3) L i db'"
  proof (rule db_ok_step [OF assms(1) _ assms(2,3)])
    show "grows db db'" using g [OF h] by simp
    show "origins_of db' l = origins_of db l" if "l \<notin> vm_hash vm ` {LocBasic a, LocCodeHash a}" for l
      using g [OF h] that by simp
  qed (use calculation in auto)
  ultimately show ?thesis using g [OF h] by simp
qed

lemma db_storage_ok:
  assumes "db_ok vm ms m' k L i db" "inj_on (vm_hash vm) L" "{LocStorage a j} \<subseteq> L"
    and "db_storage vm m db a j = Inr (v, db')"
  shows "db_ok vm ms m' (k + 3) L i db' \<and> grows db db'"
  using db_ok_step [OF assms(1) _ assms(2,3)] db_storage_grows [OF assms(4)]
    db_storage_single [OF assms(4)] db_ok_single [OF assms(1)] assms(3) by auto

lemma basic_repeat:
  assumes ok: "db_ok vm ms m' k L i db" and inj: "inj_on (vm_hash vm) L" "{LocBasic a, LocCodeHash a} \<subseteq> L"
    and run: "db_basic vm (ms k) (ms (k + 1)) (ms (k + 2)) db a = Some (Inr (x, db'))"
    and later: "later_memory vm ms m' i"
    and valid: "\<And>l. origins_of db' l \<noteq> [] \<Longrightarrow> match_origins (origins_of db' l) (mem_below m' l i)"
  shows "db_basic vm m' m' m' db a = Some (Inr (x, db'))"
proof -
  let ?l = "vm_hash vm (LocBasic a)" and ?c = "vm_hash vm (LocCodeHash a)"
  have h: "hash_basic vm db a = Some ?l" and i: "db_tx_idx db = i" and single: "length (origins_of db ?c) \<le> 1"
    using ok db_ok_single [OF ok, of "LocCodeHash a"] inj(2) by (simp_all add: db_ok_hash, simp add: db_ok_def)
  have apart: "?l \<noteq> ?c"
    using inj by (auto dest: inj_onD)
  from run h show ?thesis
  proof (cases rule: db_basic_cases)
    case mock
    then show ?thesis by blast
  next
    case (read acct add pos na db1)
    note g1 = resolve_account_grows [OF read(3)] and g2 = complete_account_grows [OF read(4)]
    have "origins_of db' ?l = origins_of db1 ?l" using g2 apart by simp
    then have "match_origins (origins_of db1 ?l) (mem_below m' ?l (db_tx_idx db))"
      using valid [of ?l] g1 i by simp
    then have r1: "resolve_account vm m' db ?l a = Inr ((acct, add, pos, na), db1)"
      using resolve_account_repeat [OF read(3)] later_memoryD(1) [OF later] i by simp
    have same1: "origins_of db1 ?c = origins_of db ?c" "db_tx_idx db1 = i" "db_to_code_hash db1 = db_to_code_hash db"
      using g1 apart i by (simp_all add: grows_def)
    have code: "load_code vm m' (Some h) = Inr c"
      if r: "readable_hash vm (ms (k + 1)) (db_tx_idx db1) h \<and> readable_hash vm m' (db_tx_idx db1) h \<or>
          db_to_code_hash db1 = Some h"
        and c: "load_code vm (ms (k + 2)) (Some h) = Inr c" for h c
    proof -
      have "(\<exists>k0 \<le> k + 1. readable_hash vm (ms k0) i h) \<and> readable_hash vm m' i h"
        using r
      proof
        assume "readable_hash vm (ms (k + 1)) (db_tx_idx db1) h \<and> readable_hash vm m' (db_tx_idx db1) h"
        with same1(2) show ?thesis by auto
      next
        assume "db_to_code_hash db1 = Some h"
        with same1(3) db_ok_to_code [OF ok, of h] show ?thesis by (auto intro: le_SucI)
      qed
      then obtain k0 where "k0 \<le> k + 1" "readable_hash vm (ms k0) i h" "readable_hash vm m' i h" by blast
      then show ?thesis
        using later_memoryD(2) [OF later, of k0 "k + 2" h c] c by simp
    qed
    have "complete_account vm m' m' db1 ?l a (acct, add, pos, na) = Inr (x, db')"
    proof (rule complete_account_repeat [OF read(4)])
      show "same_values (ms (k + 1)) m' (db_tx_idx db1)" using later_memoryD(1) [OF later] same1(2) by simp
      show "length (origins_of db1 ?c) \<le> 1" using single same1(1) by simp
      show "match_origins (origins_of db' ?c) (mem_below m' ?c (db_tx_idx db1))" if "origins_of db' ?c \<noteq> []"
        using valid [OF that] same1(2) by simp
    qed (fact code)
    with r1 h read(1,2) show ?thesis by (auto simp: db_basic_def)
  qed
qed

lemma storage_repeat:
  assumes ok: "db_ok vm ms m' k L i db" and inj: "{LocStorage a j} \<subseteq> L"
    and run: "db_storage vm (ms k) db a j = Inr (v, db')"
    and later: "later_memory vm ms m' i"
    and valid: "\<And>l. origins_of db' l \<noteq> [] \<Longrightarrow> match_origins (origins_of db' l) (mem_below m' l i)"
  shows "db_storage vm m' db a j = Inr (v, db')"
proof (rule db_storage_repeat [OF run])
  have i: "db_tx_idx db = i" using ok by (simp add: db_ok_def)
  show "same_values (ms k) m' (db_tx_idx db)" using later_memoryD(1) [OF later] i by simp
  show "length (origins_of db (vm_hash vm (LocStorage a j))) \<le> 1" using db_ok_single [OF ok] inj by simp
  show "match_origins (origins_of db' (vm_hash vm (LocStorage a j)))
      (mem_below m' (vm_hash vm (LocStorage a j)) (db_tx_idx db))"
    using valid db_storage_grows [OF run] i by simp
qed

lemma run_grows:
  assumes "db_ok vm ms m' k L i db" "inj_on (vm_hash vm) L" "run_locations t vm ms k db \<subseteq> L"
    and "run_evm t vm ms k db = Some (Inr (r, db'))"
  shows "grows db db'"
  using assms
proof (induction t arbitrary: k db)
  case (Finished x)
  then show ?case by simp
next
  case (AskBasic a f)
  obtain x db1 where s: "db_basic vm (ms k) (ms (k + 1)) (ms (k + 2)) db a = Some (Inr (x, db1))"
    using AskBasic.prems(4) by (auto split: option.splits sum.splits)
  have "db_ok vm ms m' (k + 3) L i db1 \<and> grows db db1"
    using basic_ok [OF AskBasic.prems(1,2) _ s] AskBasic.prems(3) by simp
  moreover have "run_locations (f x) vm ms (k + 3) db1 \<subseteq> L" "run_evm (f x) vm ms (k + 3) db1 = Some (Inr (r, db'))"
    using AskBasic.prems(3,4) s by simp_all
  ultimately show ?case using AskBasic.IH [OF _ _ AskBasic.prems(2)] grows_trans by blast
next
  case (AskCode h f)
  obtain c where s: "db_code_by_hash vm h = Inr c"
    using AskCode.prems(4) by (auto split: sum.splits)
  have "db_ok vm ms m' (k + 3) L i db"
    using AskCode.prems(1) db_ok_step [OF _ grows_refl AskCode.prems(2), of ms m' k i db "{}"] by simp
  moreover have "run_locations (f c) vm ms (k + 3) db \<subseteq> L" "run_evm (f c) vm ms (k + 3) db = Some (Inr (r, db'))"
    using AskCode.prems(3,4) s by simp_all
  ultimately show ?case using AskCode.IH [OF _ _ AskCode.prems(2)] by blast
next
  case (AskStorage a j f)
  obtain v db1 where s: "db_storage vm (ms k) db a j = Inr (v, db1)"
    using AskStorage.prems(4) by (auto split: sum.splits)
  have "db_ok vm ms m' (k + 3) L i db1 \<and> grows db db1"
    using db_storage_ok [OF AskStorage.prems(1,2) _ s] AskStorage.prems(3) by simp
  moreover have "run_locations (f v) vm ms (k + 3) db1 \<subseteq> L" "run_evm (f v) vm ms (k + 3) db1 = Some (Inr (r, db'))"
    using AskStorage.prems(3,4) s by simp_all
  ultimately show ?case using AskStorage.IH [OF _ _ AskStorage.prems(2)] grows_trans by blast
next
  case (AskBlockHash n f)
  obtain h where s: "db_block_hash vm n = Inr h"
    using AskBlockHash.prems(4) by (auto split: sum.splits)
  have "db_ok vm ms m' (k + 3) L i db"
    using AskBlockHash.prems(1) db_ok_step [OF _ grows_refl AskBlockHash.prems(2), of ms m' k i db "{}"] by simp
  moreover have "run_locations (f h) vm ms (k + 3) db \<subseteq> L" "run_evm (f h) vm ms (k + 3) db = Some (Inr (r, db'))"
    using AskBlockHash.prems(3,4) s by simp_all
  ultimately show ?case using AskBlockHash.IH [OF _ _ AskBlockHash.prems(2)] by blast
qed

lemma grows_match:
  assumes "grows db1 db'" "\<And>l. origins_of db' l \<noteq> [] \<Longrightarrow> match_origins (origins_of db' l) (mem_below m' l i)"
    and "origins_of db1 l \<noteq> []"
  shows "match_origins (origins_of db1 l) (mem_below m' l i)"
  using assms unfolding grows_def by metis

text \<open>A run whose origins are all valid in a later memory gives the same verdict there.\<close>

lemma run_repeat:
  assumes "db_ok vm ms m' k L i db" "inj_on (vm_hash vm) L" "run_locations t vm ms k db \<subseteq> L"
    and "run_evm t vm ms k db = Some (Inr (r, db'))" "later_memory vm ms m' i"
    and "\<And>l. origins_of db' l \<noteq> [] \<Longrightarrow> match_origins (origins_of db' l) (mem_below m' l i)"
  shows "run_evm t vm (\<lambda>_. m') k db = Some (Inr (r, db'))"
  using assms(1,3,4)
proof (induction t arbitrary: k db)
  case (Finished x)
  then show ?case by simp
next
  case (AskBasic a f)
  obtain x db1 where s: "db_basic vm (ms k) (ms (k + 1)) (ms (k + 2)) db a = Some (Inr (x, db1))"
    using AskBasic.prems(3) by (auto split: option.splits sum.splits)
  have L: "{LocBasic a, LocCodeHash a} \<subseteq> L" "run_locations (f x) vm ms (k + 3) db1 \<subseteq> L"
    and run: "run_evm (f x) vm ms (k + 3) db1 = Some (Inr (r, db'))"
    using AskBasic.prems(2,3) s by simp_all
  have ok: "db_ok vm ms m' (k + 3) L i db1"
    using basic_ok [OF AskBasic.prems(1) assms(2) L(1) s] by simp
  have "db_basic vm m' m' m' db a = Some (Inr (x, db1))"
    by (rule basic_repeat [OF AskBasic.prems(1) assms(2) L(1) s assms(5)])
      (rule grows_match [OF run_grows [OF ok assms(2) L(2) run] assms(6)])
  with AskBasic.IH [OF _ ok L(2) run] show ?case by simp
next
  case (AskCode h f)
  obtain c where s: "db_code_by_hash vm h = Inr c"
    using AskCode.prems(3) by (auto split: sum.splits)
  have "db_ok vm ms m' (k + 3) L i db"
    using AskCode.prems(1) db_ok_step [OF _ grows_refl assms(2), of ms m' k i db "{}"] by simp
  moreover have "run_locations (f c) vm ms (k + 3) db \<subseteq> L" "run_evm (f c) vm ms (k + 3) db = Some (Inr (r, db'))"
    using AskCode.prems(2,3) s by simp_all
  ultimately have "run_evm (f c) vm (\<lambda>_. m') (k + 3) db = Some (Inr (r, db'))"
    using AskCode.IH by blast
  then show ?case using s by simp
next
  case (AskStorage a j f)
  obtain v db1 where s: "db_storage vm (ms k) db a j = Inr (v, db1)"
    using AskStorage.prems(3) by (auto split: sum.splits)
  have L: "{LocStorage a j} \<subseteq> L" "run_locations (f v) vm ms (k + 3) db1 \<subseteq> L"
    and run: "run_evm (f v) vm ms (k + 3) db1 = Some (Inr (r, db'))"
    using AskStorage.prems(2,3) s by simp_all
  have ok: "db_ok vm ms m' (k + 3) L i db1"
    using db_storage_ok [OF AskStorage.prems(1) assms(2) L(1) s] by simp
  have "db_storage vm m' db a j = Inr (v, db1)"
    by (rule storage_repeat [OF AskStorage.prems(1) L(1) s assms(5)])
      (rule grows_match [OF run_grows [OF ok assms(2) L(2) run] assms(6)])
  with AskStorage.IH [OF _ ok L(2) run] show ?case by simp
next
  case (AskBlockHash n f)
  obtain h where s: "db_block_hash vm n = Inr h"
    using AskBlockHash.prems(3) by (auto split: sum.splits)
  have "db_ok vm ms m' (k + 3) L i db"
    using AskBlockHash.prems(1) db_ok_step [OF _ grows_refl assms(2), of ms m' k i db "{}"] by simp
  moreover have "run_locations (f h) vm ms (k + 3) db \<subseteq> L" "run_evm (f h) vm ms (k + 3) db = Some (Inr (r, db'))"
    using AskBlockHash.prems(2,3) s by simp_all
  ultimately have "run_evm (f h) vm (\<lambda>_. m') (k + 3) db = Some (Inr (r, db'))"
    using AskBlockHash.IH by blast
  then show ?case using s by simp
qed

text \<open>A run meets no memory before its own accesses.\<close>

lemma run_evm_cong:
  "(\<And>j. k \<le> j \<Longrightarrow> ms j = ms' j) \<Longrightarrow> run_evm t vm ms k db = run_evm t vm ms' k db"
proof (induction t arbitrary: k db)
  case (AskBasic a f)
  have "db_basic vm (ms k) (ms (k + 1)) (ms (k + 2)) db a = db_basic vm (ms' k) (ms' (k + 1)) (ms' (k + 2)) db a"
    using AskBasic.prems by simp
  moreover have "run_evm (f x) vm ms (k + 3) db' = run_evm (f x) vm ms' (k + 3) db'" for x db'
    by (rule AskBasic.IH) (use AskBasic.prems in simp_all)
  ultimately show ?case by (simp split: option.split sum.split)
next
  case (AskCode h f)
  have "run_evm (f x) vm ms (k + 3) db' = run_evm (f x) vm ms' (k + 3) db'" for x db'
    by (rule AskCode.IH) (use AskCode.prems in simp_all)
  then show ?case by (simp split: sum.split)
next
  case (AskStorage a j f)
  have "run_evm (f x) vm ms (k + 3) db' = run_evm (f x) vm ms' (k + 3) db'" for x db'
    by (rule AskStorage.IH) (use AskStorage.prems in simp_all)
  then show ?case using AskStorage.prems [of k] by (simp split: sum.split)
next
  case (AskBlockHash n f)
  have "run_evm (f x) vm ms (k + 3) db' = run_evm (f x) vm ms' (k + 3) db'" for x db'
    by (rule AskBlockHash.IH) (use AskBlockHash.prems in simp_all)
  then show ?case by (simp split: sum.split)
qed simp

section \<open>Executing again\<close>

definition attempt_locations ::
    "('blob, 'eof) vm \<Rightarrow> (nat \<Rightarrow> 'eof bytecode mv_memory) \<Rightarrow> tx_idx_t \<Rightarrow> memory_location set" where
  "attempt_locations vm ms i =
     (let tx = vm_txs vm ! i;
          to_hash = map_option (\<lambda>to. vm_hash vm (LocBasic to)) (tx_kind_to (te_transact_to tx))
      in (case te_transact_to tx of Call to \<Rightarrow> {LocCodeHash to} | Create \<Rightarrow> {}) \<union>
         (case db_new vm (ms 0) (ms 1) (ms 2) i tx (vm_hash vm (LocBasic (te_caller tx))) to_hash of
            Some (Inr db) \<Rightarrow> run_locations (vm_transact vm tx) vm ms 3 db
          | _ \<Rightarrow> {}))"

text \<open>The database of a transaction before its first read.\<close>

abbreviation from_hash_of :: "('blob, 'eof) vm \<Rightarrow> tx_idx_t \<Rightarrow> memory_location_hash" where
  "from_hash_of vm i \<equiv> vm_hash vm (LocBasic (te_caller (vm_txs vm ! i)))"

abbreviation to_hash_of :: "('blob, 'eof) vm \<Rightarrow> tx_idx_t \<Rightarrow> memory_location_hash option" where
  "to_hash_of vm i \<equiv> map_option (\<lambda>to. vm_hash vm (LocBasic to)) (tx_kind_to (te_transact_to (vm_txs vm ! i)))"

definition unread_db :: "('blob, 'eof) vm \<Rightarrow> tx_idx_t \<Rightarrow> vm_db" where
  "unread_db vm i =
     \<lparr>db_tx_idx = i, db_tx = vm_txs vm ! i, db_from_hash = from_hash_of vm i, db_to_hash = to_hash_of vm i,
      db_to_code_hash = None, db_is_lazy = False, db_read_set = [], db_read_accounts = Map.empty\<rparr>"

definition lazy_at ::
    "('blob, 'eof) vm \<Rightarrow> tx_idx_t \<Rightarrow> address \<Rightarrow> b256 option \<Rightarrow> 'eof bytecode mv_memory \<Rightarrow> 'eof bytecode mv_memory \<Rightarrow> bool" where
  "lazy_at vm i to h m1 m2 \<longleftrightarrow>
     h = None \<and> (data m1 (from_hash_of vm i) \<noteq> None \<or> data m2 (vm_hash vm (LocBasic to)) \<noteq> None)"

text \<open>
  Whether a transfer to an account without code is evaluated lazily depends on which of its accounts
  the memory has a place for. The two memories that decided it and those of another execution decide alike.
\<close>

definition decides_alike ::
    "('blob, 'eof) vm \<Rightarrow> (nat \<Rightarrow> 'eof bytecode mv_memory) \<Rightarrow> (nat \<Rightarrow> 'eof bytecode mv_memory) \<Rightarrow> tx_idx_t \<Rightarrow> bool" where
  "decides_alike vm ms ms' i \<longleftrightarrow>
     (\<forall>to db. te_transact_to (vm_txs vm ! i) = Call to \<longrightarrow> get_code_hash vm (ms 0) (unread_db vm i) to = Inr (None, db) \<longrightarrow>
        lazy_at vm i to None (ms 1) (ms 2) = lazy_at vm i to None (ms' 1) (ms' 2))"

text \<open>An execution on one memory, but for the two tests of keys that decide, which meet others.\<close>

definition probing ::
    "'eof bytecode mv_memory \<Rightarrow> 'eof bytecode mv_memory \<Rightarrow> 'eof bytecode mv_memory \<Rightarrow> nat \<Rightarrow> 'eof bytecode mv_memory" where
  "probing p1 p2 m k = (if k = 1 then p1 else if k = 2 then p2 else m)"

lemma probing_simps [simp]:
  "probing p1 p2 m 0 = m" "probing p1 p2 m (Suc 0) = p1" "probing p1 p2 m 2 = p2" "3 \<le> k \<Longrightarrow> probing p1 p2 m k = m"
  "probing m m m = (\<lambda>_. m)"
  by (auto simp: probing_def)

lemma decides_probing: "decides_alike vm ms (probing (ms 1) (ms 2) m) i"
  by (simp add: decides_alike_def)

text \<open>In particular, all the memories of the other execution are \<open>m'\<close>.\<close>

definition same_laziness ::
    "('blob, 'eof) vm \<Rightarrow> (nat \<Rightarrow> 'eof bytecode mv_memory) \<Rightarrow> 'eof bytecode mv_memory \<Rightarrow> tx_idx_t \<Rightarrow> bool" where
  "same_laziness vm ms m' i \<longleftrightarrow>
     (\<forall>to db. te_transact_to (vm_txs vm ! i) = Call to \<longrightarrow> get_code_hash vm (ms 0) (unread_db vm i) to = Inr (None, db) \<longrightarrow>
        lazy_at vm i to None (ms 1) (ms 2) = lazy_at vm i to None m' m')"

lemma same_laziness_decides: "same_laziness vm ms m' i \<longleftrightarrow> decides_alike vm ms (\<lambda>_. m') i"
  by (simp add: same_laziness_def decides_alike_def)

lemma unread_db_simps [simp]:
  "origins_of (unread_db vm i) l = []" "db_tx_idx (unread_db vm i) = i"
  by (simp_all add: unread_db_def origins_of_def)

lemma db_new_Create:
  "te_transact_to (vm_txs vm ! i) = Create \<Longrightarrow>
     db_new vm m m1 m2 i (vm_txs vm ! i) (from_hash_of vm i) (to_hash_of vm i) = Some (Inr (unread_db vm i))"
  by (simp add: db_new_def unread_db_def)

lemma db_new_Call:
  assumes "te_transact_to (vm_txs vm ! i) = Call to"
  shows "db_new vm m m1 m2 i (vm_txs vm ! i) (from_hash_of vm i) (to_hash_of vm i) =
    Some (case get_code_hash vm m (unread_db vm i) to of
      Inl e \<Rightarrow> Inl e
    | Inr (h, db) \<Rightarrow> Inr (db\<lparr>db_to_code_hash := h, db_is_lazy := lazy_at vm i to h m1 m2\<rparr>))"
  using assms
  by (auto simp: db_new_def unread_db_def lazy_at_def Let_def split: sum.splits)

lemma unread_db_ok: "db_ok vm ms m' k L i (unread_db vm i)"
  by (simp add: db_ok_def) (simp add: unread_db_def)

lemma code_hash_db_ok:
  assumes "get_code_hash vm m (unread_db vm i) to = Inr (h, db)"
    and "\<And>h'. h = Some h' \<Longrightarrow> (\<exists>k0 \<le> k. readable_hash vm (ms k0) i h') \<and> readable_hash vm m' i h'"
  shows "db_ok vm ms m' k L i (db\<lparr>db_to_code_hash := h, db_is_lazy := b\<rparr>)"
proof -
  have "length (origins_of db (vm_hash vm x)) \<le> 1" for x
    using get_code_hash_grows [OF assms(1)] get_code_hash_single [OF assms(1)]
    by (cases "vm_hash vm x = vm_hash vm (LocCodeHash to)") simp_all
  moreover have "grows (unread_db vm i) db" using get_code_hash_grows [OF assms(1)] by simp
  ultimately show ?thesis
    using assms(2) unread_db_ok [of vm ms m' k L i] by (simp add: db_ok_def grows_def)
qed

lemma db_new_ok:
  assumes "db_new vm (ms 0) m1 m2 i (vm_txs vm ! i) (from_hash_of vm i) (to_hash_of vm i) = Some (Inr db)"
  shows "db_ok vm ms (ms 0) 3 L i db"
proof (cases "te_transact_to (vm_txs vm ! i)")
  case Create
  then have "db = unread_db vm i" using assms unfolding db_new_Create [OF Create] by simp
  then show ?thesis by (simp add: unread_db_ok)
next
  case (Call to)
  then obtain h db1 where code: "get_code_hash vm (ms 0) (unread_db vm i) to = Inr (h, db1)"
    and db: "db = db1\<lparr>db_to_code_hash := h, db_is_lazy := lazy_at vm i to h m1 m2\<rparr>"
    using assms unfolding db_new_Call [OF Call] by (auto split: sum.splits)
  show ?thesis
    unfolding db using get_code_hash_grows [OF code] by (intro code_hash_db_ok [OF code]) auto
qed

lemma db_new_repeat:
  assumes new: "db_new vm (ms 0) (ms 1) (ms 2) i (vm_txs vm ! i) (from_hash_of vm i) (to_hash_of vm i) = Some (Inr db)"
    and later: "later_memory vm ms m' i" "decides_alike vm ms ms' i"
    and valid: "\<And>l. origins_of db l \<noteq> [] \<Longrightarrow> match_origins (origins_of db l) (mem_below m' l i)"
  shows "db_new vm m' (ms' 1) (ms' 2) i (vm_txs vm ! i) (from_hash_of vm i) (to_hash_of vm i) = Some (Inr db) \<and>
    db_ok vm ms m' 3 L i db"
proof (cases "te_transact_to (vm_txs vm ! i)")
  case Create
  then have "db = unread_db vm i" using new unfolding db_new_Create [OF Create] by simp
  then show ?thesis unfolding db_new_Create [OF Create] by (simp add: unread_db_ok)
next
  case (Call to)
  let ?c = "vm_hash vm (LocCodeHash to)"
  obtain h db1 where code: "get_code_hash vm (ms 0) (unread_db vm i) to = Inr (h, db1)"
    and db: "db = db1\<lparr>db_to_code_hash := h, db_is_lazy := lazy_at vm i to h (ms 1) (ms 2)\<rparr>"
    using new unfolding db_new_Call [OF Call] by (auto split: sum.splits)
  note g = get_code_hash_grows [OF code]
  have code': "get_code_hash vm m' (unread_db vm i) to = Inr (h, db1)"
  proof (rule get_code_hash_repeat [OF code])
    show "same_values (ms 0) m' (db_tx_idx (unread_db vm i))" using later_memoryD(1) [OF later(1)] by simp
    show "match_origins (origins_of db1 ?c) (mem_below m' ?c (db_tx_idx (unread_db vm i)))"
      using valid [of ?c] g db by simp
  qed simp
  have lazy: "lazy_at vm i to h (ms 1) (ms 2) = lazy_at vm i to h (ms' 1) (ms' 2)"
    using later(2) Call code by (cases h) (simp_all add: decides_alike_def, simp add: lazy_at_def)
  have "db_ok vm ms m' 3 L i db"
    unfolding db using g get_code_hash_grows [OF code'] by (intro code_hash_db_ok [OF code]) auto
  then show ?thesis unfolding db_new_Call [OF Call] by (simp add: code' db lazy del: One_nat_def)
qed

lemma attempt_cases:
  assumes "vm_attempt vm ms i = Some (Inr (db, res))"
  obtains db0 where "i < length (vm_txs vm)"
    "db_new vm (ms 0) (ms 1) (ms 2) i (vm_txs vm ! i) (from_hash_of vm i) (to_hash_of vm i) = Some (Inr db0)"
    "run_evm (vm_transact vm (vm_txs vm ! i)) vm ms 3 db0 = Some (Inr (Inr res, db))"
proof -
  let ?new = "db_new vm (ms 0) (ms 1) (ms 2) i (vm_txs vm ! i) (from_hash_of vm i) (to_hash_of vm i)"
  note run = assms [unfolded vm_attempt_def Let_def]
  have i: "i < length (vm_txs vm)"
    using run by (auto simp: index_mutex_def split: if_splits)
  obtain db0 where new: "?new = Some (Inr db0)"
  proof (cases ?new)
    case (Some r)
    with run i that show ?thesis by (cases r) simp_all
  qed (use run i in simp)
  obtain r where r: "run_evm (vm_transact vm (vm_txs vm ! i)) vm ms 3 db0 = Some r"
    using run i new by (cases "run_evm (vm_transact vm (vm_txs vm ! i)) vm ms 3 db0") simp_all
  with run i new have "r = Inr (Inr res, db)"
    by (auto split: sum.splits prod.splits)
  with that i new r show thesis by simp
qed

lemma attempt_repeat:
  assumes "vm_attempt vm ms i = Some (Inr (db, res))"
    and inj: "inj_on (vm_hash vm) (attempt_locations vm ms i)"
    and later: "later_memory vm ms m' i" "decides_alike vm ms ms' i"
    and valid: "list_all (validate_location m' i) (db_read_set db)"
    and others: "ms' 0 = m'" "\<And>k. 3 \<le> k \<Longrightarrow> ms' k = m'"
  shows "vm_attempt vm ms' i = Some (Inr (db, res))"
  using assms(1)
proof (cases rule: attempt_cases)
  case (1 db0)
  let ?L = "attempt_locations vm ms i"
  have match: "match_origins (origins_of db l) (mem_below m' l i)" if "origins_of db l \<noteq> []" for l
  proof -
    have "(l, origins_of db l) \<in> set (db_read_set db)"
      using that by (auto simp: origins_of_def dest: map_of_SomeD split: option.splits)
    then show ?thesis using valid by (intro validate_location_match) (auto simp: list_all_iff)
  qed
  have L: "run_locations (vm_transact vm (vm_txs vm ! i)) vm ms 3 db0 \<subseteq> ?L"
    using 1(2) by (auto simp: attempt_locations_def Let_def)
  have grows: "grows db0 db"
    by (rule run_grows [OF db_new_ok [of vm ms, OF 1(2)] inj L 1(3)])
  have new: "db_new vm m' (ms' 1) (ms' 2) i (vm_txs vm ! i) (from_hash_of vm i) (to_hash_of vm i) = Some (Inr db0)"
    and ok: "db_ok vm ms m' 3 ?L i db0"
    using db_new_repeat [OF 1(2) later grows_match [OF grows match]] by simp_all
  have "run_evm (vm_transact vm (vm_txs vm ! i)) vm (\<lambda>_. m') 3 db0 = Some (Inr (Inr res, db))"
    by (rule run_repeat [OF ok inj L 1(3) later(1) match])
  moreover have "run_evm (vm_transact vm (vm_txs vm ! i)) vm ms' 3 db0 =
      run_evm (vm_transact vm (vm_txs vm ! i)) vm (\<lambda>_. m') 3 db0"
    by (rule run_evm_cong) (rule others(2))
  ultimately have "run_evm (vm_transact vm (vm_txs vm ! i)) vm ms' 3 db0 = Some (Inr (Inr res, db))" by simp
  with new 1(1) others(1) show ?thesis by (simp add: vm_attempt_def Let_def)
qed

section \<open>Writing again\<close>

lemma touched_writes_codes:
  assumes "touched_writes vm db codes a acct = Some (ws, codes')"
  shows "codes \<subseteq>\<^sub>m codes' \<and> (\<forall>c. codes' \<subseteq>\<^sub>m c \<longrightarrow> touched_writes vm db c a acct = Some (ws, c))"
proof -
  let ?h = "info_code_hash (acct_info acct)"
  let ?new = "\<not> is_empty_code_hash acct \<and>
    (case db_read_accounts db (vm_hash vm (LocBasic a)) of None \<Rightarrow> True | Some (_, code_hash) \<Rightarrow> code_hash = None)"
  show ?thesis
  proof (cases ?new)
    case False
    with assms show ?thesis by (auto simp: touched_writes_def Let_def)
  next
    case True
    obtain code where code: "codes' ?h = Some code" "codes \<subseteq>\<^sub>m codes'"
      using assms True
      by (cases "codes ?h")
        (auto simp: touched_writes_def Let_def bind_eq_Some_conv map_le_def dom_def split: if_splits)
    have "touched_writes vm db c a acct = Some (ws, c)" if "codes' \<subseteq>\<^sub>m c" for c
    proof -
      have "c ?h = Some code" using that code(1) by (metis domI map_le_def)
      moreover have "\<exists>x. touched_writes vm db c a acct = Some (ws, x)"
        using assms True calculation by (auto simp: touched_writes_def Let_def bind_eq_Some_conv)
      ultimately show ?thesis
        using True by (auto simp: touched_writes_def Let_def bind_eq_Some_conv)
    qed
    with code(2) show ?thesis by blast
  qed
qed

lemma account_writes_codes:
  assumes "account_writes vm db codes accts = Some (ws, codes')"
  shows "codes \<subseteq>\<^sub>m codes' \<and> (\<forall>c. codes' \<subseteq>\<^sub>m c \<longrightarrow> account_writes vm db c accts = Some (ws, c))"
  using assms
proof (induction accts arbitrary: codes ws)
  case Nil
  then show ?case by simp
next
  case (Cons x accts)
  obtain a acct where x: "x = (a, acct)" by fastforce
  show ?case
  proof (cases "is_selfdestructed acct")
    case True
    with Cons.prems x obtain ws1 where "account_writes vm db codes accts = Some (ws1, codes')"
      "ws = (vm_hash vm (LocCodeHash a), SelfDestructed) # ws1"
      by (auto simp: bind_eq_Some_conv)
    with Cons.IH True x show ?thesis by auto
  next
    case False
    let ?first = "\<lambda>codes. if is_touched acct then touched_writes vm db codes a acct else Some ([], codes)"
    obtain ws1 codes1 ws2 where first: "?first codes = Some (ws1, codes1)"
      and rest: "account_writes vm db codes1 accts = Some (ws2, codes')"
      and ws: "ws = ws1 @ map (\<lambda>(slot, v). (vm_hash vm (LocStorage a slot), ValStorage v)) (changed_storage_slots acct) @ ws2"
      using Cons.prems x False by (auto simp: bind_eq_Some_conv)
    have f: "codes \<subseteq>\<^sub>m codes1" "codes1 \<subseteq>\<^sub>m c \<Longrightarrow> ?first c = Some (ws1, c)" for c
      using first touched_writes_codes [of vm db codes a acct ws1 codes1] by (auto split: if_splits)
    have r: "codes1 \<subseteq>\<^sub>m codes'" "codes' \<subseteq>\<^sub>m c \<Longrightarrow> account_writes vm db c accts = Some (ws2, c)" for c
      using Cons.IH [OF rest] by auto
    have "account_writes vm db c (x # accts) = Some (ws, c)" if "codes' \<subseteq>\<^sub>m c" for c
      using f(2) [OF map_le_trans [OF r(1) that]] r(2) [OF that] False ws x by simp
    with map_le_trans [OF f(1) r(1)] show ?thesis by blast
  qed
qed

lemma vm_writes_codes:
  assumes "vm_writes vm db res codes = Some (r, codes')" "codes' \<subseteq>\<^sub>m c"
  shows "vm_writes vm db res c = Some (r, c)"
proof -
  obtain ws where ws: "account_writes vm db codes (rs_state res) = Some (ws, codes')"
    and r: "apply_rewards vm (db_tx db) (ucast (rs_gas_used res)) (rs_l1_cost res) ws = Some r"
    using assms(1) by (auto simp: vm_writes_def bind_eq_Some_conv)
  have "account_writes vm db c (rs_state res) = Some (ws, c)"
    using account_writes_codes [OF ws] assms(2) by blast
  with r show ?thesis by (simp add: vm_writes_def)
qed

text \<open>A successful execution, taken apart and put together.\<close>

lemma vm_execute_InrE:
  assumes "vm_execute vm ms m v = Some (Inr (r, flags), m2)"
  obtains db res ws codes m1 new where
    "vm_attempt vm ms (tx_idx v) = Some (Inr (db, res))"
    "vm_writes vm db res (new_bytecodes m) = Some (Inr ws, codes)"
    "note_lazy db (m\<lparr>new_bytecodes := codes\<rparr>) = Some m1"
    "mv_record m1 v (db_read_set db) ws = Some (m2, new)"
    "result_from_revm (vm_revm vm) (chain_eip_161 (vm_chain vm) (vm_spec_id vm)) res = Some r"
    "flags = execution_flags (tx_idx v) (db_is_lazy db) new"
proof -
  note run = assms [unfolded vm_execute_def]
  obtain db res where attempt: "vm_attempt vm ms (tx_idx v) = Some (Inr (db, res))"
  proof (cases "vm_attempt vm ms (tx_idx v)")
    case (Some x)
    with run that show ?thesis by (cases x) auto
  qed (use run in simp)
  obtain ws codes where writes: "vm_writes vm db res (new_bytecodes m) = Some (Inr ws, codes)"
  proof (cases "vm_writes vm db res (new_bytecodes m)")
    case (Some x)
    with run attempt that show ?thesis by (cases x; cases "fst x") auto
  qed (use run attempt in simp)
  obtain m1 where lazy: "note_lazy db (m\<lparr>new_bytecodes := codes\<rparr>) = Some m1"
  proof (cases "note_lazy db (m\<lparr>new_bytecodes := codes\<rparr>)")
    case (Some x)
    with that show ?thesis by simp
  qed (use run attempt writes in simp)
  obtain m3 new where recd: "mv_record m1 v (db_read_set db) ws = Some (m3, new)"
  proof (cases "mv_record m1 v (db_read_set db) ws")
    case (Some x)
    with that show ?thesis by (cases x) simp
  qed (use run attempt writes lazy in simp)
  obtain er where result: "result_from_revm (vm_revm vm) (chain_eip_161 (vm_chain vm) (vm_spec_id vm)) res = Some er"
  proof (cases "result_from_revm (vm_revm vm) (chain_eip_161 (vm_chain vm) (vm_spec_id vm)) res")
    case (Some x)
    with that show ?thesis by simp
  qed (use run attempt writes lazy recd in simp)
  have "er = r \<and> flags = execution_flags (tx_idx v) (db_is_lazy db) new \<and> m3 = m2"
    using run attempt writes lazy recd result by simp
  with attempt writes lazy recd result that show thesis by simp
qed

lemma note_lazy_simps:
  assumes "note_lazy db m = Some m1"
  shows "data m1 = data m" "last_locations m1 = last_locations m" "new_bytecodes m1 = new_bytecodes m"
    "entry_at m1 = entry_at m" "mv_ok m1 \<longleftrightarrow> mv_ok m"
proof -
  show d: "data m1 = data m" "last_locations m1 = last_locations m" "new_bytecodes m1 = new_bytecodes m"
    using assms by (auto simp: note_lazy_def add_lazy_addresses_def split: if_splits)
  show e: "entry_at m1 = entry_at m" unfolding entry_at_def [abs_def] d ..
  show "mv_ok m1 \<longleftrightarrow> mv_ok m" unfolding mv_ok_def d e ..
qed

lemma new_bytecodes_update:
  "entry_at (m\<lparr>new_bytecodes := c\<rparr>) = entry_at m" "mv_ok (m\<lparr>new_bytecodes := c\<rparr>) \<longleftrightarrow> mv_ok m"
proof -
  show e: "entry_at (m\<lparr>new_bytecodes := c\<rparr>) = entry_at m" unfolding entry_at_def [abs_def] by simp
  show "mv_ok (m\<lparr>new_bytecodes := c\<rparr>) \<longleftrightarrow> mv_ok m" unfolding mv_ok_def e by simp
qed

lemma note_lazy_total: "note_lazy db m = Some m1 \<Longrightarrow> \<exists>m1'. note_lazy db m' = Some m1'"
  by (auto simp: note_lazy_def split: if_splits)

section \<open>A valid execution repeats\<close>

lemma execution_repeats:
  assumes exec: "vm_execute vm ms m v = Some (Inr (r, flags), m1)"
    and ok: "mv_ok m" "mv_ok m'" "tx_idx v < length (last_locations m')"
    and kept: "last_locations m' ! tx_idx v = last_locations m1 ! tx_idx v"
      "\<And>l. entry_at m' l (tx_idx v) = entry_at m1 l (tx_idx v)" "new_bytecodes m1 \<subseteq>\<^sub>m new_bytecodes m'"
    and valid: "validate_read_locations m' (tx_idx v) = Some True"
    and later: "later_memory vm ms m' (tx_idx v)" "decides_alike vm ms ms' (tx_idx v)"
    and others: "ms' 0 = m'" "\<And>k. 3 \<le> k \<Longrightarrow> ms' k = m'"
    and inj: "inj_on (vm_hash vm) (attempt_locations vm ms (tx_idx v))"
  shows "\<exists>m2. vm_execute vm ms' m' v = Some (Inr (r, 0), m2) \<and> (\<forall>l j. entry_at m2 l j = entry_at m' l j)"
proof -
  let ?i = "tx_idx v"
  obtain db res ws codes mc new where attempt: "vm_attempt vm ms ?i = Some (Inr (db, res))"
    and writes: "vm_writes vm db res (new_bytecodes m) = Some (Inr ws, codes)"
    and lazy: "note_lazy db (m\<lparr>new_bytecodes := codes\<rparr>) = Some mc"
    and recd: "mv_record mc v (db_read_set db) ws = Some (m1, new)"
    and result: "result_from_revm (vm_revm vm) (chain_eip_161 (vm_chain vm) (vm_spec_id vm)) res = Some r"
    using vm_execute_InrE [OF exec] by metis
  have mc: "mv_ok mc" "new_bytecodes mc = codes"
    using note_lazy_simps [OF lazy] ok(1) by (simp_all add: new_bytecodes_update)
  note rec1 = mv_record_raw [OF mc(1) recd]
  have loc: "reads_of m' ?i = db_read_set db" "writes_of m' ?i = written ws"
  proof -
    obtain w where "last_locations m1 = (last_locations mc)[?i := \<lparr>ll_read = db_read_set db, ll_write = w\<rparr>]"
      "set w = written ws"
      using rec1(2) by blast
    then show "reads_of m' ?i = db_read_set db" "writes_of m' ?i = written ws"
      using kept(1) rec1(1) by simp_all
  qed
  have codes: "codes \<subseteq>\<^sub>m new_bytecodes m'" using kept(3) rec1(7) mc(2) by simp
  have "vm_attempt vm ms' ?i = Some (Inr (db, res))"
    using valid ok(3) loc(1) others
    by (intro attempt_repeat [OF attempt inj later]) (simp_all add: validate_read_locations_def)
  moreover have "vm_writes vm db res (new_bytecodes m') = Some (Inr ws, new_bytecodes m')"
    by (rule vm_writes_codes [OF writes codes])
  moreover obtain m2 where lazy': "note_lazy db m' = Some m2"
    using note_lazy_total [OF lazy] by blast
  note same = note_lazy_simps [OF lazy']
  moreover obtain m3 new' where recd': "mv_record m2 v (db_read_set db) ws = Some (m3, new')"
    using mv_record_total [of v m2 "db_read_set db" ws] ok(3) same(2) by auto
  note rec2 = mv_record_raw [OF same(5) [THEN iffD2, OF ok(2)] recd']
  have "\<not> new'" using rec2(4) loc(2) same(2) by simp
  then have "execution_flags ?i (db_is_lazy db) new' = 0"
    by (simp add: execution_flags_def NeedValidation_def)
  moreover have "entry_at m3 l j = entry_at m' l j" for l j
  proof (cases "j = ?i")
    case True
    show ?thesis
    proof (cases "map_of (rev ws) l")
      case None
      then have "l \<notin> written ws" by (force simp: written_def map_of_eq_None_iff)
      with True None rec2(5) [of l j] loc(2) same(2,4) show ?thesis by simp
    next
      case (Some x)
      then show ?thesis
        using True rec2(5) [of l j] rec1(5) [of l ?i] kept(2) [of l] by simp
    qed
  next
    case False
    then show ?thesis using rec2(5) [of l j] same(4) by simp
  qed
  ultimately show ?thesis
    using lazy' recd' result by (simp add: vm_execute_def)
qed

section \<open>An example\<close>

text \<open>
  A block of two transactions that each read slot 0 of account 1 and write it one higher; the first
  is recorded.
\<close>

definition example_tx_env :: tx_env where
  "example_tx_env =
     \<lparr>te_caller = 9, te_gas_limit = 50000, te_gas_price = 3, te_gas_priority_fee = None, te_transact_to = Create,
      te_value = 0, te_data = [], te_nonce = None, te_chain_id = None, te_access_list = [], te_blob_hashes = [],
      te_max_fee_per_blob_gas = None, te_authorization_list = None, te_optimism = optimism_fields_default,
      te_total_blob_gas = 0\<rparr>"

definition example_block_env :: "unit block_env" where
  "example_block_env =
     \<lparr>be_number = 0, be_coinbase = 3, be_timestamp = 0, be_gas_limit = 0, be_basefee = 1, be_difficulty = 0,
      be_prevrandao = None, be_blob_excess_gas_and_price = None\<rparr>"

definition example_run :: "nat evm_run" where
  "example_run = AskStorage 1 0 (\<lambda>x. Finished (Inr
     \<lparr>rs_is_success = True, rs_gas_used = 21000, rs_logs = [],
      rs_state = [(1, \<lparr>acct_info = \<lparr>info_balance = 0, info_nonce = 1, info_code_hash = 99, info_code = None\<rparr>,
        is_empty_code_hash = True, is_touched = False, is_selfdestructed = False, is_empty_account = False,
        slots = [(0, x + 1)], changed_storage_slots = [(0, x + 1)]\<rparr>)],
      rs_l1_cost = None\<rparr>))"

definition example_vm :: "(unit, nat) vm" where
  "example_vm = vm_new (\<lambda>l. case l of LocBasic a \<Rightarrow> ucast a | LocCodeHash a \<Rightarrow> ucast a + 100 | LocStorage a i \<Rightarrow> ucast a + 200)
     example_code (\<lambda>spec block_env tx. example_run) (in_memory_storage_of (\<lambda>_. 0) example_accounts)
     (pevm_ethereum example_location_hash) example_block_env [example_tx_env, example_tx_env] LONDON"

definition example_recorded :: "nat bytecode mv_memory" where
  "example_recorded =
     fst (the (mv_record (mv_new 2 [] []) \<lparr>tx_idx = 0, tx_incarnation = 0\<rparr> [(201, [OriginStorage])] [(201, ValStorage 5)]))"

lemma example_recorded_eq:
  "mv_record (mv_new 2 [] []) \<lparr>tx_idx = 0, tx_incarnation = 0\<rparr> [(201, [OriginStorage])] [(201, ValStorage 5)] =
     Some (example_recorded, True)"
  "example_recorded =
     \<lparr>data = [201 \<mapsto> [(0, Data 0 (ValStorage 5))]],
      last_locations = [\<lparr>ll_read = [(201, [OriginStorage])], ll_write = [201]\<rparr>, empty_locations],
      lazy_addresses = [], new_bytecodes = Map.empty\<rparr>"
  by (simp_all add: example_recorded_def mv_record_def mv_new_def empty_locations_def prune_old.simps insert_entry_def
      numeral_2_eq_2)

lemma example_recorded_ok: "mv_ok example_recorded"
  using mv_record_ok [OF mv_new_ok example_recorded_eq(1)] .

definition example_result :: pexe_tx_execution_result where
  "example_result =
     \<lparr>per_receipt = \<lparr>rc_status = True, rc_cumulative_gas_used = 21000, rc_logs = []\<rparr>, per_state = Map.empty\<rparr>"

definition example_executed :: "nat bytecode mv_memory" where
  "example_executed =
     \<lparr>data = [201 \<mapsto> [(0, Data 0 (ValStorage 5)), (1, Data 0 (ValStorage 6))], 3 \<mapsto> [(1, Data 0 (LazyRecipient 42000))]],
      last_locations =
        [\<lparr>ll_read = [(201, [OriginStorage])], ll_write = [201]\<rparr>,
         \<lparr>ll_read = [(201, [OriginMvMemory \<lparr>tx_idx = 0, tx_incarnation = 0\<rparr>])], ll_write = [201, 3]\<rparr>],
      lazy_addresses = [], new_bytecodes = Map.empty\<rparr>"

lemma example_attempt:
  "\<exists>db res. vm_attempt example_vm (\<lambda>_. example_recorded) 1 = Some (Inr (db, res)) \<and>
     db_read_set db = [(201, [OriginMvMemory \<lparr>tx_idx = 0, tx_incarnation = 0\<rparr>])] \<and> \<not> db_is_lazy db \<and>
     db_tx db = example_tx_env \<and>
     vm_writes example_vm db res c = Some (Inr [(201, ValStorage 6), (3, LazyRecipient 42000)], c) \<and>
     result_from_revm R b res = Some example_result"
  by (simp add: vm_attempt_def example_vm_def vm_new_def example_tx_env_def db_new_def example_run_def db_storage_def
      example_recorded_eq(2) mem_below_def bt_below_def origins_of_def push_origin_def set_origins_def
      vm_writes_def apply_rewards_def reward_gas_price_def pevm_ethereum_def ethereum_eip_1559_def less_eq_spec_id_def
      example_block_env_def sat_sub_def sat_mul_def result_from_revm_def example_result_def Let_def)

lemma example_exec:
  "vm_execute example_vm (\<lambda>_. example_recorded) example_recorded \<lparr>tx_idx = 1, tx_incarnation = 0\<rparr> =
     Some (Inr (example_result, 1), example_executed)"
proof -
  have "mv_record example_recorded \<lparr>tx_idx = 1, tx_incarnation = 0\<rparr>
      [(201, [OriginMvMemory \<lparr>tx_idx = 0, tx_incarnation = 0\<rparr>])] [(201, ValStorage 6), (3, LazyRecipient 42000)] =
    Some (example_executed, True)"
    by (simp add: mv_record_def example_recorded_eq(2) example_executed_def prune_old.simps insert_entry_def
        empty_locations_def)
  then show ?thesis
    using example_attempt [of "new_bytecodes example_recorded" "vm_revm example_vm"
        "chain_eip_161 (vm_chain example_vm) (vm_spec_id example_vm)"]
    by (auto simp: vm_execute_def note_lazy_def execution_flags_def NeedValidation_def WroteNewLocation_def)
qed

lemma same_values_refl: "mv_ok m \<Longrightarrow> same_values m m i"
  by (auto simp: same_values_def mem_below_set)

section \<open>Properties\<close>

text \<open>
  Property C6. Validation is sound. Let a transaction have executed and been recorded while other
  threads wrote, and let its reads be valid in a later memory that still holds what it recorded. Then
  executing it once more, alone, on that memory gives the same result, writes no new location and
  changes no entry: every transaction of a validated memory does what it does in a serial execution
  on top of the lower ones. The later memory keeps the values of versions and the codes of hashes, no two
  locations the transaction reads share a hash, and whether the transfer is lazy is decided alike.
\<close>

theorem validated_execution_repeats:
  assumes exec: "vm_execute vm ms m v = Some (Inr (r, flags), m1)"
    and ok: "mv_ok m" "mv_ok m'" "tx_idx v < length (last_locations m')"
    and kept: "last_locations m' ! tx_idx v = last_locations m1 ! tx_idx v"
      "\<And>l. entry_at m' l (tx_idx v) = entry_at m1 l (tx_idx v)" "new_bytecodes m1 \<subseteq>\<^sub>m new_bytecodes m'"
    and valid: "validate_read_locations m' (tx_idx v) = Some True"
    and later: "later_memory vm ms m' (tx_idx v)" "same_laziness vm ms m' (tx_idx v)"
    and inj: "inj_on (vm_hash vm) (attempt_locations vm ms (tx_idx v))"
  shows "\<exists>m2. vm_execute vm (\<lambda>_. m') m' v = Some (Inr (r, 0), m2) \<and> (\<forall>l j. entry_at m2 l j = entry_at m' l j)"
  by (rule execution_repeats [OF exec ok kept valid later(1) later(2) [unfolded same_laziness_decides] refl refl inj])

lemma example_executed_ok: "mv_ok example_executed"
proof -
  obtain db res ws codes mc new where "note_lazy db (example_recorded\<lparr>new_bytecodes := codes\<rparr>) = Some mc"
    "mv_record mc \<lparr>tx_idx = 1, tx_incarnation = 0\<rparr> (db_read_set db) ws = Some (example_executed, new)"
    using vm_execute_InrE [OF example_exec] by metis
  then show ?thesis
    using mv_record_ok note_lazy_simps(5) example_recorded_ok new_bytecodes_update(2) by metis
qed

lemma example_codes: "new_bytecodes example_executed = new_bytecodes example_recorded"
  by (simp add: example_executed_def example_recorded_eq(2))

lemma example_later: "later_memory example_vm (\<lambda>_. example_recorded) example_executed 1"
proof -
  have "mem_below example_executed l 1 = mem_below example_recorded l 1" for l
    by (simp add: mem_below_def bt_below_def example_executed_def example_recorded_eq(2))
  moreover have "load_code example_vm example_executed h = load_code example_vm example_recorded h" for h
    by (cases h) (simp_all add: load_code_def example_codes)
  ultimately show ?thesis
    using same_values_refl [OF example_recorded_ok, of 1] by (simp add: later_memory_def same_values_def)
qed

theorem validated_execution_repeats_witness:
  "\<exists>m2. vm_execute example_vm (\<lambda>_. example_executed) example_executed \<lparr>tx_idx = 1, tx_incarnation = 0\<rparr> =
     Some (Inr (example_result, 0), m2) \<and> entry_at m2 201 1 = Some (Data 0 (ValStorage 6))"
proof -
  let ?v = "\<lparr>tx_idx = 1, tx_incarnation = 0\<rparr>"
  have "attempt_locations example_vm (\<lambda>_. example_recorded) 1 = {LocStorage 1 0}"
    by (simp add: attempt_locations_def example_vm_def vm_new_def example_tx_env_def db_new_def example_run_def
        db_storage_def example_recorded_eq(2) mem_below_def bt_below_def origins_of_def push_origin_def)
  then have inj: "inj_on (vm_hash example_vm) (attempt_locations example_vm (\<lambda>_. example_recorded) (tx_idx ?v))" by simp
  have keys: "same_laziness example_vm (\<lambda>_. example_recorded) example_executed (tx_idx ?v)"
    by (simp add: same_laziness_def example_vm_def vm_new_def example_tx_env_def)
  have valid: "validate_read_locations example_executed (tx_idx ?v) = Some True"
    by (simp add: validate_read_locations_def validate_location_def example_executed_def bt_below_def)
  have later: "later_memory example_vm (\<lambda>_. example_recorded) example_executed (tx_idx ?v)"
    using example_later by simp
  have len: "tx_idx ?v < length (last_locations example_executed)" by (simp add: example_executed_def)
  obtain m2 where m2: "vm_execute example_vm (\<lambda>_. example_executed) example_executed ?v = Some (Inr (example_result, 0), m2)"
    "\<forall>l j. entry_at m2 l j = entry_at example_executed l j"
    using validated_execution_repeats [OF example_exec example_recorded_ok example_executed_ok len refl refl map_le_refl
        valid later keys inj] by blast
  have "entry_at example_executed 201 1 = Some (Data 0 (ValStorage 6))"
    by (simp add: entry_at_def entry_of_def bt_get_def example_executed_def)
  with m2 show ?thesis by auto
qed

end
