(* ===== verification/Engine_Validation.thy ===== *)
theory Engine_Validation
  imports Engine_Invariant Vm_Replay
begin

text \<open>
  What the invariant of the engine gives at the end of a block, and a complete run of the engine over
  a block of one transaction.
\<close>

section \<open>Runs by thread numbers\<close>

text \<open>A run given by which thread moves; executions read the memory as it is.\<close>

fun run_engine :: "(u8 \<Rightarrow> u8 \<Rightarrow> bool) \<Rightarrow> ('blob, 'eof) vm \<Rightarrow> nat list \<Rightarrow> 'eof engine \<Rightarrow> 'eof engine option" where
  "run_engine c vm [] e = Some e"
| "run_engine c vm (k # ks) e =
     (if k < length (pcs (workers e)) \<and> past e \<noteq> [] then
        (case local_step c vm (\<lambda>_. last (past e)) (local_of e k) of
           None \<Rightarrow> None
         | Some L \<Rightarrow> run_engine c vm ks (put_local e k L))
      else None)"

lemma observed_last: "hist \<noteq> [] \<Longrightarrow> observed hist (\<lambda>_. last hist)"
  unfolding observed_def by (rule exI [of _ "\<lambda>_. length hist - 1"]) (simp add: mono_def last_conv_nth)

lemma run_engine_run: "run_engine c vm ks e = Some e' \<Longrightarrow> (engine_step c vm)\<^sup>*\<^sup>* e e'"
proof (induction ks arbitrary: e)
  case (Cons k ks)
  then obtain L where k: "k < length (pcs (workers e))" "past e \<noteq> []"
    and L: "local_step c vm (\<lambda>_. last (past e)) (local_of e k) = Some L" "run_engine c vm ks (put_local e k L) = Some e'"
    by (auto split: if_splits option.splits)
  have "engine_step c vm e (put_local e k L)"
    by (rule engine_step.thread [OF k(1) observed_last [OF k(2)] L(1)])
  then show ?case using Cons.IH [OF L(2)] by (rule converse_rtranclp_into_rtranclp)
qed simp

fun example_hash :: "memory_location \<Rightarrow> u64" where
  "example_hash (LocBasic a) = ucast a"
| "example_hash (LocCodeHash a) = ucast a + 100"
| "example_hash (LocStorage a i) = ucast a + 200"

definition example_one_vm :: "(unit, nat) vm" where
  "example_one_vm = vm_new example_hash
     example_code (\<lambda>spec block_env tx. example_run) (in_memory_storage_of (\<lambda>_. 0) example_accounts)
     (pevm_ethereum example_hash) example_block_env [example_tx_env] LONDON"

definition example_one_start :: "nat engine" where
  "example_one_start = engine_init example_one_vm 1 \<lparr>execution_results = [], pexe_abort_reason = None\<rparr>"

definition example_one_init :: "nat bytecode mv_memory" where
  "example_one_init =
     \<lparr>data = [3 \<mapsto> [(0, Estimate)]], last_locations = [empty_locations], lazy_addresses = [3], new_bytecodes = Map.empty\<rparr>"

definition example_one_memory :: "nat bytecode mv_memory" where
  "example_one_memory =
     \<lparr>data = [201 \<mapsto> [(0, Data 0 (ValStorage 1))], 3 \<mapsto> [(0, Data 0 (LazyRecipient 42000))]],
      last_locations = [\<lparr>ll_read = [(201, [OriginStorage])], ll_write = [201, 3]\<rparr>],
      lazy_addresses = [3], new_bytecodes = Map.empty\<rparr>"

lemma example_one_txs: "vm_txs example_one_vm = [example_tx_env]"
  by (simp add: example_one_vm_def vm_new_def)

lemma example_one_build:
  "chain_build_mv_memory (vm_chain example_one_vm) (vm_block_env example_one_vm) [example_tx_env] = example_one_init"
  by (simp add: example_one_vm_def vm_new_def pevm_ethereum_def ethereum_build_mv_memory_def Let_def example_block_env_def
      mv_new_def example_one_init_def bt_of_list_def fun_eq_iff)

lemma example_one_attempt:
  "\<exists>db res. vm_attempt example_one_vm (\<lambda>_. example_one_init) 0 = Some (Inr (db, res)) \<and>
     db_read_set db = [(201, [OriginStorage])] \<and> \<not> db_is_lazy db \<and> db_tx db = example_tx_env \<and>
     vm_writes example_one_vm db res d = Some (Inr [(201, ValStorage 1), (3, LazyRecipient 42000)], d) \<and>
     result_from_revm R b res = Some example_result"
  by (simp add: vm_attempt_def example_one_vm_def vm_new_def example_tx_env_def db_new_def example_run_def db_storage_def
      example_one_init_def mem_below_def bt_below_def origins_of_def push_origin_def set_origins_def
      in_memory_storage_of_def in_memory_slot_def example_accounts_def evm_in_memory_new_def
      vm_writes_def apply_rewards_def reward_gas_price_def pevm_ethereum_def ethereum_eip_1559_def less_eq_spec_id_def
      example_block_env_def sat_sub_def sat_mul_def result_from_revm_def example_result_def Let_def)

lemma example_one_exec:
  "vm_execute example_one_vm (\<lambda>_. example_one_init) example_one_init \<lparr>tx_idx = 0, tx_incarnation = 0\<rparr> =
     Some (Inr (example_result, 1), example_one_memory)"
proof -
  have "mv_record example_one_init \<lparr>tx_idx = 0, tx_incarnation = 0\<rparr> [(201, [OriginStorage])] [(201, ValStorage 1), (3, LazyRecipient 42000)] =
    Some (example_one_memory, True)"
    by (simp add: mv_record_def example_one_init_def example_one_memory_def prune_old.simps insert_entry_def
        empty_locations_def fun_eq_iff)
  then show ?thesis
    using example_one_attempt [of "new_bytecodes example_one_init" "vm_revm example_one_vm"
        "chain_eip_161 (vm_chain example_one_vm) (vm_spec_id example_one_vm)"]
    by (auto simp: vm_execute_def note_lazy_def execution_flags_def NeedValidation_def WroteNewLocation_def)
qed

lemmas run_engine_simps = local_step_def try_execute_task_def try_validate_task_def advance_def local_of_def put_local_def
  run_simps machine_init_def store_result_def

lemma example_one_run:
  "\<exists>e. run_engine (\<lambda>a b. a AND b = b) example_one_vm
       [0, 0, 0, 0, 0, 0, 0, 0, 0, 0, 0, 0, 0, 0, 0, 0, 0, 0] example_one_start = Some e \<and>
     all_exited (workers e) \<and> memory e = example_one_memory \<and> 
     outcome e = \<lparr>execution_results = [Some example_result], pexe_abort_reason = None\<rparr> \<and>
     sched (workers e) = sched example_final \<and> length (past e) = 19 \<and> set (past e) = {example_one_init, example_one_memory}"
proof -
  have read: "reads_of example_one_memory 0 = [(201, [OriginStorage])]"
    "ll_read (last_locations example_one_memory ! 0) = [(201, [OriginStorage])]"
    "validate_location example_one_memory 0 (201, [OriginStorage])"
    "last_locations example_one_memory \<noteq> []" "index_mutex (last_locations example_one_memory) 0 = Some (last_locations example_one_memory ! 0)"
    by (simp_all add: example_one_memory_def validate_location_def bt_below_def)
  show ?thesis
    by (simp add: example_one_start_def engine_init_def example_one_build example_one_txs run_engine_simps example_one_exec
        reserve_results_def all_exited_def example_final_def read [unfolded index_mutex_def])
qed

lemma example_one_started: "engine_start example_one_vm example_one_start"
proof -
  have "fresh_memory (chain_build_mv_memory (vm_chain example_one_vm) :: unit block_env \<Rightarrow> tx_env list \<Rightarrow> nat bytecode mv_memory)"
    using ethereum_memory.fresh_memory_axioms by (simp add: example_one_vm_def vm_new_def pevm_ethereum_def)
  then show ?thesis
    unfolding engine_start_def example_one_start_def
    by (auto simp: example_one_txs intro!: exI [of _ "1 :: nat"] exI [of _ "\<lparr>execution_results = [], pexe_abort_reason = None\<rparr>"])
qed

lemma take_results_total:
  "(\<And>j. i \<le> j \<Longrightarrow> j < i + k \<Longrightarrow> j < length rs \<and> rs ! j \<noteq> None) \<Longrightarrow>
   \<exists>results slots. take_results rs i k gas = Some (results, slots) \<and> length results = k"
proof (induction k arbitrary: rs i gas)
  case (Suc k)
  obtain r where r: "i < length rs" "rs ! i = Some r" using Suc.prems [of i] by auto
  obtain results slots where
    "take_results (rs[i := None]) (Suc i) k (sat_add gas (rc_cumulative_gas_used (per_receipt r))) = Some (results, slots)"
    "length results = k"
    using Suc.IH [of "Suc i" "rs[i := None]"] Suc.prems by fastforce
  with r show ?case by (simp add: Let_def)
qed simp

section \<open>The end of a run\<close>

lemma engine_exited_valid:
  assumes "engine_start vm e0" "bitflags_contains c" "(engine_step c vm)\<^sup>*\<^sup>* e0 e"
    and "all_exited (workers e)" "pexe_abort_reason (outcome e) = None" "i < length (vm_txs vm)"
  shows "st (sched (workers e)) i = Validated \<and> validate_read_locations (memory e) i = Some True"
proof -
  note ok = engine_reachable [OF assms(1-3), unfolded engine_ok_def]
  have inv: "engine_inv c e" and n: "i < block_size (sched (workers e))" using ok assms(6) by simp_all
  have nr: "\<not> abort_reason (workers e)" using ok assms(5) by (simp add: outcome_inv_def)
  have w: "workers_inv (workers e)" using inv by (simp add: engine_inv_def)
  note ex = exited_validated [OF w assms(4) nr]
  have v: "st (sched (workers e)) i = Validated" by (rule ex(3) [OF n])
  have "\<not> awaited c e i r" for r
    using assms(4) nth_mem by (fastforce simp: awaited_def all_exited_def)
  moreover have "reads_inv c e" using inv ex(1) by (simp add: engine_inv_def)
  ultimately have "\<forall>r \<in> set (reads_of (memory e) i). validate_location (memory e) i r"
    using v n ex(2) unfolding reads_inv_def has_run_def drained_def by fastforce
  moreover have "i < length (last_locations (memory e))" using inv n by (simp add: engine_inv_def memory_ok_def)
  ultimately show ?thesis using v by (simp add: validate_read_locations_def list_all_iff)
qed

section \<open>Properties\<close>

text \<open>
  Property C3. No invalid read survives. In every interleaving of the worker threads with the virtual
  machine and the shared memory, when all threads have left and no abort reason is set, every
  transaction of the block is validated, and every read it recorded holds in the final memory: the
  memory is one that validation accepts for all transactions at once.
\<close>

theorem engine_finishes_valid:
  assumes "engine_start vm e0" "bitflags_contains c" "(engine_step c vm)\<^sup>*\<^sup>* e0 e"
    and "all_exited (workers e)" "pexe_abort_reason (outcome e) = None" "i < length (vm_txs vm)"
  shows "st (sched (workers e)) i = Validated \<and> validate_read_locations (memory e) i = Some True"
  by (rule engine_exited_valid [OF assms])

theorem engine_finishes_valid_witness:
  "\<exists>e. (engine_step (\<lambda>a b. a AND b = b) example_one_vm)\<^sup>*\<^sup>* example_one_start e \<and> all_exited (workers e) \<and>
     reads_of (memory e) 0 = [(201, [OriginStorage])] \<and>
     st (sched (workers e)) 0 = Validated \<and> validate_read_locations (memory e) 0 = Some True"
proof -
  obtain e where run: "(engine_step (\<lambda>a b. a AND b = b) example_one_vm)\<^sup>*\<^sup>* example_one_start e" "all_exited (workers e)"
    and out: "pexe_abort_reason (outcome e) = None" and m: "memory e = example_one_memory"
    using example_one_run run_engine_run by fastforce
  have "0 < length (vm_txs example_one_vm)" by (simp add: example_one_txs)
  note valid = engine_finishes_valid [OF example_one_started bitflags_exists run out this]
  have "reads_of (memory e) 0 = [(201, [OriginStorage])]" by (simp add: m example_one_memory_def)
  with run valid show ?thesis by blast
qed

text \<open>
  The parallel path never takes a result that is missing: when all threads have left
  without an abort reason, collecting the results of the block does not panic and gives one per
  transaction.
\<close>

theorem engine_results_complete:
  assumes "engine_start vm e0" "bitflags_contains c" "(engine_step c vm)\<^sup>*\<^sup>* e0 e"
    and "all_exited (workers e)" "pexe_abort_reason (outcome e) = None"
  shows "\<exists>results slots. take_results (execution_results (outcome e)) 0 (length (vm_txs vm)) 0 = Some (results, slots) \<and>
    length results = length (vm_txs vm)"
proof -
  note ok = engine_reachable [OF assms(1-3), unfolded engine_ok_def]
  have n: "block_size (sched (workers e)) = length (vm_txs vm)" and out: "outcome_inv e" using ok by simp_all
  have w: "workers_inv (workers e)" using ok unfolding engine_inv_def by blast
  have nr: "\<not> abort_reason (workers e)" using out assms(5) by (simp add: outcome_inv_def)
  note ex = exited_validated [OF w assms(4) nr]
  have slots: "i < length (execution_results (outcome e)) \<and> execution_results (outcome e) ! i \<noteq> None"
    if "i < length (vm_txs vm)" for i
    using out ex(3) [of i] that unfolding outcome_inv_def n has_run_def by simp
  show ?thesis by (rule take_results_total) (use slots in simp)
qed

theorem engine_results_complete_witness:
  "\<exists>e results slots. (engine_step (\<lambda>a b. a AND b = b) example_one_vm)\<^sup>*\<^sup>* example_one_start e \<and>
     take_results (execution_results (outcome e)) 0 1 0 = Some (results, slots) \<and> length results = 1"
proof -
  obtain e where run: "(engine_step (\<lambda>a b. a AND b = b) example_one_vm)\<^sup>*\<^sup>* example_one_start e" "all_exited (workers e)"
    and out: "pexe_abort_reason (outcome e) = None"
    using example_one_run run_engine_run by fastforce
  from engine_results_complete [OF example_one_started bitflags_exists run out] run show ?thesis
    by (auto simp: example_one_txs)
qed

end
