(* ===== verification/Engine_History.thy ===== *)
theory Engine_History
  imports Engine_Validation
begin

text \<open>
  What the memories of a run have in common: a version is recorded once, codes are never taken back,
  and what the memory and the results hold of a transaction comes from one of its executions.
\<close>

section \<open>Codes\<close>

text \<open>A code hash in the memory has its code in the table of new codes.\<close>

definition codes_backed :: "'code mv_memory \<Rightarrow> bool" where
  "codes_backed m \<longleftrightarrow> (\<forall>l j k h. entry_at m l j = Some (Data k (ValCodeHash h)) \<longrightarrow> new_bytecodes m h \<noteq> None)"

lemma touched_writes_backed:
  assumes "touched_writes vm db codes a acct = Some (ws, codes')" "(l, ValCodeHash h) \<in> set ws"
  shows "codes' h \<noteq> None"
  using assms
  by (auto simp: touched_writes_def Let_def Option.bind_eq_Some_conv split: if_splits option.splits)

lemma account_writes_backed:
  assumes "account_writes vm db codes accts = Some (ws, codes')" "(l, ValCodeHash h) \<in> set ws"
  shows "codes' h \<noteq> None"
  using assms
proof (induction accts arbitrary: codes ws)
  case (Cons x accts)
  obtain a acct where x: "x = (a, acct)" by fastforce
  show ?case
  proof (cases "is_selfdestructed acct")
    case True
    with Cons x show ?thesis by (auto simp: Option.bind_eq_Some_conv)
  next
    case False
    then obtain ws1 codes1 ws2 where
      first: "(if is_touched acct then touched_writes vm db codes a acct else Some ([], codes)) = Some (ws1, codes1)"
      and rest: "account_writes vm db codes1 accts = Some (ws2, codes')"
      and ws: "ws = ws1 @ map (\<lambda>(slot, v). (vm_hash vm (LocStorage a slot), ValStorage v)) (changed_storage_slots acct) @ ws2"
      using Cons.prems(1) x by (auto simp: Option.bind_eq_Some_conv)
    have "codes1 \<subseteq>\<^sub>m codes'" using account_writes_codes [OF rest] by blast
    moreover have "(l, ValCodeHash h) \<in> set ws1 \<Longrightarrow> codes1 h \<noteq> None"
      using first touched_writes_backed [of vm db codes a acct ws1 codes1] by (auto split: if_splits)
    ultimately show ?thesis
      using Cons.prems(2) Cons.IH [OF rest] unfolding ws by (auto simp: map_le_def dom_def)
  qed
qed simp

lemma pay_reward_backed:
  "pay_reward ws r = Inr ws' \<Longrightarrow> (l, ValCodeHash h) \<in> set ws' \<Longrightarrow> (l, ValCodeHash h) \<in> set ws"
proof (induction ws r arbitrary: ws' rule: pay_reward.induct)
  case (2 l' v ws recipient amount)
  then show ?case by (auto simp: and_then_Inr_iff split: if_splits memory_value.splits)
qed simp

lemma pay_rewards_backed:
  "pay_rewards ws rs = Inr ws' \<Longrightarrow> (l, ValCodeHash h) \<in> set ws' \<Longrightarrow> (l, ValCodeHash h) \<in> set ws"
  by (induction ws rs rule: pay_rewards.induct) (auto simp: and_then_Inr_iff dest: pay_reward_backed)

lemma vm_writes_backed:
  assumes "vm_writes vm db res codes = Some (Inr ws, codes')" "(l, ValCodeHash h) \<in> set ws"
  shows "codes' h \<noteq> None"
proof -
  obtain ws0 where w: "account_writes vm db codes (rs_state res) = Some (ws0, codes')"
    and r: "apply_rewards vm (db_tx db) (ucast (rs_gas_used res)) (rs_l1_cost res) ws0 = Some (Inr ws)"
    using assms(1) by (auto simp: vm_writes_def Option.bind_eq_Some_conv)
  have "\<exists>rs. pay_rewards ws0 rs = Inr ws"
    using r by (auto simp: apply_rewards_def Let_def Option.bind_eq_Some_conv simp del: pay_rewards.simps
        split: reward_policy.splits if_splits)
  then have "(l, ValCodeHash h) \<in> set ws0" using pay_rewards_backed assms(2) by blast
  then show ?thesis using account_writes_backed [OF w] by blast
qed

lemma vm_writes_grow: "vm_writes vm db res codes = Some (w, codes') \<Longrightarrow> codes \<subseteq>\<^sub>m codes'"
  using account_writes_codes by (fastforce simp: vm_writes_def Option.bind_eq_Some_conv)

section \<open>One execution\<close>

text \<open>What an execution, successful or not, does to the memory.\<close>

lemma vm_execute_error_codes:
  assumes "vm_execute vm ms m v = Some (Inl e, m')"
  shows "new_bytecodes m \<subseteq>\<^sub>m new_bytecodes m'"
proof -
  obtain a where a: "vm_attempt vm ms (tx_idx v) = Some a"
    using assms by (auto simp: vm_execute_def Option.bind_eq_Some_conv)
  show ?thesis
  proof (cases a)
    case (Inl e')
    then show ?thesis using assms a by (simp add: vm_execute_def)
  next
    case (Inr x)
    obtain w codes where w: "vm_writes vm (fst x) (snd x) (new_bytecodes m) = Some (w, codes)"
      using assms a Inr by (auto simp: vm_execute_def Option.bind_eq_Some_conv split: prod.splits)
    show ?thesis
    proof (cases w)
      case (Inl e')
      then have "m' = m\<lparr>new_bytecodes := codes\<rparr>"
        using assms a Inr w \<open>a = Inr x\<close> by (auto simp: vm_execute_def split: prod.splits)
      then show ?thesis using vm_writes_grow [OF w] by simp
    next
      case (Inr ws)
      then show ?thesis
        using assms a \<open>a = Inr x\<close> w by (auto simp: vm_execute_def Option.bind_eq_Some_conv split: prod.splits)
    qed
  qed
qed

text \<open>
  The entries of the version become the new values; an old entry stays where the location was never
  written, else it goes.
\<close>

lemma vm_execute_entries:
  assumes ex: "vm_execute vm ms m v = Some (Inr (r, flags), m')" and ok: "mv_ok m"
  obtains db res ws where "vm_attempt vm ms (tx_idx v) = Some (Inr (db, res))"
    "vm_writes vm db res (new_bytecodes m) = Some (Inr ws, new_bytecodes m')"
    "result_from_revm (vm_revm vm) (chain_eip_161 (vm_chain vm) (vm_spec_id vm)) res = Some r"
    "mv_ok m'" "length (last_locations m') = length (last_locations m)" "reads_of m' (tx_idx v) = db_read_set db"
    "\<And>j. j \<noteq> tx_idx v \<Longrightarrow> last_locations m' ! j = last_locations m ! j"
    "\<And>l j. entry_at m' l j =
       (if j \<noteq> tx_idx v then entry_at m l j
        else case map_of (rev ws) l of
               Some x \<Rightarrow> Some (Data (tx_incarnation v) x)
             | None \<Rightarrow> if l \<in> writes_of m j then None else entry_at m l j)"
proof -
  obtain db res ws codes mc new where a: "vm_attempt vm ms (tx_idx v) = Some (Inr (db, res))"
    and w: "vm_writes vm db res (new_bytecodes m) = Some (Inr ws, codes)"
    and lazy: "note_lazy db (m\<lparr>new_bytecodes := codes\<rparr>) = Some mc"
    and rec: "mv_record mc v (db_read_set db) ws = Some (m', new)"
    and res: "result_from_revm (vm_revm vm) (chain_eip_161 (vm_chain vm) (vm_spec_id vm)) res = Some r"
    using vm_execute_InrE [OF ex] by metis
  note lz = note_lazy_simps [OF lazy]
  have mc: "mv_ok mc" "last_locations mc = last_locations m" "entry_at mc = entry_at m" "new_bytecodes mc = codes"
    using lz ok by (simp_all add: new_bytecodes_update)
  note raw = mv_record_raw [OF mc(1) rec] and loc = mv_record_locations [OF mc(1) rec]
  show thesis
  proof (rule that [OF a _ res mv_record_ok [OF mc(1) rec]])
    show "vm_writes vm db res (new_bytecodes m) = Some (Inr ws, new_bytecodes m')" using w raw(7) mc(4) by simp
    show "entry_at m' l j =
       (if j \<noteq> tx_idx v then entry_at m l j
        else case map_of (rev ws) l of
               Some x \<Rightarrow> Some (Data (tx_incarnation v) x)
             | None \<Rightarrow> if l \<in> writes_of m j then None else entry_at m l j)" for l j
      using raw(5) [of l j] unfolding mc(2,3) .
  qed (use loc mc in simp_all)
qed

lemma vm_execute_others:
  assumes ex: "vm_execute vm ms m v = Some (Inr (r, flags), m')" and ok: "mv_ok m" and j: "j \<noteq> tx_idx v"
  shows "last_locations m' ! j = last_locations m ! j" "entry_at m' l j = entry_at m l j"
  by (rule vm_execute_entries [OF ex ok], use j in simp)+

lemma written_iff: "map_of (rev ws) l = None \<longleftrightarrow> l \<notin> written ws"
  by (simp add: map_of_eq_None_iff written_def)

lemma vm_execute_data:
  assumes ex: "vm_execute vm ms m v = Some (Inr (r, flags), m')" and ok: "mv_ok m"
    and d: "entry_at m' l j = Some (Data k x)"
  shows "j \<noteq> tx_idx v \<and> entry_at m l j = Some (Data k x) \<or> j = tx_idx v \<and> k = tx_incarnation v"
proof -
  obtain ws where e: "\<And>l j. entry_at m' l j =
       (if j \<noteq> tx_idx v then entry_at m l j
        else case map_of (rev ws) l of
               Some x \<Rightarrow> Some (Data (tx_incarnation v) x)
             | None \<Rightarrow> if l \<in> writes_of m j then None else entry_at m l j)"
    using vm_execute_entries [OF ex ok] by metis
  show ?thesis
    using d mv_okD(5) [OF ok, of l j k x] by (auto simp: e split: if_splits option.splits)
qed

lemma vm_execute_codes:
  assumes ex: "vm_execute vm ms m v = Some (Inr (r, flags), m')" and ok: "mv_ok m"
  shows "new_bytecodes m \<subseteq>\<^sub>m new_bytecodes m'" "codes_backed m \<Longrightarrow> codes_backed m'"
proof -
  obtain db res ws where w: "vm_writes vm db res (new_bytecodes m) = Some (Inr ws, new_bytecodes m')"
    and e: "\<And>l j. entry_at m' l j =
       (if j \<noteq> tx_idx v then entry_at m l j
        else case map_of (rev ws) l of
               Some x \<Rightarrow> Some (Data (tx_incarnation v) x)
             | None \<Rightarrow> if l \<in> writes_of m j then None else entry_at m l j)"
    using vm_execute_entries [OF ex ok] by metis
  show grow: "new_bytecodes m \<subseteq>\<^sub>m new_bytecodes m'" by (rule vm_writes_grow [OF w])
  show "codes_backed m'" if backed: "codes_backed m"
  proof -
    have "new_bytecodes m' h \<noteq> None" if "entry_at m' l j = Some (Data k (ValCodeHash h))" for l j k h
    proof (cases "entry_at m l j = Some (Data k (ValCodeHash h))")
      case True
      then have "new_bytecodes m h \<noteq> None" using backed unfolding codes_backed_def by blast
      then show ?thesis using grow by (auto simp: map_le_def dom_def)
    next
      case False
      then have "map_of (rev ws) l = Some (ValCodeHash h)" using that by (auto simp: e split: if_splits option.splits)
      then have "(l, ValCodeHash h) \<in> set ws" by (auto dest: map_of_SomeD)
      then show ?thesis by (rule vm_writes_backed [OF w])
    qed
    then show ?thesis unfolding codes_backed_def by blast
  qed
qed

section \<open>The steps of a thread, once more\<close>

text \<open>Four kinds are enough for the history: a step of the scheduler, and three that leave it alone.\<close>

lemma local_kind_split:
  assumes "local_kind c vm ms L L'"
  obtains (scheduled) x reason where "thread_step c x (tl_sched L) (tl_reason L) (tl_pc L) = Some (tl_sched L', reason, tl_pc L')"
      "answers x (tl_pc L) (tl_stage L)" "admissible x (tl_pc L)" "\<And>v. tl_pc L = AbortSucceeded v \<Longrightarrow> tl_stage L = Converted"
      "data (tl_memory L') = data (tl_memory L)" "last_locations (tl_memory L') = last_locations (tl_memory L)"
      "new_bytecodes (tl_memory L) \<subseteq>\<^sub>m new_bytecodes (tl_memory L')"
      "tl_stage L' \<noteq> Converted" "\<And>r flags. tl_stage L' \<noteq> Recorded r flags"
      "execution_results (tl_outcome L') =
         (case (tl_pc L, tl_stage L) of (HasTask (Execution v), Recorded r flags) \<Rightarrow> (execution_results (tl_outcome L))[tx_idx v := Some r]
          | _ \<Rightarrow> execution_results (tl_outcome L))"
    | (recorded) v r flags m where "tl_pc L = HasTask (Execution v)" "\<forall>r flags. tl_stage L \<noteq> Recorded r flags"
      "vm_execute vm ms (tl_memory L) v = Some (Inr (r, flags), m)" "L' = L\<lparr>tl_memory := m, tl_stage := Recorded r flags\<rparr>"
    | (looking) v \<sigma> where "tl_pc L = HasTask (Validation v)" "L' = L\<lparr>tl_stage := \<sigma>\<rparr>"
    | (converted) v m where "tl_pc L = AbortSucceeded v" "tl_stage L \<noteq> Converted"
      "convert_writes_to_estimates (tl_memory L) (tx_idx v) = Some m" "L' = L\<lparr>tl_memory := m, tl_stage := Converted\<rparr>"
  using assms
proof (cases rule: local_kind.cases)
  case (recorded v r flags m)
  then show ?thesis using that(2) by blast
next
  case (finished v r flags s reason p)
  then show ?thesis using scheduled [of "ExecOk flags" reason] by simp
next
  case (execution_error v e m s reason p)
  obtain codes where m: "m = (tl_memory L)\<lparr>new_bytecodes := codes\<rparr>"
    using vm_execute_error_memory [OF execution_error(4)] .
  have adm: "admissible (choice_of_error e) (tl_pc L)"
    using execution_error(2,4) vm_execute_blocks [of vm ms "tl_memory L" v] by (cases e) auto
  have ans: "answers (choice_of_error e) (tl_pc L) (tl_stage L)"
    using execution_error(2,3) by (cases e) (auto split: stage.splits)
  have st: "stage_of_error e \<noteq> Converted" "stage_of_error e \<noteq> Recorded r flags" for r flags by (cases e; simp)+
  show ?thesis
    by (rule scheduled [of "choice_of_error e" reason])
      (use execution_error adm ans st m vm_execute_error_codes [OF execution_error(4)] in \<open>auto split: stage.splits\<close>)
next
  case (started v)
  then show ?thesis using looking by blast
next
  case (checked v r rs)
  then show ?thesis using looking by blast
next
  case (validated v b s reason p)
  then show ?thesis using scheduled [of "ReadsValid b" reason] by (cases b) simp_all
next
  case (converted v m)
  then show ?thesis using that(4) by blast
next
  case (other outcome' s reason p)
  have a: "admissible ExecRetry (tl_pc L)" "answers ExecRetry (tl_pc L) (tl_stage L)"
    using other(2) by (cases "tl_pc L"; simp)+
  have r: "execution_results outcome' = execution_results (tl_outcome L)" using other(4) by auto
  have "(case (tl_pc L, tl_stage L) of (HasTask (Execution v), Recorded r flags) \<Rightarrow> (execution_results (tl_outcome L))[tx_idx v := Some r]
          | _ \<Rightarrow> execution_results (tl_outcome L)) = execution_results (tl_outcome L)"
    using other(2) by (cases "tl_pc L") auto
  then show ?thesis using other a r scheduled [of ExecRetry reason] by simp
qed

section \<open>The history of a run\<close>

text \<open>A transaction whose present incarnation has recorded nothing.\<close>

definition unrecorded :: "'eof engine \<Rightarrow> tx_idx_t \<Rightarrow> bool" where
  "unrecorded e j \<longleftrightarrow> st (sched (workers e)) j = ReadyToExecute \<or> st (sched (workers e)) j = Executing \<and> \<not> held e j"

definition versions_below :: "'eof engine \<Rightarrow> 'eof bytecode mv_memory \<Rightarrow> bool" where
  "versions_below e m \<longleftrightarrow> (\<forall>l j k x. entry_at m l j = Some (Data k x) \<longrightarrow>
     k \<le> inc (sched (workers e)) j \<and> (unrecorded e j \<longrightarrow> k < inc (sched (workers e)) j))"

definition same_versions :: "'code mv_memory \<Rightarrow> 'code mv_memory \<Rightarrow> bool" where
  "same_versions m m' \<longleftrightarrow>
     (\<forall>l j k x y. entry_at m l j = Some (Data k x) \<longrightarrow> entry_at m' l j = Some (Data k y) \<longrightarrow> x = y)"

definition history_inv :: "'eof engine \<Rightarrow> bool" where
  "history_inv e \<longleftrightarrow> past e \<noteq> [] \<and> last (past e) = memory e \<and>
     (\<forall>m \<in> set (past e). memory_ok (sched (workers e)) m \<and> codes_backed m) \<and>
     sorted_wrt (\<lambda>m m'. new_bytecodes m \<subseteq>\<^sub>m new_bytecodes m') (past e)"

definition versions_inv :: "'eof engine \<Rightarrow> bool" where
  "versions_inv e \<longleftrightarrow> (\<forall>j < block_size (sched (workers e)). inc (sched (workers e)) j < length (past e)) \<and>
     (\<forall>m \<in> set (past e). versions_below e m) \<and> (\<forall>m \<in> set (past e). \<forall>m' \<in> set (past e). same_versions m m')"

text \<open>What a transaction recorded, and its result, come from one execution on memories of the run.\<close>

definition produced :: "('blob, 'eof) vm \<Rightarrow> 'eof engine \<Rightarrow> tx_version \<Rightarrow> pexe_tx_execution_result \<Rightarrow> bool" where
  "produced vm e v r \<longleftrightarrow> (\<exists>ms m0 flags m1. vm_execute vm ms m0 v = Some (Inr (r, flags), m1) \<and> observed (past e) ms \<and> mv_ok m0 \<and>
     last_locations (memory e) ! tx_idx v = last_locations m1 ! tx_idx v \<and>
     (\<forall>l. entry_at (memory e) l (tx_idx v) = entry_at m1 l (tx_idx v)) \<and> new_bytecodes m1 \<subseteq>\<^sub>m new_bytecodes (memory e))"

definition provenance_inv :: "('blob, 'eof) vm \<Rightarrow> 'eof engine \<Rightarrow> bool" where
  "provenance_inv vm e \<longleftrightarrow>
     (\<forall>i < block_size (sched (workers e)). has_run (sched (workers e)) i \<longrightarrow>
        (\<exists>r. execution_results (outcome e) ! i = Some r \<and>
           produced vm e \<lparr>tx_idx = i, tx_incarnation = inc (sched (workers e)) i\<rparr> r)) \<and>
     (\<forall>k < length (pcs (workers e)). \<forall>v r flags.
        pcs (workers e) ! k = HasTask (Execution v) \<longrightarrow> stages e ! k = Recorded r flags \<longrightarrow> produced vm e v r)"

section \<open>Statuses and incarnations\<close>

lemma status_change_inc:
  "status_change x s p s' p' \<Longrightarrow> inc s' j = inc s j \<or> inc s' j = usize_add (inc s j) 1"
  by (erule status_change.cases) (auto split: if_splits)

lemma status_change_ready:
  "status_change x s p s' p' \<Longrightarrow> st s' j = ReadyToExecute \<Longrightarrow>
    st s j = ReadyToExecute \<and> inc s' j = inc s j \<or> inc s' j = usize_add (inc s j) 1"
  by (erule status_change.cases) (auto split: if_splits)

lemma status_change_executing:
  "status_change x s p s' p' \<Longrightarrow> st s' j = Executing \<Longrightarrow>
    (st s j = ReadyToExecute \<or> st s j = Executing) \<and> inc s' j = inc s j"
  by (erule status_change.cases) (auto split: if_splits)

lemma status_change_run:
  "status_change x s p s' p' \<Longrightarrow> has_run s j \<Longrightarrow> has_run s' j \<Longrightarrow> inc s' j = inc s j"
  by (erule status_change.cases) (auto simp: has_run_def split: if_splits)

text \<open>A transaction with nothing recorded is in a new incarnation, or had nothing recorded before.\<close>

lemma unrecorded_step:
  assumes inv: "engine_inv c e" and k: "k < length (pcs (workers e))" and c: "bitflags_contains c"
    and kind: "local_kind c vm ms (local_of e k) L" and un: "unrecorded (put_local e k L) j"
  shows "inc (tl_sched L) j = usize_add (inc (sched (workers e)) j) 1 \<or>
    unrecorded e j \<and> inc (tl_sched L) j = inc (sched (workers e)) j"
proof -
  note loc = engine_local [OF inv k]
  have len: "length (stages e) = length (pcs (workers e))" using inv by (simp add: engine_inv_def)
  let ?s = "sched (workers e)" and ?p = "pcs (workers e) ! k"
  have held: "held (put_local e k L) j"
    if "held e j" "holds_data ?p (stages e ! k) j \<Longrightarrow> holds_data (tl_pc L) (tl_stage L) j"
    using that ex_thread_update [where Q = "\<lambda>p \<sigma>. holds_data p \<sigma> j" and ps = "pcs (workers e)" and \<sigma>s = "stages e" and k = k, OF _ _ len]
      ex_thread_new [where Q = "\<lambda>p \<sigma>. holds_data p \<sigma> j", OF _ k len]
    unfolding held_def put_local_simps by blast
  have keep: ?thesis if "tl_sched L = ?s" "st ?s j = Executing \<Longrightarrow> holds_data ?p (stages e ! k) j \<Longrightarrow> holds_data (tl_pc L) (tl_stage L) j"
    using un that held unfolding unrecorded_def put_local_simps by auto
  from kind show ?thesis
  proof (cases rule: local_kind_split)
    case (scheduled x reason)
    have ch: "status_change x ?s ?p (tl_sched L) (tl_pc L)"
      using thread_step_change [OF loc(1-3) c, of x _ "tl_sched L" reason "tl_pc L"] scheduled(1,3) by simp
    show ?thesis
    proof (cases "st (tl_sched L) j = ReadyToExecute")
      case True
      then show ?thesis using status_change_ready [OF ch] by (auto simp: unrecorded_def)
    next
      case False
      then have ex: "st (tl_sched L) j = Executing" "\<not> held (put_local e k L) j" using un by (auto simp: unrecorded_def)
      have "holds_data ?p (stages e ! k) j \<Longrightarrow> holds_data (tl_pc L) Fresh j"
        using clean_thread_step [OF loc(1-3) c, of x _ "tl_sched L" reason "tl_pc L" "stages e ! k" j] scheduled(1-4) ex(1)
        by (auto simp: has_run_def)
      then have "holds_data ?p (stages e ! k) j \<Longrightarrow> holds_data (tl_pc L) (tl_stage L) j"
        using scheduled(8) by (cases "(tl_pc L, Fresh, j)" rule: holds_data.cases) auto
      then have "\<not> held e j" using held ex(2) by blast
      then show ?thesis using status_change_executing [OF ch ex(1)] by (auto simp: unrecorded_def)
    qed
  next
    case (recorded v r flags m)
    then show ?thesis by (intro keep) auto
  next
    case (looking v \<sigma>)
    then show ?thesis by (intro keep) auto
  next
    case (converted v m)
    have "st ?s (tx_idx v) = Aborting" using loc(3) [of "ClaimAbort (tx_idx v)"] converted(1) by simp
    then show ?thesis using converted by (intro keep) auto
  qed
qed

lemma inc_step:
  assumes inv: "engine_inv c e" and k: "k < length (pcs (workers e))" and c: "bitflags_contains c"
    and kind: "local_kind c vm ms (local_of e k) L"
  shows "inc (tl_sched L) j = inc (sched (workers e)) j \<or> inc (tl_sched L) j = usize_add (inc (sched (workers e)) j) 1"
  using kind
proof (cases rule: local_kind_split)
  case (scheduled x reason)
  then show ?thesis
    using status_change_inc [OF thread_step_change [OF engine_local(1-3) [OF inv k] c, of x _ "tl_sched L" reason "tl_pc L"]]
    by simp
qed simp_all

section \<open>The memory grows\<close>

text \<open>What a step does to the memory: codes stay, and values come from the old memory or from the version executed.\<close>

lemma memory_step:
  assumes kind: "local_kind c vm ms L L'" and ok: "mv_ok (tl_memory L)"
  shows "new_bytecodes (tl_memory L) \<subseteq>\<^sub>m new_bytecodes (tl_memory L')"
    and "codes_backed (tl_memory L) \<Longrightarrow> codes_backed (tl_memory L')"
    and "entry_at (tl_memory L') l j = Some (Data n x) \<Longrightarrow> entry_at (tl_memory L) l j = Some (Data n x) \<or>
      (\<exists>v. tl_pc L = HasTask (Execution v) \<and> (\<forall>r flags. tl_stage L \<noteq> Recorded r flags) \<and> j = tx_idx v \<and> n = tx_incarnation v \<and>
         tl_sched L' = tl_sched L \<and> holds_data (tl_pc L') (tl_stage L') j)"
    and "(\<And>d. pc_claim (tl_pc L) = Some d \<Longrightarrow> claim_idx d \<noteq> i) \<Longrightarrow>
      last_locations (tl_memory L') ! i = last_locations (tl_memory L) ! i \<and> entry_at (tl_memory L') l i = entry_at (tl_memory L) l i"
proof -
  have "new_bytecodes (tl_memory L) \<subseteq>\<^sub>m new_bytecodes (tl_memory L') \<and>
    (codes_backed (tl_memory L) \<longrightarrow> codes_backed (tl_memory L')) \<and>
    (\<forall>l j n x. entry_at (tl_memory L') l j = Some (Data n x) \<longrightarrow> entry_at (tl_memory L) l j = Some (Data n x) \<or>
      (\<exists>v. tl_pc L = HasTask (Execution v) \<and> (\<forall>r flags. tl_stage L \<noteq> Recorded r flags) \<and> j = tx_idx v \<and> n = tx_incarnation v \<and>
         tl_sched L' = tl_sched L \<and> holds_data (tl_pc L') (tl_stage L') j)) \<and>
    (\<forall>i l. (\<forall>d. pc_claim (tl_pc L) = Some d \<longrightarrow> claim_idx d \<noteq> i) \<longrightarrow>
      last_locations (tl_memory L') ! i = last_locations (tl_memory L) ! i \<and> entry_at (tl_memory L') l i = entry_at (tl_memory L) l i)"
    using kind
  proof (cases rule: local_kind_split)
    case (scheduled x reason)
    note same = mv_same [OF scheduled(5,6)]
    have "codes_backed (tl_memory L) \<Longrightarrow> codes_backed (tl_memory L')"
      using scheduled(7) unfolding codes_backed_def same(1) by (metis domIff map_le_implies_dom_le subset_iff)
    then show ?thesis using scheduled(6,7) same(1) by simp
  next
    case (recorded v r flags m)
    note ex = recorded(3) [simplified]
    have "last_locations m ! i = last_locations (tl_memory L) ! i \<and> entry_at m l i = entry_at (tl_memory L) l i"
      if "i \<noteq> tx_idx v" for i l
      using vm_execute_others [OF ex ok that] by simp
    moreover have "holds_data (tl_pc L') (tl_stage L') (tx_idx v)" "tl_sched L' = tl_sched L" "tl_memory L' = m"
      using recorded(1) by (simp_all add: recorded(4))
    ultimately show ?thesis
      using recorded(1,2) vm_execute_codes [OF ex ok] vm_execute_data [OF ex ok]
      by (intro conjI allI impI) (metis, blast, metis, metis claim_idx.simps(1) pc_claim.simps(1), metis claim_idx.simps(1) pc_claim.simps(1))
  next
    case (looking v \<sigma>)
    then show ?thesis by simp
  next
    case (converted v m)
    note raw = convert_raw [OF ok converted(3)]
    have "codes_backed (tl_memory L) \<Longrightarrow> codes_backed m"
      unfolding codes_backed_def raw(4,6) by (auto split: if_splits)
    then show ?thesis using converted(1,4) raw by (auto split: if_splits)
  qed
  then show "new_bytecodes (tl_memory L) \<subseteq>\<^sub>m new_bytecodes (tl_memory L')"
    "codes_backed (tl_memory L) \<Longrightarrow> codes_backed (tl_memory L')"
    "entry_at (tl_memory L') l j = Some (Data n x) \<Longrightarrow> entry_at (tl_memory L) l j = Some (Data n x) \<or>
      (\<exists>v. tl_pc L = HasTask (Execution v) \<and> (\<forall>r flags. tl_stage L \<noteq> Recorded r flags) \<and> j = tx_idx v \<and> n = tx_incarnation v \<and>
         tl_sched L' = tl_sched L \<and> holds_data (tl_pc L') (tl_stage L') j)"
    "(\<And>d. pc_claim (tl_pc L) = Some d \<Longrightarrow> claim_idx d \<noteq> i) \<Longrightarrow>
      last_locations (tl_memory L') ! i = last_locations (tl_memory L) ! i \<and> entry_at (tl_memory L') l i = entry_at (tl_memory L) l i"
    by blast+
qed

lemma past_ok: "history_inv e \<Longrightarrow> m \<in> set (past e) \<Longrightarrow> mv_ok m" "history_inv e \<Longrightarrow> memory e \<in> set (past e)"
  by (auto simp: history_inv_def memory_ok_def last_in_set) (metis last_in_set)

lemma history_inv_step:
  assumes inv: "engine_inv c e" and k: "k < length (pcs (workers e))" and c: "bitflags_contains c"
    and kind: "local_kind c vm ms (local_of e k) L" and hist: "history_inv e"
  shows "history_inv (put_local e k L)"
proof -
  have m: "memory e \<in> set (past e)" "memory_ok (sched (workers e)) (memory e)" "codes_backed (memory e)"
    using hist past_ok(2) by (auto simp: history_inv_def)
  have ok: "mv_ok (tl_memory (local_of e k))" using m(2) by (simp add: memory_ok_def)
  note step = memory_step [OF kind ok]
  have bs: "memory_ok (tl_sched L) m' = memory_ok (sched (workers e)) m'" for m'
    using local_kind_keeps [OF inv k c kind] by (simp add: memory_ok_def)
  have "memory_ok (sched (workers e)) (tl_memory L)" using memory_ok_kind [OF kind _ c] m(2) by simp
  moreover have "new_bytecodes m' \<subseteq>\<^sub>m new_bytecodes (tl_memory L)" if "m' \<in> set (past e)" for m'
  proof -
    have "past e \<noteq> []" using that by auto
    then have "past e = butlast (past e) @ [memory e]" using hist unfolding history_inv_def by (metis append_butlast_last_id)
    then have "new_bytecodes m' \<subseteq>\<^sub>m new_bytecodes (memory e)"
      using hist that unfolding history_inv_def
      by (metis (no_types, lifting) Un_iff empty_iff insert_iff list.set(1,2) map_le_refl set_append sorted_wrt_append)
    then show ?thesis using step(1) map_le_trans by auto
  qed
  ultimately show ?thesis
    using hist step(2) m(3) by (auto simp: history_inv_def bs sorted_wrt_append)
qed

lemma versions_inv_step:
  assumes inv: "engine_inv c e" and k: "k < length (pcs (workers e))" and c: "bitflags_contains c"
    and kind: "local_kind c vm ms (local_of e k) L" and hist: "history_inv e" and ver: "versions_inv e"
    and small: "length (past e) < 2 ^ 64"
  shows "versions_inv (put_local e k L)"
proof -
  let ?e = "put_local e k L" and ?s = "sched (workers e)"
  note loc = engine_local [OF inv k]
  have bs: "block_size (tl_sched L) = block_size ?s" using local_kind_keeps [OF inv k c kind] by blast
  have M: "memory e \<in> set (past e)" "memory_ok ?s (memory e)" using hist past_ok(2) by (auto simp: history_inv_def)
  have ok: "mv_ok (tl_memory (local_of e k))" using M(2) by (simp add: memory_ok_def)
  have i: "inc (tl_sched L) j = inc ?s j \<or> inc (tl_sched L) j = inc ?s j + 1" "inc ?s j < length (past e)" if "j < block_size ?s" for j
  proof -
    show "inc ?s j < length (past e)" using ver that by (simp add: versions_inv_def)
    then show "inc (tl_sched L) j = inc ?s j \<or> inc (tl_sched L) j = inc ?s j + 1"
      using inc_step [OF inv k c kind, of j] small by (auto simp: usize_add_no_wrap)
  qed
  have old: "versions_below ?e m" if m: "m \<in> set (past e)" for m
  proof -
    have "n \<le> inc (tl_sched L) j \<and> (unrecorded ?e j \<longrightarrow> n < inc (tl_sched L) j)" if d: "entry_at m l j = Some (Data n x)" for l j n x
    proof -
      have mo: "memory_ok ?s m" using hist m by (auto simp: history_inv_def)
      then have j: "j < block_size ?s" using mv_okD(4) [OF _ d] by (auto simp: memory_ok_def)
      have le: "n \<le> inc ?s j" "unrecorded e j \<Longrightarrow> n < inc ?s j"
        using ver m d unfolding versions_inv_def versions_below_def by blast+
      have w: "usize_add (inc ?s j) 1 = inc ?s j + 1" using i(2) [OF j] small by (simp add: usize_add_no_wrap)
      have "unrecorded ?e j \<Longrightarrow> inc (tl_sched L) j = inc ?s j + 1 \<or> unrecorded e j \<and> inc (tl_sched L) j = inc ?s j"
        using unrecorded_step [OF inv k c kind, of j] w by metis
      with le i(1) [OF j] show ?thesis by auto
    qed
    then show ?thesis unfolding versions_below_def put_local_simps by blast
  qed
  text \<open>A value of the new memory is an old one, or the first of its version.\<close>
  have new: "(\<exists>m \<in> set (past e). entry_at m l j = Some (Data n x)) \<or>
      n = inc ?s j \<and> tl_sched L = ?s \<and> held ?e j \<and> st ?s j = Executing \<and> (\<forall>m \<in> set (past e). \<forall>l y. entry_at m l j \<noteq> Some (Data n y))"
    if d: "entry_at (tl_memory L) l j = Some (Data n x)" for l j n x
    using memory_step(3) [OF kind ok d]
  proof (elim disjE exE conjE)
    fix v assume v: "tl_pc (local_of e k) = HasTask (Execution v)" "\<forall>r flags. tl_stage (local_of e k) \<noteq> Recorded r flags"
      "j = tx_idx v" "n = tx_incarnation v" "tl_sched L = tl_sched (local_of e k)" "holds_data (tl_pc L) (tl_stage L) j"
    have cl: "st ?s j = Executing" "inc ?s j = n" using loc(3) [of "ClaimExec v"] v by simp_all
    have "unrecorded e j" using executing_not_held [OF inv k] v cl(1) by (simp add: unrecorded_def)
    then have "entry_at m l y \<noteq> Some (Data n z)" if "m \<in> set (past e)" "y = j" for m l y z
      using ver that cl(2) unfolding versions_inv_def versions_below_def by blast
    moreover have "held ?e j"
      using ex_thread_new [where Q = "\<lambda>p \<sigma>. holds_data p \<sigma> j", OF v(6) k] inv
      unfolding held_def put_local_simps engine_inv_def by blast
    ultimately show ?thesis using cl v(5) by simp
  qed (use M(1) in auto)
  have "versions_below ?e (tl_memory L)"
    unfolding versions_below_def put_local_simps
  proof (intro allI impI)
    fix l j n x assume d: "entry_at (tl_memory L) l j = Some (Data n x)"
    from new [OF d] show "n \<le> inc (tl_sched L) j \<and> (unrecorded ?e j \<longrightarrow> n < inc (tl_sched L) j)"
    proof (elim disjE conjE bexE)
      fix m assume "m \<in> set (past e)" "entry_at m l j = Some (Data n x)"
      then show ?thesis using old unfolding versions_below_def put_local_simps by blast
    qed (simp add: unrecorded_def)
  qed
  moreover have same: "same_versions m m'" if "m \<in> set (past e)" "m' \<in> set (past e)" for m m'
    using ver that by (simp add: versions_inv_def)
  have "same_versions m (tl_memory L) \<and> same_versions (tl_memory L) m" if "m \<in> set (past e)" for m
    using new same that unfolding same_versions_def by metis
  moreover have "same_versions (tl_memory L) (tl_memory L)" by (simp add: same_versions_def)
  moreover have "inc (tl_sched L) j < Suc (length (past e))" if "j < block_size ?s" for j
    using i [OF that] by auto
  ultimately show ?thesis
    using old same unfolding versions_inv_def put_local_simps bs by auto
qed

section \<open>Where results come from\<close>

lemma observed_more: "observed hist ms \<Longrightarrow> observed (hist @ hist') ms"
  unfolding observed_def by (elim exE conjE, rule exI) (auto simp: nth_append intro: trans_less_add1)

lemma produced_kept:
  assumes "produced vm e v r" "last_locations (tl_memory L) ! tx_idx v = last_locations (memory e) ! tx_idx v"
    and "\<And>l. entry_at (tl_memory L) l (tx_idx v) = entry_at (memory e) l (tx_idx v)"
    and "new_bytecodes (memory e) \<subseteq>\<^sub>m new_bytecodes (tl_memory L)"
  shows "produced vm (put_local e k L) v r"
proof -
  obtain ms m0 flags m1 where "vm_execute vm ms m0 v = Some (Inr (r, flags), m1)" "observed (past e) ms" "mv_ok m0"
    "last_locations (memory e) ! tx_idx v = last_locations m1 ! tx_idx v"
    "\<forall>l. entry_at (memory e) l (tx_idx v) = entry_at m1 l (tx_idx v)" "new_bytecodes m1 \<subseteq>\<^sub>m new_bytecodes (memory e)"
    using assms(1) unfolding produced_def by blast
  then show ?thesis
    unfolding produced_def put_local_simps using assms(2-4) observed_more map_le_trans
    by (intro exI [of _ ms] exI [of _ m0] exI [of _ flags] exI [of _ m1]) auto
qed

lemma provenance_inv_step:
  assumes inv: "engine_inv c e" and out: "outcome_inv e" and k: "k < length (pcs (workers e))" and c: "bitflags_contains c"
    and obs: "observed (past e) ms" and kind: "local_kind c vm ms (local_of e k) L"
    and inv': "engine_inv c (put_local e k L)" and hist: "history_inv e" and prov: "provenance_inv vm e"
  shows "provenance_inv vm (put_local e k L)"
proof -
  let ?e = "put_local e k L" and ?s = "sched (workers e)" and ?p = "pcs (workers e) ! k"
  note loc = engine_local [OF inv k]
  have bs: "block_size (tl_sched L) = block_size ?s" using local_kind_keeps [OF inv k c kind] by blast
  have len: "length (stages e) = length (pcs (workers e))" using inv by (simp add: engine_inv_def)
  have M: "memory_ok ?s (memory e)" using loc(4) .
  have ok: "mv_ok (tl_memory (local_of e k))" using M by (simp add: memory_ok_def)
  note mem = memory_step [OF kind ok]
  have kept: "produced vm ?e v r" if "produced vm e v r" "\<And>d. pc_claim ?p = Some d \<Longrightarrow> claim_idx d \<noteq> tx_idx v" for v r
    by (rule produced_kept [OF that(1)]) (use mem(1) mem(4) [of "tx_idx v"] that(2) in auto)
  have running: "pc_claim ?p = Some d \<Longrightarrow> \<not> has_run ?s (claim_idx d)" for d
    using loc(3) [of d] by (cases d) (auto simp: has_run_def)
  have stays: "\<exists>r. execution_results (tl_outcome L) ! i = Some r \<and> produced vm ?e \<lparr>tx_idx = i, tx_incarnation = inc (tl_sched L) i\<rparr> r"
    if i: "i < block_size ?s" "has_run ?s i" "inc (tl_sched L) i = inc ?s i"
      "execution_results (tl_outcome L) ! i = execution_results (outcome e) ! i" for i
  proof -
    obtain r where "execution_results (outcome e) ! i = Some r" "produced vm e \<lparr>tx_idx = i, tx_incarnation = inc ?s i\<rparr> r"
      using prov i(1,2) unfolding provenance_inv_def by blast
    then show ?thesis using kept [of "\<lparr>tx_idx = i, tx_incarnation = inc ?s i\<rparr>" r] running i(2,3,4) by fastforce
  qed
  have finished: "\<exists>r. execution_results (tl_outcome L) ! i = Some r \<and> produced vm ?e \<lparr>tx_idx = i, tx_incarnation = inc (tl_sched L) i\<rparr> r"
    if i: "i < block_size ?s" "has_run (tl_sched L) i" for i
    using kind
  proof (cases rule: local_kind_split)
    case (scheduled x reason)
    have ch: "status_change x ?s ?p (tl_sched L) (tl_pc L)"
      using thread_step_change [OF loc(1-3) c, of x _ "tl_sched L" reason "tl_pc L"] scheduled(1,3) by simp
    show ?thesis
    proof (cases "has_run ?s i")
      case True
      have "execution_results (tl_outcome L) ! i = execution_results (outcome e) ! i"
      proof (cases "\<exists>v r flags. ?p = HasTask (Execution v) \<and> stages e ! k = Recorded r flags")
        case True
        then obtain v r flags where v: "?p = HasTask (Execution v)" "stages e ! k = Recorded r flags" by blast
        then have "tx_idx v \<noteq> i" using running [of "ClaimExec v"] \<open>has_run ?s i\<close> by auto
        then show ?thesis using scheduled(10) v by simp
      next
        case False
        then show ?thesis using scheduled(10) by (auto split: pc.splits task.splits stage.splits)
      qed
      then show ?thesis by (rule stays [OF i(1) True status_change_run [OF ch True i(2)]])
    next
      case False
      then obtain v flags where v: "?p = HasTask (Execution v)" "x = ExecOk flags" "tx_idx v = i"
        using has_run_gained [OF ch _ i(2)] by blast
      then obtain r where r: "stages e ! k = Recorded r flags" using scheduled(2) by (auto split: stage.splits)
      have n: "inc (tl_sched L) i = tx_incarnation v"
        using ch i(2) v loc(3) [of "ClaimExec v"] by (cases rule: status_change.cases) (auto simp: has_run_def split: if_splits)
      have "produced vm e v r" using prov k v(1) r unfolding provenance_inv_def by blast
      then have "produced vm ?e v r"
        by (rule produced_kept) (use scheduled(5-7) mv_same(1) [OF scheduled(5,6)] in auto)
      moreover have "execution_results (tl_outcome L) ! i = Some r"
        using scheduled(10) v r i(1) out by (simp add: outcome_inv_def)
      ultimately show ?thesis using n v(3) by (cases v) auto
    qed
  next
    case (recorded v r flags m)
    then show ?thesis using i stays [of i] by simp
  next
    case (looking v \<sigma>)
    then show ?thesis using i stays [of i] by simp
  next
    case (converted v m)
    then show ?thesis using i stays [of i] by simp
  qed
  have rec: "produced vm ?e v r"
    if l: "l < length (pcs (workers e))" "pcs (workers ?e) ! l = HasTask (Execution v)" "stages ?e ! l = Recorded r flags"
    for l v r flags
  proof (cases "l = k")
    case True
    then have new: "tl_pc L = HasTask (Execution v)" "tl_stage L = Recorded r flags" using l k len by simp_all
    from kind show ?thesis
    proof (cases rule: local_kind_split)
      case (recorded w r' flags' m)
      then have "vm_execute vm ms (memory e) v = Some (Inr (r, flags), tl_memory L)" using new by simp
      then show ?thesis
        unfolding produced_def put_local_simps using observed_more [OF obs] ok by fastforce
    next
      case (scheduled x reason)
      then show ?thesis using new(2) by blast
    qed (use new in simp_all)
  next
    case False
    then have old: "pcs (workers e) ! l = HasTask (Execution v)" "stages e ! l = Recorded r flags" using l by simp_all
    have "claim_idx d \<noteq> tx_idx v" if "pc_claim ?p = Some d" for d
      using claims_unique [OF inv k l(1) that, of "ClaimExec v"] old(1) False by auto
    then show ?thesis using kept prov l(1) old unfolding provenance_inv_def by blast
  qed
  show ?thesis
    unfolding provenance_inv_def using finished rec by (auto simp: bs)
qed

section \<open>Runs\<close>

definition run_ok :: "(u8 \<Rightarrow> u8 \<Rightarrow> bool) \<Rightarrow> ('blob, 'eof) vm \<Rightarrow> 'eof engine \<Rightarrow> bool" where
  "run_ok c vm e \<longleftrightarrow> engine_ok c vm e \<and> history_inv e \<and> provenance_inv vm e \<and> (length (past e) \<le> 2 ^ 64 \<longrightarrow> versions_inv e)"

lemma run_ok_start:
  assumes "engine_start vm e"
  shows "run_ok c vm e"
proof -
  have ok: "engine_ok c vm e" by (rule engine_ok_start [OF assms])
  obtain t p where fm: "fresh_memory (chain_build_mv_memory (vm_chain vm))" and n: "length (vm_txs vm) < 2 ^ 64"
    and t: "0 < t" "pexe_abort_reason p = None" and e: "e = engine_init vm t p"
    using assms by (auto simp: engine_start_def)
  let ?m = "chain_build_mv_memory (vm_chain vm) (vm_block_env vm) (vm_txs vm)" and ?n = "length (vm_txs vm)"
  have data: "entry_at ?m l j \<noteq> Some (Data k x)" for l j k x
    using fresh_memory.fresh_estimates [OF fm] by fastforce
  have "memory_ok (sched (workers e)) ?m" using ok by (simp add: engine_ok_def engine_inv_def e)
  then have "history_inv e" using data by (simp add: history_inv_def e codes_backed_def)
  moreover have "versions_inv e"
    using data by (simp add: versions_inv_def e versions_below_def same_versions_def sched_new_views)
      (simp add: inc_def sched_new_def)
  moreover have "provenance_inv vm e"
    by (simp add: provenance_inv_def e sched_new_views has_run_def)
  ultimately show ?thesis using ok by (simp add: run_ok_def)
qed

lemma run_ok_step:
  assumes ok: "run_ok c vm e" and c: "bitflags_contains c" and step: "engine_step c vm e e'"
  shows "run_ok c vm e'"
proof -
  have ok': "engine_ok c vm e'" by (rule engine_ok_step [OF _ c step]) (use ok in \<open>simp add: run_ok_def\<close>)
  from step obtain k ms L where e': "e' = put_local e k L" and k: "k < length (pcs (workers e))"
    and obs: "observed (past e) ms" and "local_step c vm ms (local_of e k) = Some L"
    by (cases rule: engine_step.cases) auto
  then have kind: "local_kind c vm ms (local_of e k) L" by (intro local_step_kind)
  note parts = ok [unfolded run_ok_def engine_ok_def]
  have inv: "engine_inv c e" "engine_inv c (put_local e k L)" using parts ok' by (simp_all add: engine_ok_def e')
  have "history_inv e'" unfolding e' by (rule history_inv_step [OF inv(1) k c kind]) (use parts in blast)
  moreover have "provenance_inv vm e'"
    unfolding e' by (rule provenance_inv_step [OF inv(1) _ k c obs kind inv(2)]) (use parts in blast)+
  moreover have "versions_inv e'" if "length (past e') \<le> 2 ^ 64"
    unfolding e' by (rule versions_inv_step [OF inv(1) k c kind]) (use parts that e' in auto)
  ultimately show ?thesis using ok' by (simp add: run_ok_def)
qed

interpretation engine_histories: transition_invariant "engine_start vm" "proper_step c vm" "run_ok c vm" for vm c
  by unfold_locales (auto simp: proper_step_def intro: run_ok_start run_ok_step)

lemma run_reachable:
  assumes "engine_start vm e0" "bitflags_contains c" "(engine_step c vm)\<^sup>*\<^sup>* e0 e"
  shows "run_ok c vm e"
  using engine_histories.inv_reachable [OF assms(1), of c e] assms(2,3) by (simp add: proper_step_def [abs_def])

end
