(* ===== verification/Engine_Conflict.thy ===== *)
theory Engine_Conflict
  imports Engine_Validation
begin

text \<open>
  A run with a conflict. Two threads execute a block of two transfers, both from account 9 to account 8.
  The second is executed first: the memory has no place for its accounts yet, so it reads them from storage
  and writes their balances. By the time the first is executed the memory has, so that one is evaluated
  lazily. The second then fails its validation, its writes are marked, and it is executed again, now
  lazily too.
\<close>

section \<open>The block\<close>

definition transfer_env :: tx_env where
  "transfer_env = example_tx_env\<lparr>te_transact_to := Call 8, te_value := 100\<rparr>"

text \<open>What revm does with a transfer: a price of 3 for 21000 gas, and a sender without means to pay is an error.\<close>

definition plain_account :: "u256 \<Rightarrow> u64 \<Rightarrow> nat revm_account" where
  "plain_account b n =
     \<lparr>acct_info = \<lparr>info_balance = b, info_nonce = n, info_code_hash = 99, info_code = None\<rparr>,
      is_empty_code_hash = True, is_touched = True, is_selfdestructed = False, is_empty_account = False,
      slots = [], changed_storage_slots = []\<rparr>"

fun transfer_run :: "nat account_info option \<Rightarrow> nat account_info option \<Rightarrow> evm_error + nat result_and_state" where
  "transfer_run None r = Inl (OtherEvmError ''no funds'')"
| "transfer_run (Some s) r =
     (if info_balance s < 63100 then Inl (OtherEvmError ''no funds'')
      else Inr
        \<lparr>rs_is_success = True, rs_gas_used = 21000, rs_logs = [],
         rs_state =
           [(9, plain_account (info_balance s - 63100) (info_nonce s + 1)),
            (8, case r of None \<Rightarrow> plain_account 100 0 | Some x \<Rightarrow> plain_account (info_balance x + 100) (info_nonce x))],
         rs_l1_cost = None\<rparr>)"

definition conflict_accounts :: evm_in_memory where
  "conflict_accounts =
     evm_in_memory_new
       [9 \<mapsto> \<lparr>ea_balance = 1000000, ea_nonce = 7, ea_code_hash = None, ea_code = None, ea_storage = []\<rparr>] Map.empty Map.empty"

definition conflict_vm :: "(unit, nat) vm" where
  "conflict_vm = vm_new example_hash example_code
     (\<lambda>spec block_env tx. AskBasic 9 (\<lambda>s. AskBasic 8 (\<lambda>r. Finished (transfer_run s r))))
     (in_memory_storage_of (\<lambda>_. 0) conflict_accounts) (pevm_ethereum example_hash) example_block_env
     [transfer_env, transfer_env] LONDON"

definition conflict_start :: "nat engine" where
  "conflict_start = engine_init conflict_vm 2 \<lparr>execution_results = [], pexe_abort_reason = None\<rparr>"

lemma conflict_txs: "vm_txs conflict_vm = [transfer_env, transfer_env]"
  by (simp add: conflict_vm_def vm_new_def)

section \<open>The memories\<close>

abbreviation conflict_memory ::
    "memory_entry btree \<Rightarrow> memory_entry btree \<Rightarrow> memory_entry btree \<Rightarrow> address list \<Rightarrow> last_locations_t list \<Rightarrow> nat bytecode mv_memory" where
  "conflict_memory beneficiary sender recipient addrs ls \<equiv>
     \<lparr>data = [3 \<mapsto> beneficiary, 9 \<mapsto> sender, 8 \<mapsto> recipient], last_locations = ls, lazy_addresses = addrs,
      new_bytecodes = Map.empty\<rparr>"

text \<open>The reads and writes of a transfer from storage, and of a lazy one.\<close>

abbreviation stored_reads :: read_set where
  "stored_reads \<equiv> [(108, [OriginStorage]), (9, [OriginStorage]), (109, [OriginStorage]), (8, [OriginStorage])]"

abbreviation lazy_reads :: read_set where
  "lazy_reads \<equiv> [(108, [OriginStorage])]"

abbreviation stored_writes :: write_set where
  "stored_writes \<equiv>
     [(9, ValBasic \<lparr>balance = 936900, nonce = 8\<rparr>), (8, ValBasic \<lparr>balance = 100, nonce = 0\<rparr>), (3, LazyRecipient 42000)]"

abbreviation lazy_writes :: write_set where
  "lazy_writes \<equiv> [(9, LazySender 63100), (8, LazyRecipient 100), (3, LazyRecipient 42000)]"

abbreviation transfer_locations :: "read_set \<Rightarrow> last_locations_t" where
  "transfer_locations rs \<equiv> \<lparr>ll_read = rs, ll_write = [9, 8, 3]\<rparr>"

definition conflict_0 :: "nat bytecode mv_memory" where
  "conflict_0 = \<lparr>data = [3 \<mapsto> [(0, Estimate), (1, Estimate)]], last_locations = [empty_locations, empty_locations],
     lazy_addresses = [3], new_bytecodes = Map.empty\<rparr>"

definition conflict_1 :: "nat bytecode mv_memory" where
  "conflict_1 = conflict_memory [(0, Estimate), (1, Data 0 (LazyRecipient 42000))]
     [(1, Data 0 (ValBasic \<lparr>balance = 936900, nonce = 8\<rparr>))] [(1, Data 0 (ValBasic \<lparr>balance = 100, nonce = 0\<rparr>))]
     [3] [empty_locations, transfer_locations stored_reads]"

definition conflict_2 :: "nat bytecode mv_memory" where
  "conflict_2 = conflict_memory [(0, Data 0 (LazyRecipient 42000)), (1, Data 0 (LazyRecipient 42000))]
     [(0, Data 0 (LazySender 63100)), (1, Data 0 (ValBasic \<lparr>balance = 936900, nonce = 8\<rparr>))]
     [(0, Data 0 (LazyRecipient 100)), (1, Data 0 (ValBasic \<lparr>balance = 100, nonce = 0\<rparr>))]
     [8, 9, 3] [transfer_locations lazy_reads, transfer_locations stored_reads]"

definition conflict_3 :: "nat bytecode mv_memory" where
  "conflict_3 = conflict_memory [(0, Data 0 (LazyRecipient 42000)), (1, Estimate)]
     [(0, Data 0 (LazySender 63100)), (1, Estimate)] [(0, Data 0 (LazyRecipient 100)), (1, Estimate)]
     [8, 9, 3] [transfer_locations lazy_reads, transfer_locations stored_reads]"

definition conflict_4 :: "nat bytecode mv_memory" where
  "conflict_4 = conflict_memory [(0, Data 0 (LazyRecipient 42000)), (1, Data 1 (LazyRecipient 42000))]
     [(0, Data 0 (LazySender 63100)), (1, Data 1 (LazySender 63100))] [(0, Data 0 (LazyRecipient 100)), (1, Data 1 (LazyRecipient 100))]
     [8, 9, 3] [transfer_locations lazy_reads, transfer_locations lazy_reads]"

lemmas conflict_memories = conflict_0_def conflict_1_def conflict_2_def conflict_3_def conflict_4_def

lemma conflict_build:
  "chain_build_mv_memory (vm_chain conflict_vm) (vm_block_env conflict_vm) [transfer_env, transfer_env] = conflict_0"
  by (simp add: conflict_vm_def vm_new_def pevm_ethereum_def ethereum_build_mv_memory_def Let_def example_block_env_def
      mv_new_def conflict_0_def bt_of_list_def fun_eq_iff)

section \<open>The executions\<close>

text \<open>The results: of a transfer from storage, and of a lazy one, which knows the accounts' changes only.\<close>

definition transfer_result :: "u256 \<Rightarrow> u64 \<Rightarrow> pexe_tx_execution_result" where
  "transfer_result b n =
     \<lparr>per_receipt = \<lparr>rc_status = True, rc_cumulative_gas_used = 21000, rc_logs = []\<rparr>,
      per_state =
        [8 \<mapsto> Some \<lparr>ea_balance = 100, ea_nonce = 0, ea_code_hash = None, ea_code = None, ea_storage = []\<rparr>,
         9 \<mapsto> Some \<lparr>ea_balance = b, ea_nonce = n, ea_code_hash = None, ea_code = None, ea_storage = []\<rparr>]\<rparr>"

lemmas transfer_simps = vm_attempt_def conflict_vm_def vm_new_def transfer_env_def example_tx_env_def db_new_def
  get_code_hash_def db_basic_def hash_basic_def lazy_sender_mock_def resolve_account_def storage_account_def
  complete_account_def load_code_def and_then_def map_error_def origins_of_def push_origin_def set_origins_def
  in_memory_storage_of_def in_memory_basic_def in_memory_code_hash_def conflict_accounts_def evm_in_memory_new_def
  plain_account_def vm_writes_def touched_writes_def apply_rewards_def reward_gas_price_def pevm_ethereum_def
  ethereum_eip_1559_def ethereum_eip_161_def less_eq_spec_id_def example_block_env_def sat_sub_def sat_mul_def sat_add_def
  result_from_revm_def transfer_result_def evm_account_from_def example_code_def Let_def

definition stored_db :: "tx_idx_t \<Rightarrow> vm_db" where
  "stored_db i =
     \<lparr>db_tx_idx = i, db_tx = transfer_env, db_from_hash = 9, db_to_hash = Some 8, db_to_code_hash = None,
      db_is_lazy = False, db_read_set = stored_reads,
      db_read_accounts = [9 \<mapsto> (\<lparr>balance = 1000000, nonce = 7\<rparr>, None)]\<rparr>"

definition lazy_db :: "tx_idx_t \<Rightarrow> vm_db" where
  "lazy_db i =
     \<lparr>db_tx_idx = i, db_tx = transfer_env, db_from_hash = 9, db_to_hash = Some 8, db_to_code_hash = None,
      db_is_lazy = True, db_read_set = lazy_reads, db_read_accounts = Map.empty\<rparr>"

definition transfer_state :: "u256 \<Rightarrow> u64 \<Rightarrow> nat result_and_state" where
  "transfer_state b n =
     \<lparr>rs_is_success = True, rs_gas_used = 21000, rs_logs = [],
      rs_state = [(9, plain_account b n), (8, plain_account 100 0)], rs_l1_cost = None\<rparr>"

lemma conflict_index: "i < 2 \<Longrightarrow> index_mutex [transfer_env, transfer_env] i = Some transfer_env"
  by (auto simp: index_mutex_def less_2_cases_iff)

lemma stored_attempt:
  assumes "i < 2" "data m 9 = None" "data m 8 = None" "data m 108 = None" "data m 109 = None"
  shows "vm_attempt conflict_vm (\<lambda>_. m) i = Some (Inr (stored_db i, transfer_state 936900 8))"
proof -
  have below: "mem_below m 9 k = []" "mem_below m 8 k = []" "mem_below m 108 k = []" "mem_below m 109 k = []" for k
    using assms(2-5) by (simp_all add: mem_below_def)
  have "transfer_run (Some \<lparr>info_balance = 1000000, info_nonce = 7, info_code_hash = c, info_code = d\<rparr>) None =
      Inr (transfer_state 936900 8)" for c d
    by (simp add: transfer_state_def)
  then show ?thesis
    by (simp add: transfer_simps stored_db_def conflict_index [unfolded transfer_env_def example_tx_env_def, simplified] assms(1-3) below fun_eq_iff
      del: transfer_run.simps)
qed

lemma lazy_attempt:
  assumes "i < 2" "data m 9 \<noteq> None" "data m 108 = None"
  shows "vm_attempt conflict_vm (\<lambda>_. m) i = Some (Inr (lazy_db i, transfer_state (- 63101) 2))"
proof -
  have below: "mem_below m 108 k = []" for k
    using assms(3) by (simp add: mem_below_def)
  have "transfer_run (Some \<lparr>info_balance = -1, info_nonce = 1, info_code_hash = c, info_code = d\<rparr>) None =
      Inr (transfer_state (- 63101) 2)" for c d
    by (simp add: transfer_state_def)
  then show ?thesis using assms(2)
    by (simp add: transfer_simps lazy_db_def conflict_index [unfolded transfer_env_def example_tx_env_def, simplified] assms(1) below fun_eq_iff
      del: transfer_run.simps)
qed

lemma transfer_writes:
  "vm_writes conflict_vm (stored_db i) (transfer_state 936900 8) d = Some (Inr stored_writes, d)"
  "vm_writes conflict_vm (lazy_db i) (transfer_state (- 63101) 2) d = Some (Inr lazy_writes, d)"
  "result_from_revm example_code b (transfer_state x n) = Some (transfer_result x n)"
  by (simp_all add: transfer_simps stored_db_def lazy_db_def transfer_state_def fun_eq_iff)

lemma transfer_dbs:
  "db_read_set (stored_db i) = stored_reads" "\<not> db_is_lazy (stored_db i)"
  "db_read_set (lazy_db i) = lazy_reads" "db_is_lazy (lazy_db i)"
  by (simp_all add: stored_db_def lazy_db_def)

lemma transfer_execute:
  assumes "(db, res, rs, ws, r) = (stored_db i, transfer_state 936900 8, stored_reads, stored_writes, transfer_result 936900 8) \<or>
      (db, res, rs, ws, r) = (lazy_db i, transfer_state (- 63101) 2, lazy_reads, lazy_writes, transfer_result (- 63101) 2)"
    and "vm_attempt conflict_vm (\<lambda>_. m) i = Some (Inr (db, res))"
    and "note_lazy db m = Some mc" "mv_record mc \<lparr>tx_idx = i, tx_incarnation = n\<rparr> rs ws = Some (m', new)"
  shows "vm_execute conflict_vm (\<lambda>_. m) m \<lparr>tx_idx = i, tx_incarnation = n\<rparr> = Some (Inr (r, if new then 1 else 0), m')"
proof -
  have revm: "vm_revm conflict_vm = example_code" by (simp add: conflict_vm_def vm_new_def)
  have "m\<lparr>new_bytecodes := new_bytecodes m\<rparr> = m" by simp
  then show ?thesis
    using assms by (auto simp: vm_execute_def transfer_writes revm execution_flags_def NeedValidation_def WroteNewLocation_def
        transfer_dbs)
qed

lemmas conflict_record = mv_record_def prune_old.simps insert_entry_def empty_locations_def fun_eq_iff conflict_memories
  note_lazy_def stored_db_def lazy_db_def transfer_env_def add_lazy_addresses_def example_tx_env_def

lemma conflict_executions:
  "vm_execute conflict_vm (\<lambda>_. conflict_0) conflict_0 \<lparr>tx_idx = 1, tx_incarnation = 0\<rparr> =
     Some (Inr (transfer_result 936900 8, 1), conflict_1)"
  "vm_execute conflict_vm (\<lambda>_. conflict_1) conflict_1 \<lparr>tx_idx = 0, tx_incarnation = 0\<rparr> =
     Some (Inr (transfer_result (- 63101) 2, 1), conflict_2)"
  "vm_execute conflict_vm (\<lambda>_. conflict_3) conflict_3 \<lparr>tx_idx = 1, tx_incarnation = 1\<rparr> =
     Some (Inr (transfer_result (- 63101) 2, 0), conflict_4)"
proof -
  have "note_lazy (stored_db 1) conflict_0 = Some conflict_0"
    "mv_record conflict_0 \<lparr>tx_idx = 1, tx_incarnation = 0\<rparr> stored_reads stored_writes = Some (conflict_1, True)"
    by (simp_all add: conflict_record)
  from transfer_execute [OF disjI1 [OF refl] stored_attempt this]
  show "vm_execute conflict_vm (\<lambda>_. conflict_0) conflict_0 \<lparr>tx_idx = 1, tx_incarnation = 0\<rparr> =
     Some (Inr (transfer_result 936900 8, 1), conflict_1)"
    by (simp add: conflict_0_def)
  have "note_lazy (lazy_db 0) conflict_1 = Some (conflict_1\<lparr>lazy_addresses := [8, 9, 3]\<rparr>)"
    "mv_record (conflict_1\<lparr>lazy_addresses := [8, 9, 3]\<rparr>) \<lparr>tx_idx = 0, tx_incarnation = 0\<rparr> lazy_reads lazy_writes = Some (conflict_2, True)"
    by (simp_all add: conflict_record)
  from transfer_execute [OF disjI2 [OF refl] lazy_attempt this]
  show "vm_execute conflict_vm (\<lambda>_. conflict_1) conflict_1 \<lparr>tx_idx = 0, tx_incarnation = 0\<rparr> =
     Some (Inr (transfer_result (- 63101) 2, 1), conflict_2)"
    by (simp add: conflict_1_def)
  have "note_lazy (lazy_db 1) conflict_3 = Some conflict_3"
    "mv_record conflict_3 \<lparr>tx_idx = 1, tx_incarnation = 1\<rparr> lazy_reads lazy_writes = Some (conflict_4, False)"
    by (simp_all add: conflict_record)
  from transfer_execute [OF disjI2 [OF refl] lazy_attempt this]
  show "vm_execute conflict_vm (\<lambda>_. conflict_3) conflict_3 \<lparr>tx_idx = 1, tx_incarnation = 1\<rparr> =
     Some (Inr (transfer_result (- 63101) 2, 0), conflict_4)"
    by (simp add: conflict_3_def)
qed

section \<open>The run\<close>

text \<open>Which thread moves: up to the two executions, through abort and re-execution, and to the end.\<close>

definition conflict_schedule :: "nat list" where
  "conflict_schedule =
     [0, 0, 0, 0, 0, 1, 1, 1, 1, 1, 1, 1, 0, 0] @
     [1, 1, 1, 1, 1, 1, 1, 1, 1, 1, 1, 1, 1, 1, 0, 0, 0, 0, 0, 0] @
     [1, 1, 1, 1, 1, 1, 1, 1, 1, 1, 1, 1, 1, 1, 1, 0, 0, 0, 0, 0]"

definition conflict_final :: scheduler where
  "conflict_final =
     \<lparr>block_size = 2, transactions_status = [\<lparr>incarnation = 0, status = Validated\<rparr>, \<lparr>incarnation = 1, status = Validated\<rparr>],
      transactions_dependents = [[], []], execution_idx = 2, validation_idx = 2, min_validation_idx = 0, num_validated = 2,
      aborted = False\<rparr>"

lemma conflict_looks:
  "last_locations conflict_2 = [transfer_locations lazy_reads, transfer_locations stored_reads]"
  "last_locations conflict_4 = [transfer_locations lazy_reads, transfer_locations lazy_reads]"
  "validate_location conflict_2 1 (108, [OriginStorage])"
  "\<not> validate_location conflict_2 1 (9, [OriginStorage])"
  "validate_location conflict_4 0 (108, [OriginStorage])"
  "validate_location conflict_4 1 (108, [OriginStorage])"
  "convert_writes_to_estimates conflict_2 1 = Some conflict_3"
  by (simp_all add: conflict_memories validate_location_def bt_below_def convert_writes_to_estimates_def fun_eq_iff)

lemma conflict_run_end:
  "\<exists>e. run_engine (\<lambda>a b. a AND b = b) conflict_vm conflict_schedule conflict_start = Some e \<and>
     all_exited (workers e) \<and> memory e = conflict_4 \<and>
     outcome e =
       \<lparr>execution_results = [Some (transfer_result (- 63101) 2), Some (transfer_result (- 63101) 2)], pexe_abort_reason = None\<rparr> \<and>
     sched (workers e) = conflict_final \<and> length (past e) = 55 \<and>
     set (past e) = {conflict_0, conflict_1, conflict_2, conflict_3, conflict_4}"
  by (simp add: conflict_schedule_def conflict_start_def engine_init_def conflict_build conflict_txs run_engine_simps
      conflict_executions [simplified] conflict_looks [simplified] reserve_results_def)
    (simp add: all_exited_def conflict_final_def numeral_2_eq_2)

lemma conflict_started: "engine_start conflict_vm conflict_start"
proof -
  have "fresh_memory (chain_build_mv_memory (vm_chain conflict_vm) :: unit block_env \<Rightarrow> tx_env list \<Rightarrow> nat bytecode mv_memory)"
    using ethereum_memory.fresh_memory_axioms by (simp add: conflict_vm_def vm_new_def pevm_ethereum_def)
  then show ?thesis
    unfolding engine_start_def conflict_start_def
    by (auto simp: conflict_txs intro!: exI [of _ "2 :: nat"] exI [of _ "\<lparr>execution_results = [], pexe_abort_reason = None\<rparr>"])
qed

end
