(* ===== verification/Engine_Results.thy ===== *)
theory Engine_Results
  imports Engine_History Engine_Conflict
begin

text \<open>
  What the results of a parallel block are worth: each is the result of executing its transaction
  again, alone, on the final memory.
\<close>

section \<open>Codes and their hashes\<close>

text \<open>
  A code hash determines its code, in the memories of a run and in storage; \<open>code_of\<close> is the code of
  a hash.
\<close>

definition stored_code :: "('blob, 'eof) vm \<Rightarrow> b256 \<Rightarrow> read_error + 'eof bytecode option" where
  "stored_code vm h =
     and_then (map_error ReadStorageError (st_code_by_hash (vm_storage vm) h))
       (\<lambda>c. map_error InvalidBytecode (transpose_code (vm_revm vm) c))"

definition coded_by :: "(b256 \<Rightarrow> 'eof bytecode) \<Rightarrow> 'eof bytecode mv_memory \<Rightarrow> bool" where
  "coded_by code_of m \<longleftrightarrow> (\<forall>h c. new_bytecodes m h = Some c \<longrightarrow> c = code_of h)"

definition storage_coded_by :: "(b256 \<Rightarrow> 'eof bytecode) \<Rightarrow> ('blob, 'eof) vm \<Rightarrow> bool" where
  "storage_coded_by code_of vm \<longleftrightarrow>
     (\<forall>a h. st_code_hash (vm_storage vm) a = Inr (Some h) \<longrightarrow> stored_code vm h = Inr (Some (code_of h)))"

lemma load_code_cases:
  "load_code vm m (Some h) = (case new_bytecodes m h of Some c \<Rightarrow> Inr (Some c) | None \<Rightarrow> stored_code vm h)"
  by (simp add: load_code_def stored_code_def split: option.split)

lemma load_readable:
  assumes "storage_coded_by code_of vm" "coded_by code_of m" "readable_hash vm m0 i h"
    and "mv_ok m0" "codes_backed m0" "new_bytecodes m0 \<subseteq>\<^sub>m new_bytecodes m"
  shows "load_code vm m (Some h) = Inr (Some (code_of h))"
proof (cases "new_bytecodes m h")
  case (Some c)
  then show ?thesis using assms(2) by (simp add: load_code_cases coded_by_def)
next
  case None
  have "new_bytecodes m0 h = None" using None assms(6) by (metis domIff map_le_implies_dom_le subset_iff)
  then have "\<not> (\<exists>l j inc. (j, Data inc (ValCodeHash h)) \<in> set (mem_below m0 l i))"
    using assms(5) unfolding mem_below_set [OF assms(4)] codes_backed_def by blast
  then obtain a where "st_code_hash (vm_storage vm) a = Inr (Some h)"
    using assms(3) by (auto simp: readable_hash_def)
  then show ?thesis using None assms(1) by (auto simp: load_code_cases storage_coded_by_def)
qed

section \<open>Memories of a run\<close>

lemma past_codes_grow:
  assumes "history_inv e" "a \<le> b" "b < length (past e)"
  shows "new_bytecodes (past e ! a) \<subseteq>\<^sub>m new_bytecodes (past e ! b)"
proof (cases "a = b")
  case False
  then show ?thesis using assms sorted_wrt_nth_less [of _ "past e" a b] by (auto simp: history_inv_def)
qed simp

lemma run_later_memory:
  assumes hist: "history_inv e" and obs: "observed (past e) ms"
    and m': "mv_ok m'" "codes_backed m'" "coded_by code_of m'" "\<And>m. m \<in> set (past e) \<Longrightarrow> same_versions m m'"
    and codes: "storage_coded_by code_of vm" "\<And>m. m \<in> set (past e) \<Longrightarrow> coded_by code_of m"
  shows "later_memory vm ms m' i"
proof -
  obtain f where f: "mono f" "\<And>k. f k < length (past e)" "\<And>k. ms k = past e ! f k"
    using obs by (auto simp: observed_def)
  have past: "ms k \<in> set (past e)" for k using f(2,3) by simp
  have ok: "mv_ok (ms k)" "codes_backed (ms k)" for k using hist past [of k] by (auto simp: history_inv_def memory_ok_def)
  have "same_values (ms k) m' i" for k
    using m'(4) [OF past, of k] unfolding same_values_def same_versions_def
    by (auto simp: mem_below_set [OF ok(1)] mem_below_set [OF m'(1)])
  moreover have "load_code vm m' (Some h) = Inr c"
    if "k \<le> k'" "readable_hash vm (ms k) i h" "readable_hash vm m' i h" "load_code vm (ms k') (Some h) = Inr c" for k k' h c
  proof -
    have "new_bytecodes (ms k) \<subseteq>\<^sub>m new_bytecodes (ms k')"
      using past_codes_grow [OF hist monoD [OF f(1) that(1)] f(2)] f(3) by simp
    then have "c = Some (code_of h)"
      using load_readable [OF codes(1) codes(2) [OF past] that(2) ok] that(4) by simp
    then show ?thesis using load_readable [OF codes(1) m'(3) that(3) m'(1,2)] by simp
  qed
  ultimately show ?thesis unfolding later_memory_def by blast
qed

section \<open>At the end of a block\<close>

text \<open>Everything the end of a run without an abort offers for one transaction.\<close>

lemma exited_run:
  assumes "engine_start vm e0" "bitflags_contains c" "(engine_step c vm)\<^sup>*\<^sup>* e0 e"
    and "all_exited (workers e)" "pexe_abort_reason (outcome e) = None"
  shows "run_ok c vm e" "block_size (sched (workers e)) = length (vm_txs vm)" "history_inv e" "mv_ok (memory e)"
    "length (last_locations (memory e)) = length (vm_txs vm)" "memory e \<in> set (past e)"
    "i < length (vm_txs vm) \<Longrightarrow> validate_read_locations (memory e) i = Some True"
    "i < length (vm_txs vm) \<Longrightarrow> \<exists>r. execution_results (outcome e) ! i = Some r \<and>
       produced vm e \<lparr>tx_idx = i, tx_incarnation = inc (sched (workers e)) i\<rparr> r"
proof -
  show ok: "run_ok c vm e" by (rule run_reachable [OF assms(1-3)])
  note parts = ok [unfolded run_ok_def engine_ok_def engine_inv_def]
  show n: "block_size (sched (workers e)) = length (vm_txs vm)" and hist: "history_inv e" using parts by simp_all
  show "memory e \<in> set (past e)" using hist by (rule past_ok(2))
  show mem: "mv_ok (memory e)" "length (last_locations (memory e)) = length (vm_txs vm)"
    using parts by (simp_all add: memory_ok_def)
  show "i < length (vm_txs vm) \<Longrightarrow> validate_read_locations (memory e) i = Some True"
    using engine_exited_valid [OF assms] by blast
  have w: "workers_inv (workers e)" "\<not> abort_reason (workers e)"
    using parts assms(5) by (auto simp: outcome_inv_def)
  show "i < length (vm_txs vm) \<Longrightarrow> \<exists>r. execution_results (outcome e) ! i = Some r \<and>
       produced vm e \<lparr>tx_idx = i, tx_incarnation = inc (sched (workers e)) i\<rparr> r"
    using exited_validated(3) [OF w(1) assms(4) w(2), of i] parts n unfolding provenance_inv_def has_run_def by simp
qed

text \<open>The memories a transaction may have met make its locations tell apart.\<close>

definition run_injective :: "('blob, 'eof) vm \<Rightarrow> 'eof engine \<Rightarrow> bool" where
  "run_injective vm e \<longleftrightarrow>
     (\<forall>ms. \<forall>i < length (vm_txs vm). observed (past e) ms \<longrightarrow> inj_on (vm_hash vm) (attempt_locations vm ms i))"

definition run_coded_by :: "(b256 \<Rightarrow> 'eof bytecode) \<Rightarrow> ('blob, 'eof) vm \<Rightarrow> 'eof engine \<Rightarrow> bool" where
  "run_coded_by code_of vm e \<longleftrightarrow> storage_coded_by code_of vm \<and> (\<forall>m \<in> set (past e). coded_by code_of m)"

lemma result_repeats:
  assumes run: "engine_start vm e0" "bitflags_contains c" "(engine_step c vm)\<^sup>*\<^sup>* e0 e"
    and fin: "all_exited (workers e)" "pexe_abort_reason (outcome e) = None" "length (past e) \<le> 2 ^ 64"
    and world: "run_injective vm e" "run_coded_by code_of vm e"
    and i: "i < length (vm_txs vm)" "v = \<lparr>tx_idx = i, tx_incarnation = inc (sched (workers e)) i\<rparr>"
  shows "\<exists>r p1 p2 m2. execution_results (outcome e) ! i = Some r \<and> p1 \<in> set (past e) \<and> p2 \<in> set (past e) \<and>
    vm_execute vm (probing p1 p2 (memory e)) (memory e) v = Some (Inr (r, 0), m2) \<and> (\<forall>l j. entry_at m2 l j = entry_at (memory e) l j)"
proof -
  note ended = exited_run [OF run fin(1,2)]
  obtain r ms m0 flags m1 where r: "execution_results (outcome e) ! i = Some r"
    and ex: "vm_execute vm ms m0 v = Some (Inr (r, flags), m1)" and obs: "observed (past e) ms" and m0: "mv_ok m0"
    and kept: "last_locations (memory e) ! tx_idx v = last_locations m1 ! tx_idx v"
      "\<And>l. entry_at (memory e) l (tx_idx v) = entry_at m1 l (tx_idx v)" "new_bytecodes m1 \<subseteq>\<^sub>m new_bytecodes (memory e)"
    using ended(8) [OF i(1)] unfolding produced_def i(2) by blast
  have ver: "versions_inv e" using ended(1) fin(3) by (simp add: run_ok_def)
  have M: "codes_backed (memory e)" "coded_by code_of (memory e)"
    using ended(3,6) world(2) by (auto simp: history_inv_def run_coded_by_def)
  have "later_memory vm ms (memory e) (tx_idx v)"
    by (rule run_later_memory [OF ended(3) obs ended(4) M]) (use ver ended(6) world(2) in \<open>auto simp: versions_inv_def run_coded_by_def\<close>)
  moreover have "inj_on (vm_hash vm) (attempt_locations vm ms (tx_idx v))"
    using world(1) obs i by (simp add: run_injective_def)
  ultimately obtain m2 where "vm_execute vm (probing (ms 1) (ms 2) (memory e)) (memory e) v = Some (Inr (r, 0), m2)"
    "\<forall>l j. entry_at m2 l j = entry_at (memory e) l j"
    using execution_repeats [OF ex m0 ended(4) _ kept _ _ decides_probing] ended(5,7) i by auto
  moreover have "ms 1 \<in> set (past e)" "ms 2 \<in> set (past e)" using obs by (auto simp: observed_def)
  ultimately show ?thesis using r by blast
qed

section \<open>The example run\<close>

lemma example_one_locations: "attempt_locations example_one_vm ms 0 \<subseteq> {LocStorage 1 0}"
  by (auto simp: attempt_locations_def example_one_vm_def vm_new_def example_tx_env_def db_new_def example_run_def Let_def
      split: sum.splits)

lemma example_one_end:
  obtains e where "(engine_step (\<lambda>a b. a AND b = b) example_one_vm)\<^sup>*\<^sup>* example_one_start e" "all_exited (workers e)"
    "pexe_abort_reason (outcome e) = None" "length (past e) \<le> 2 ^ 64" "run_injective example_one_vm e"
    "run_coded_by (\<lambda>_. Eof 7) example_one_vm e" "memory e = example_one_memory"
    "execution_results (outcome e) = [Some example_result]" "sched (workers e) = sched example_final"
proof -
  obtain e where e: "run_engine (\<lambda>a b. a AND b = b) example_one_vm
       [0, 0, 0, 0, 0, 0, 0, 0, 0, 0, 0, 0, 0, 0, 0, 0, 0, 0] example_one_start = Some e"
     "all_exited (workers e)" "memory e = example_one_memory"
     "outcome e = \<lparr>execution_results = [Some example_result], pexe_abort_reason = None\<rparr>"
     "sched (workers e) = sched example_final" "length (past e) = 19" "set (past e) = {example_one_init, example_one_memory}"
    using example_one_run by blast
  have "inj_on (vm_hash example_one_vm) (attempt_locations example_one_vm ms 0)" for ms
    by (rule inj_on_subset [OF _ example_one_locations]) simp
  then have "run_injective example_one_vm e" by (simp add: run_injective_def example_one_txs)
  moreover have "storage_coded_by (\<lambda>_. Eof 7) example_one_vm"
    by (auto simp: storage_coded_by_def stored_code_def example_one_vm_def vm_new_def in_memory_storage_of_def in_memory_code_hash_def
        in_memory_code_by_hash_def example_accounts_def evm_in_memory_new_def transpose_code_def bytecode_try_from_def
        example_code_def split: if_splits option.splits)
  then have "run_coded_by (\<lambda>_. Eof 7) example_one_vm e"
    using e(7) by (simp add: run_coded_by_def coded_by_def example_one_init_def example_one_memory_def)
  ultimately show thesis using that [OF run_engine_run [OF e(1)]] e by simp
qed

section \<open>The run with a conflict\<close>

lemma conflict_locations:
  assumes "i < length (vm_txs conflict_vm)"
  shows "attempt_locations conflict_vm ms i \<subseteq> {LocBasic 8, LocBasic 9, LocCodeHash 8, LocCodeHash 9}"
proof -
  have "vm_txs conflict_vm ! i = transfer_env" "vm_transact conflict_vm transfer_env =
      AskBasic 9 (\<lambda>s. AskBasic 8 (\<lambda>r. Finished (transfer_run s r)))"
    using assms by (cases i) (auto simp: conflict_txs, simp add: conflict_vm_def vm_new_def)
  then show ?thesis
    by (auto simp: attempt_locations_def transfer_env_def Let_def split: option.splits sum.splits)
qed

lemma conflict_end:
  obtains e where "(engine_step (\<lambda>a b. a AND b = b) conflict_vm)\<^sup>*\<^sup>* conflict_start e" "all_exited (workers e)"
    "pexe_abort_reason (outcome e) = None" "length (past e) \<le> 2 ^ 64" "run_injective conflict_vm e"
    "run_coded_by (\<lambda>_. Eof 7) conflict_vm e" "memory e = conflict_4"
    "execution_results (outcome e) = [Some (transfer_result (- 63101) 2), Some (transfer_result (- 63101) 2)]"
    "sched (workers e) = conflict_final"
proof -
  obtain e where e: "run_engine (\<lambda>a b. a AND b = b) conflict_vm conflict_schedule conflict_start = Some e"
     "all_exited (workers e)" "memory e = conflict_4"
     "outcome e =
        \<lparr>execution_results = [Some (transfer_result (- 63101) 2), Some (transfer_result (- 63101) 2)], pexe_abort_reason = None\<rparr>"
     "sched (workers e) = conflict_final" "length (past e) = 55"
     "set (past e) = {conflict_0, conflict_1, conflict_2, conflict_3, conflict_4}"
    using conflict_run_end by blast
  have hash: "vm_hash conflict_vm = example_hash" by (simp add: conflict_vm_def vm_new_def)
  have "inj_on (vm_hash conflict_vm) (attempt_locations conflict_vm ms i)" if "i < length (vm_txs conflict_vm)" for ms i
    by (rule inj_on_subset [OF _ conflict_locations [OF that]]) (simp add: hash)
  then have "run_injective conflict_vm e" by (simp add: run_injective_def)
  moreover have "storage_coded_by (\<lambda>_. Eof 7) conflict_vm"
    by (auto simp: storage_coded_by_def conflict_vm_def vm_new_def in_memory_storage_of_def in_memory_code_hash_def
        conflict_accounts_def evm_in_memory_new_def split: if_splits)
  then have "run_coded_by (\<lambda>_. Eof 7) conflict_vm e"
    using e(7) by (simp add: run_coded_by_def coded_by_def conflict_memories)
  ultimately show thesis using that [OF run_engine_run [OF e(1)]] e by simp
qed

section \<open>Properties\<close>

text \<open>
  Property C2. The results of a parallel block are those of its final memory. When all threads have left without an
  abort, the result stored for a transaction is what executing the transaction once more, alone, on
  the final memory gives, in the incarnation it ended with; doing so changes no entry of the memory.
  A transfer to an account without code is evaluated lazily again if it was, and not if it was not: the
  two tests of keys that decide this meet memories of the run, every read meets the final memory.
  Locations the transactions read do not share a hash, and a code hash determines its code.
\<close>

theorem parallel_results_repeat:
  assumes "engine_start vm e0" "bitflags_contains c" "(engine_step c vm)\<^sup>*\<^sup>* e0 e"
    and "all_exited (workers e)" "pexe_abort_reason (outcome e) = None" "length (past e) \<le> 2 ^ 64"
    and "run_injective vm e" "run_coded_by code_of vm e"
    and "i < length (vm_txs vm)" "v = \<lparr>tx_idx = i, tx_incarnation = inc (sched (workers e)) i\<rparr>"
  shows "\<exists>r p1 p2 m2. execution_results (outcome e) ! i = Some r \<and> p1 \<in> set (past e) \<and> p2 \<in> set (past e) \<and>
    vm_execute vm (probing p1 p2 (memory e)) (memory e) v = Some (Inr (r, 0), m2) \<and> (\<forall>l j. entry_at m2 l j = entry_at (memory e) l j)"
  by (rule result_repeats [OF assms])

text \<open>The second transfer of the run with a conflict: stored at first, lazy in the end.\<close>

theorem parallel_results_repeat_witness:
  "\<exists>p1 p2 m2. vm_execute conflict_vm (probing p1 p2 conflict_4) conflict_4 \<lparr>tx_idx = 1, tx_incarnation = 1\<rparr> =
     Some (Inr (transfer_result (- 63101) 2, 0), m2) \<and> entry_at m2 9 1 = Some (Data 1 (LazySender 63100))"
proof -
  obtain e where run: "(engine_step (\<lambda>a b. a AND b = b) conflict_vm)\<^sup>*\<^sup>* conflict_start e" "all_exited (workers e)"
    "pexe_abort_reason (outcome e) = None" "length (past e) \<le> 2 ^ 64" "run_injective conflict_vm e"
    "run_coded_by (\<lambda>_. Eof 7) conflict_vm e"
    and m: "memory e = conflict_4" "sched (workers e) = conflict_final"
      "execution_results (outcome e) = [Some (transfer_result (- 63101) 2), Some (transfer_result (- 63101) 2)]"
    by (rule conflict_end) blast
  have "1 < length (vm_txs conflict_vm)" by (simp add: conflict_txs)
  from parallel_results_repeat [OF conflict_started bitflags_exists run this refl] m
  obtain p1 p2 m2 where "vm_execute conflict_vm (probing p1 p2 conflict_4) conflict_4 \<lparr>tx_idx = 1, tx_incarnation = 1\<rparr> =
     Some (Inr (transfer_result (- 63101) 2, 0), m2)" "\<forall>l j. entry_at m2 l j = entry_at conflict_4 l j"
    by (auto simp: conflict_final_def inc_def)
  moreover have "entry_at conflict_4 9 1 = Some (Data 1 (LazySender 63100))"
    by (simp add: conflict_4_def entry_at_def entry_of_def bt_get_def)
  ultimately show ?thesis by metis
qed

end
