(* ===== verification/Engine_Serial.thy ===== *)
theory Engine_Serial
  imports Engine_Results
begin

text \<open>
  The parallel engine against serial execution: executing the transactions one after the other, in
  their order and on a memory of their own, gives the results of the parallel block and writes the
  values its memory ends with.
\<close>

section \<open>Serial execution\<close>

text \<open>
  The first transactions of the block, each executed on what the ones before it wrote. There is nothing
  to estimate, and an error ends it. \<open>probe i\<close> are the memories that the two tests of keys of
  \<^verbatim>\<open>VmDb::new\<close> meet, which decide whether a transfer is evaluated lazily; every read meets the serial memory.
\<close>

type_synonym 'eof probes = "tx_idx_t \<Rightarrow> 'eof bytecode mv_memory \<times> 'eof bytecode mv_memory"

primrec execute_serially ::
    "('blob, 'eof) vm \<Rightarrow> (tx_idx_t \<Rightarrow> nat) \<Rightarrow> 'eof probes \<Rightarrow> nat
       \<Rightarrow> (pexe_tx_execution_result list \<times> 'eof bytecode mv_memory) option" where
  "execute_serially vm incs probe 0 = Some ([], mv_new (length (vm_txs vm)) [] [])"
| "execute_serially vm incs probe (Suc i) =
     do {
       (rs, m) \<leftarrow> execute_serially vm incs probe i;
       (answer, m') \<leftarrow> vm_execute vm (probing (fst (probe i)) (snd (probe i)) m) m \<lparr>tx_idx = i, tx_incarnation = incs i\<rparr>;
       (case answer of Inl e \<Rightarrow> None | Inr (r, flags) \<Rightarrow> Some (rs @ [r], m'))
     }"

text \<open>The values a memory holds, without the marks of transactions that never wrote.\<close>

definition committed :: "'code mv_memory \<Rightarrow> memory_location_hash \<Rightarrow> tx_idx_t \<Rightarrow> memory_entry option" where
  "committed m l j = (case entry_at m l j of Some (Data k x) \<Rightarrow> Some (Data k x) | _ \<Rightarrow> None)"

lemma committed_Some: "committed m l j = Some e \<longleftrightarrow> (\<exists>k x. e = Data k x \<and> entry_at m l j = Some (Data k x))"
  by (auto simp: committed_def split: option.splits memory_entry.splits)

section \<open>New codes\<close>

text \<open>revm gives the code of an account it created with the account.\<close>

definition is_new_code :: "('blob, 'eof) vm \<Rightarrow> vm_db \<Rightarrow> address \<Rightarrow> 'eof revm_account \<Rightarrow> bool" where
  "is_new_code vm db a acct \<longleftrightarrow> \<not> is_selfdestructed acct \<and> is_touched acct \<and> \<not> is_empty_code_hash acct \<and>
     (case db_read_accounts db (vm_hash vm (LocBasic a)) of None \<Rightarrow> True | Some (_, code_hash) \<Rightarrow> code_hash = None)"

definition carries_codes ::
    "(b256 \<Rightarrow> 'eof bytecode) \<Rightarrow> ('blob, 'eof) vm \<Rightarrow> vm_db \<Rightarrow> (address \<times> 'eof revm_account) list \<Rightarrow> bool" where
  "carries_codes code_of vm db accts \<longleftrightarrow> (\<forall>(a, acct) \<in> set accts. is_new_code vm db a acct \<longrightarrow>
     info_code (acct_info acct) = Some (code_of (info_code_hash (acct_info acct))))"

lemma carries_codes_Cons [simp]:
  "carries_codes code_of vm db ((a, acct) # accts) \<longleftrightarrow>
     (is_new_code vm db a acct \<longrightarrow> info_code (acct_info acct) = Some (code_of (info_code_hash (acct_info acct)))) \<and>
     carries_codes code_of vm db accts"
  by (simp add: carries_codes_def)

definition codes_by :: "(b256 \<Rightarrow> 'eof bytecode) \<Rightarrow> (b256 \<rightharpoonup> 'eof bytecode) \<Rightarrow> bool" where
  "codes_by code_of codes \<longleftrightarrow> (\<forall>h c. codes h = Some c \<longrightarrow> c = code_of h)"

lemma touched_writes_any_codes:
  assumes "touched_writes vm db codes a acct = Some (ws, codes')" "is_touched acct" "\<not> is_selfdestructed acct"
    and "is_new_code vm db a acct \<Longrightarrow> info_code (acct_info acct) = Some (code_of (info_code_hash (acct_info acct)))"
    and "codes_by code_of c"
  shows "\<exists>c'. touched_writes vm db c a acct = Some (ws, c') \<and> codes_by code_of c'"
proof (cases "is_new_code vm db a acct")
  case True
  then show ?thesis
    using assms by (cases "c (info_code_hash (acct_info acct))")
      (auto simp: touched_writes_def is_new_code_def codes_by_def Let_def Option.bind_eq_Some_conv)
next
  case False
  then show ?thesis
    using assms(1-3,5) by (auto simp: touched_writes_def is_new_code_def Let_def)
qed

lemma account_writes_any_codes:
  assumes "account_writes vm db codes accts = Some (ws, codes')" "codes_by code_of c"
    and "carries_codes code_of vm db accts"
  shows "\<exists>c'. account_writes vm db c accts = Some (ws, c') \<and> codes_by code_of c'"
  using assms
proof (induction accts arbitrary: codes ws c)
  case (Cons x accts)
  obtain a acct where x: "x = (a, acct)" by fastforce
  have new: "is_new_code vm db a acct \<Longrightarrow> info_code (acct_info acct) = Some (code_of (info_code_hash (acct_info acct)))"
    and rest: "carries_codes code_of vm db accts"
    using Cons.prems(3) by (simp_all add: x)
  show ?case
  proof (cases "is_selfdestructed acct")
    case True
    with Cons.prems(1) x obtain ws1 where "account_writes vm db codes accts = Some (ws1, codes')"
      and "ws = (vm_hash vm (LocCodeHash a), SelfDestructed) # ws1"
      by (auto simp: Option.bind_eq_Some_conv)
    then show ?thesis using Cons.IH [OF _ Cons.prems(2) rest] True x by fastforce
  next
    case False
    let ?first = "\<lambda>codes. if is_touched acct then touched_writes vm db codes a acct else Some ([], codes)"
    obtain ws1 codes1 ws2 where first: "?first codes = Some (ws1, codes1)"
      and more: "account_writes vm db codes1 accts = Some (ws2, codes')"
      and ws: "ws = ws1 @ map (\<lambda>(slot, v). (vm_hash vm (LocStorage a slot), ValStorage v)) (changed_storage_slots acct) @ ws2"
      using Cons.prems(1) x False by (auto simp: Option.bind_eq_Some_conv)
    obtain c1 where c1: "?first c = Some (ws1, c1)" "codes_by code_of c1"
    proof (cases "is_touched acct")
      case True
      then have "touched_writes vm db codes a acct = Some (ws1, codes1)" using first by simp
      from touched_writes_any_codes [OF this True \<open>\<not> is_selfdestructed acct\<close> new Cons.prems(2)]
      show ?thesis using that True by auto
    next
      case False
      then show ?thesis using that first Cons.prems(2) by auto
    qed
    obtain c2 where "account_writes vm db c1 accts = Some (ws2, c2)" "codes_by code_of c2"
      using Cons.IH [OF more c1(2) rest] by blast
    then show ?thesis using c1(1) False ws x by simp
  qed
qed simp

lemma vm_writes_any_codes:
  assumes "vm_writes vm db res codes = Some (w, codes')" "carries_codes code_of vm db (rs_state res)" "codes_by code_of c"
  shows "\<exists>c'. vm_writes vm db res c = Some (w, c') \<and> codes_by code_of c'"
proof -
  obtain ws where ws: "account_writes vm db codes (rs_state res) = Some (ws, codes')"
    and r: "apply_rewards vm (db_tx db) (ucast (rs_gas_used res)) (rs_l1_cost res) ws = Some w"
    using assms(1) by (auto simp: vm_writes_def Option.bind_eq_Some_conv)
  obtain c' where "account_writes vm db c (rs_state res) = Some (ws, c')" "codes_by code_of c'"
    using account_writes_any_codes [OF ws assms(3,2)] by blast
  then show ?thesis using r by (simp add: vm_writes_def)
qed

section \<open>Without the marks\<close>

text \<open>Reads that hold in a memory hold where the same values stand and nothing else.\<close>

lemma match_origins_values:
  "match_origins os it \<Longrightarrow> match_origins os (filter (\<lambda>(k, e). e \<noteq> Estimate) it)"
  by (induction os it rule: match_origins.induct) (auto split: if_splits)

lemma mem_below_values:
  assumes "mv_ok m" "mv_ok s" "\<And>k. k < i \<Longrightarrow> entry_at s l k = committed m l k"
  shows "mem_below s l i = filter (\<lambda>(k, e). e \<noteq> Estimate) (mem_below m l i)"
proof (rule descending_unique [of fst])
  show "set (mem_below s l i) = set (filter (\<lambda>(k, e). e \<noteq> Estimate) (mem_below m l i))"
  proof (intro set_eqI)
    fix x :: "tx_idx_t \<times> memory_entry"
    obtain k e where x: "x = (k, e)" by fastforce
    show "x \<in> set (mem_below s l i) \<longleftrightarrow> x \<in> set (filter (\<lambda>(k, e). e \<noteq> Estimate) (mem_below m l i))"
      unfolding x by (cases e) (use assms in \<open>auto simp: mem_below_set committed_Some\<close>)
  qed
  show "sorted_wrt (>) (map fst (filter (\<lambda>(k, e). e \<noteq> Estimate) (mem_below m l i)))"
    using mem_below_sorted [OF assms(1), of l i] by (simp add: sorted_wrt_map sorted_wrt_filter)
qed (rule mem_below_sorted [OF assms(2)])

lemma validate_location_values:
  assumes "mv_ok m" "mv_ok s" "\<And>k. k < i \<Longrightarrow> entry_at s l k = committed m l k" "wf_origins os"
    and "validate_location m i (l, os)"
  shows "validate_location s i (l, os)"
proof -
  have "match_origins os (mem_below m l i)"
    using assms(5) by (rule validate_location_match)
  moreover have "mem_below s l i = filter (\<lambda>(k, e). e \<noteq> Estimate) (mem_below m l i)"
    by (rule mem_below_values [OF assms(1,2)]) (rule assms(3))
  ultimately have "match_origins os (mem_below s l i)" using match_origins_values by metis
  then show ?thesis by (simp add: validate_location_wf [OF assms(4)])
qed

section \<open>One transaction\<close>

text \<open>What the memory of a serial execution is after \<open>i\<close> transactions, when the parallel one ends with \<open>m\<close>.\<close>

definition serial_inv :: "(b256 \<Rightarrow> 'eof bytecode) \<Rightarrow> 'eof bytecode mv_memory \<Rightarrow> nat \<Rightarrow> 'eof bytecode mv_memory \<Rightarrow> bool" where
  "serial_inv code_of m i s \<longleftrightarrow> mv_ok s \<and> codes_backed s \<and> coded_by code_of s \<and>
     length (last_locations s) = length (last_locations m) \<and>
     (\<forall>l j. entry_at s l j = (if j < i then committed m l j else None))"

lemma serial_inv_new: "serial_inv code_of m 0 (mv_new (length (last_locations m)) [] [])"
proof -
  have "new_bytecodes (mv_new (length (last_locations m)) [] [] :: 'a bytecode mv_memory) = Map.empty"
    by (simp add: mv_new_def)
  then show ?thesis
    by (simp add: serial_inv_def mv_new_ok codes_backed_def coded_by_def mv_new_entry mv_new_locations)
qed

lemma serial_step:
  assumes ex: "vm_execute vm ms m0 v = Some (Inr (r, flags), m1)" and m0: "mv_ok m0" and m: "mv_ok m"
    and kept: "last_locations m ! tx_idx v = last_locations m1 ! tx_idx v"
      "\<And>l. entry_at m l (tx_idx v) = entry_at m1 l (tx_idx v)"
    and i: "tx_idx v < length (last_locations m)" and valid: "validate_read_locations m (tx_idx v) = Some True"
    and s: "serial_inv code_of m (tx_idx v) s"
    and later: "later_memory vm ms s (tx_idx v)"
    and inj: "inj_on (vm_hash vm) (attempt_locations vm ms (tx_idx v))"
    and carried: "\<And>db res. vm_attempt vm ms (tx_idx v) = Some (Inr (db, res)) \<Longrightarrow> carries_codes code_of vm db (rs_state res)"
  shows "\<exists>flags' s'. vm_execute vm (probing (ms 1) (ms 2) s) s v = Some (Inr (r, flags'), s') \<and>
    serial_inv code_of m (Suc (tx_idx v)) s'"
proof -
  let ?i = "tx_idx v"
  note S = s [unfolded serial_inv_def]
  have ok: "mv_ok s" and entry: "\<And>l j. entry_at s l j = (if j < ?i then committed m l j else None)" using S by blast+
  obtain db res ws codes mc new where attempt: "vm_attempt vm ms ?i = Some (Inr (db, res))"
    and writes: "vm_writes vm db res (new_bytecodes m0) = Some (Inr ws, codes)"
    and lazy: "note_lazy db (m0\<lparr>new_bytecodes := codes\<rparr>) = Some mc"
    and recd: "mv_record mc v (db_read_set db) ws = Some (m1, new)" "wf_reads (db_read_set db)"
    using vm_execute_records [OF ex] by metis
  obtain db2 res2 ws2 where e1: "vm_attempt vm ms ?i = Some (Inr (db2, res2))"
    "vm_writes vm db2 res2 (new_bytecodes m0) = Some (Inr ws2, new_bytecodes m1)"
    "result_from_revm (vm_revm vm) (chain_eip_161 (vm_chain vm) (vm_spec_id vm)) res2 = Some r"
    "reads_of m1 ?i = db_read_set db2"
    "\<And>l j. entry_at m1 l j =
       (if j \<noteq> ?i then entry_at m0 l j
        else case map_of (rev ws2) l of
               Some x \<Rightarrow> Some (Data (tx_incarnation v) x)
             | None \<Rightarrow> if l \<in> writes_of m0 j then None else entry_at m0 l j)"
    using vm_execute_entries [OF ex m0] by metis
  have same: "db2 = db" "res2 = res" "ws2 = ws" using e1(1,2) attempt writes by simp_all
  have valid': "list_all (validate_location s ?i) (db_read_set db)"
  proof (unfold list_all_iff, intro ballI)
    fix x assume x: "x \<in> set (db_read_set db)"
    obtain l os where lx: "x = (l, os)" by fastforce
    have "validate_location m ?i (l, os)"
      using valid x lx e1(4) kept(1) i same by (auto simp: validate_read_locations_def index_mutex_def list_all_iff)
    moreover have "wf_origins os" using recd(2) x lx by (auto simp: wf_reads_def list_all_iff)
    ultimately show "validate_location s ?i x"
      unfolding lx using entry by (intro validate_location_values [OF m ok]) auto
  qed
  have attempt': "vm_attempt vm (probing (ms 1) (ms 2) s) ?i = Some (Inr (db, res))"
    by (rule attempt_repeat [OF attempt inj later decides_probing valid']) simp_all
  obtain codes' where writes': "vm_writes vm db res (new_bytecodes s) = Some (Inr ws, codes')" "codes_by code_of codes'"
    using vm_writes_any_codes [OF writes carried [OF attempt], of "new_bytecodes s"] S
    unfolding codes_by_def coded_by_def by blast
  obtain mc' where lazy': "note_lazy db (s\<lparr>new_bytecodes := codes'\<rparr>) = Some mc'"
    using note_lazy_total [OF lazy] by blast
  obtain s' new' where recd': "mv_record mc' v (db_read_set db) ws = Some (s', new')"
    using mv_record_total [of v mc' "db_read_set db" ws] note_lazy_simps(2) [OF lazy'] S i by auto
  have ex': "vm_execute vm (probing (ms 1) (ms 2) s) s v = Some (Inr (r, execution_flags ?i (db_is_lazy db) new'), s')"
    using attempt' writes'(1) lazy' recd' e1(3) same by (simp add: vm_execute_def)
  obtain db3 res3 ws3 where e2: "vm_attempt vm (probing (ms 1) (ms 2) s) ?i = Some (Inr (db3, res3))"
    "vm_writes vm db3 res3 (new_bytecodes s) = Some (Inr ws3, new_bytecodes s')"
    "mv_ok s'" "length (last_locations s') = length (last_locations s)"
    "\<And>l j. entry_at s' l j =
       (if j \<noteq> ?i then entry_at s l j
        else case map_of (rev ws3) l of
               Some x \<Rightarrow> Some (Data (tx_incarnation v) x)
             | None \<Rightarrow> if l \<in> writes_of s j then None else entry_at s l j)"
    using vm_execute_entries [OF ex' ok] by metis
  have same': "ws3 = ws" "new_bytecodes s' = codes'" using e2(1,2) attempt' writes'(1) by simp_all
  have old: "committed m0 l ?i = None" if "l \<notin> writes_of m0 ?i" for l
    using that mv_okD(5) [OF m0, of l ?i] by (auto simp: committed_def split: option.splits memory_entry.splits)
  have "entry_at s' l j = (if j < Suc ?i then committed m l j else None)" for l j
  proof (cases "j = ?i")
    case True
    have "committed m l ?i = map_option (Data (tx_incarnation v)) (map_of (rev ws) l)"
      using old [of l] by (auto simp: committed_def kept(2) e1(5) same split: option.splits)
    then show ?thesis using True by (simp add: e2(5) same' entry split: option.split)
  qed (simp add: e2(5) entry less_Suc_eq)
  then have "serial_inv code_of m (Suc ?i) s'"
    using S e2(3,4) vm_execute_codes(2) [OF ex' ok] writes'(2) same'(2) by (simp add: serial_inv_def codes_by_def coded_by_def)
  then show ?thesis using ex' by blast
qed

section \<open>The block\<close>

text \<open>What the world offers: codes come with their accounts.\<close>

definition run_carries_codes :: "(b256 \<Rightarrow> 'eof bytecode) \<Rightarrow> ('blob, 'eof) vm \<Rightarrow> 'eof engine \<Rightarrow> bool" where
  "run_carries_codes code_of vm e \<longleftrightarrow>
     (\<forall>ms i db res. observed (past e) ms \<longrightarrow> vm_attempt vm ms i = Some (Inr (db, res)) \<longrightarrow>
        carries_codes code_of vm db (rs_state res))"

lemma serial_prefix:
  assumes run: "engine_start vm e0" "bitflags_contains c" "(engine_step c vm)\<^sup>*\<^sup>* e0 e"
    and fin: "all_exited (workers e)" "pexe_abort_reason (outcome e) = None" "length (past e) \<le> 2 ^ 64"
    and world: "run_injective vm e" "run_coded_by code_of vm e" "run_carries_codes code_of vm e"
    and made: "\<And>i. i < length (vm_txs vm) \<Longrightarrow> observed (past e) (met i) \<and>
      (\<exists>r m0 flags m1. execution_results (outcome e) ! i = Some r \<and>
         vm_execute vm (met i) m0 \<lparr>tx_idx = i, tx_incarnation = inc (sched (workers e)) i\<rparr> = Some (Inr (r, flags), m1) \<and>
         mv_ok m0 \<and> last_locations (memory e) ! i = last_locations m1 ! i \<and> (\<forall>l. entry_at (memory e) l i = entry_at m1 l i))"
    and i: "i \<le> length (vm_txs vm)"
  shows "\<exists>rs s. execute_serially vm (inc (sched (workers e))) (\<lambda>i. (met i 1, met i 2)) i = Some (rs, s) \<and>
    map Some rs = take i (execution_results (outcome e)) \<and> serial_inv code_of (memory e) i s"
  using i
proof (induction i)
  case 0
  then show ?case using serial_inv_new [of code_of "memory e"] exited_run(5) [OF run fin(1,2)] by simp
next
  case (Suc i)
  let ?v = "\<lparr>tx_idx = i, tx_incarnation = inc (sched (workers e)) i\<rparr>"
  note ended = exited_run [OF run fin(1,2)]
  have i: "i < length (vm_txs vm)" using Suc.prems by simp
  obtain rs s where s: "execute_serially vm (inc (sched (workers e))) (\<lambda>i. (met i 1, met i 2)) i = Some (rs, s)"
    "map Some rs = take i (execution_results (outcome e))" "serial_inv code_of (memory e) i s"
    using Suc by auto
  obtain r m0 flags m1 where r: "execution_results (outcome e) ! i = Some r"
    and ex: "vm_execute vm (met i) m0 ?v = Some (Inr (r, flags), m1)" and obs: "observed (past e) (met i)" and m0: "mv_ok m0"
    and kept: "last_locations (memory e) ! tx_idx ?v = last_locations m1 ! tx_idx ?v"
      "\<And>l. entry_at (memory e) l (tx_idx ?v) = entry_at m1 l (tx_idx ?v)"
    using made [OF i] by auto
  note S = s(3) [unfolded serial_inv_def]
  have vers: "same_versions m s" if "m \<in> set (past e)" for m
  proof -
    have "same_versions m (memory e)"
      using ended(1,6) fin(3) that by (simp add: run_ok_def versions_inv_def)
    then show ?thesis
      using S unfolding same_versions_def by (metis committed_Some memory_entry.inject option.distinct(1))
  qed
  have later: "later_memory vm (met i) s (tx_idx ?v)"
    by (rule run_later_memory [OF ended(3) obs _ _ _ vers]) (use S world(2) in \<open>auto simp: run_coded_by_def\<close>)
  have "\<exists>flags' s'. vm_execute vm (probing (met i 1) (met i 2) s) s ?v = Some (Inr (r, flags'), s') \<and>
    serial_inv code_of (memory e) (Suc (tx_idx ?v)) s'"
    by (rule serial_step [OF ex m0 ended(4) kept _ _ _ later])
      (use ended(5,7) i s obs world in \<open>auto simp: run_injective_def run_carries_codes_def\<close>)
  then obtain flags' s' where s': "vm_execute vm (probing (met i 1) (met i 2) s) s ?v = Some (Inr (r, flags'), s')"
    "serial_inv code_of (memory e) (Suc i) s'" by auto
  have "i < length (execution_results (outcome e))"
    using ended(1,2) i by (simp add: run_ok_def engine_ok_def outcome_inv_def)
  then show ?case using s(1,2) s' r by (simp add: take_Suc_conv_app_nth)
qed

lemma run_is_serial:
  assumes run: "engine_start vm e0" "bitflags_contains c" "(engine_step c vm)\<^sup>*\<^sup>* e0 e"
    and fin: "all_exited (workers e)" "pexe_abort_reason (outcome e) = None" "length (past e) \<le> 2 ^ 64"
    and world: "run_injective vm e" "run_coded_by code_of vm e" "run_carries_codes code_of vm e"
  shows "\<exists>probe rs s. (\<forall>i < length (vm_txs vm). fst (probe i) \<in> set (past e) \<and> snd (probe i) \<in> set (past e)) \<and>
    execute_serially vm (inc (sched (workers e))) probe (length (vm_txs vm)) = Some (rs, s) \<and>
    take (length (vm_txs vm)) (execution_results (outcome e)) = map Some rs \<and>
    (\<forall>l j. entry_at s l j = committed (memory e) l j)"
proof -
  note ended = exited_run [OF run fin(1,2)]
  have "\<exists>ms. observed (past e) ms \<and>
      (\<exists>r m0 flags m1. execution_results (outcome e) ! i = Some r \<and>
         vm_execute vm ms m0 \<lparr>tx_idx = i, tx_incarnation = inc (sched (workers e)) i\<rparr> = Some (Inr (r, flags), m1) \<and>
         mv_ok m0 \<and> last_locations (memory e) ! i = last_locations m1 ! i \<and> (\<forall>l. entry_at (memory e) l i = entry_at m1 l i))"
    if "i < length (vm_txs vm)" for i
    using ended(8) [OF that] unfolding produced_def by fastforce
  then obtain met where made: "\<And>i. i < length (vm_txs vm) \<Longrightarrow> observed (past e) (met i) \<and>
      (\<exists>r m0 flags m1. execution_results (outcome e) ! i = Some r \<and>
         vm_execute vm (met i) m0 \<lparr>tx_idx = i, tx_incarnation = inc (sched (workers e)) i\<rparr> = Some (Inr (r, flags), m1) \<and>
         mv_ok m0 \<and> last_locations (memory e) ! i = last_locations m1 ! i \<and> (\<forall>l. entry_at (memory e) l i = entry_at m1 l i))"
    by metis
  obtain rs s where s: "execute_serially vm (inc (sched (workers e))) (\<lambda>i. (met i 1, met i 2)) (length (vm_txs vm)) = Some (rs, s)"
    "map Some rs = take (length (vm_txs vm)) (execution_results (outcome e))"
    "serial_inv code_of (memory e) (length (vm_txs vm)) s"
    using serial_prefix [OF assms made le_refl] by blast
  have "committed (memory e) l j = None" if "\<not> j < length (vm_txs vm)" for l j
    using that mv_okD(4) [OF ended(4), of l j] ended(5) by (auto simp: committed_def split: option.splits memory_entry.splits)
  then have "\<forall>l j. entry_at s l j = committed (memory e) l j" using s(3) unfolding serial_inv_def by (metis (full_types))
  moreover have "met i k \<in> set (past e)" if "i < length (vm_txs vm)" for i k
    using made [OF that] by (auto simp: observed_def)
  ultimately show ?thesis using s(1,2) by (intro exI [of _ "\<lambda>i. (met i 1, met i 2)"]) auto
qed

section \<open>Properties\<close>

text \<open>
  Property C1. Parallel execution is serializable. When all threads have left without an abort, in
  whatever interleaving and with whatever memories the executions met on the way, executing the
  transactions one after the other, in block order and from an empty memory, gives exactly the stored
  results and writes exactly the values the shared memory ends with. Whether a transfer to an account
  without code is evaluated lazily depends on timing: the code asks whether the memory has a place
  for its accounts yet. The serial execution decides it as the parallel one did, its two tests of keys
  meeting memories of the run, and every read meets what the transactions before wrote. Locations a
  transaction reads do not share a hash, a code hash determines its code, and revm hands over the code
  of an account it created.
\<close>

theorem parallel_run_serializable:
  assumes "engine_start vm e0" "bitflags_contains c" "(engine_step c vm)\<^sup>*\<^sup>* e0 e"
    and "all_exited (workers e)" "pexe_abort_reason (outcome e) = None" "length (past e) \<le> 2 ^ 64"
    and "run_injective vm e" "run_coded_by code_of vm e" "run_carries_codes code_of vm e"
  shows "\<exists>probe rs s. (\<forall>i < length (vm_txs vm). fst (probe i) \<in> set (past e) \<and> snd (probe i) \<in> set (past e)) \<and>
    execute_serially vm (inc (sched (workers e))) probe (length (vm_txs vm)) = Some (rs, s) \<and>
    take (length (vm_txs vm)) (execution_results (outcome e)) = map Some rs \<and>
    (\<forall>l j. entry_at s l j = committed (memory e) l j)"
  by (rule run_is_serial [OF assms])

lemma conflict_carries: "run_carries_codes code_of conflict_vm e"
proof -
  have plain: "carries_codes code_of conflict_vm db (rs_state res)" if "transfer_run s r = Inr res" for s r db res
    using that by (cases s)
      (auto simp: carries_codes_def is_new_code_def plain_account_def split: if_splits option.splits)
  have "carries_codes code_of conflict_vm db (rs_state res)"
    if a: "vm_attempt conflict_vm ms i = Some (Inr (db, res))" for ms i db res
  proof -
    obtain db0 where "i < length (vm_txs conflict_vm)"
      "run_evm (vm_transact conflict_vm (vm_txs conflict_vm ! i)) conflict_vm ms 3 db0 = Some (Inr (Inr res, db))"
      using attempt_cases [OF a] by metis
    then show ?thesis
      by (auto simp: conflict_vm_def [THEN arg_cong [of _ _ vm_transact]] vm_new_def split: option.splits sum.splits) (rule plain)
  qed
  then show ?thesis unfolding run_carries_codes_def by blast
qed

text \<open>
  In the run with a conflict both transfers end up lazy, although an execution on an empty memory
  alone would not have started lazily.
\<close>

theorem parallel_run_serializable_witness:
  "\<exists>probe s. execute_serially conflict_vm (inc conflict_final) probe 2 =
       Some ([transfer_result (- 63101) 2, transfer_result (- 63101) 2], s) \<and>
     entry_at s 9 0 = Some (Data 0 (LazySender 63100)) \<and> entry_at s 9 1 = Some (Data 1 (LazySender 63100)) \<and>
     entry_at s 8 1 = Some (Data 1 (LazyRecipient 100))"
proof -
  obtain e where run: "(engine_step (\<lambda>a b. a AND b = b) conflict_vm)\<^sup>*\<^sup>* conflict_start e" "all_exited (workers e)"
    "pexe_abort_reason (outcome e) = None" "length (past e) \<le> 2 ^ 64" "run_injective conflict_vm e"
    "run_coded_by (\<lambda>_. Eof 7) conflict_vm e"
    and m: "memory e = conflict_4" "sched (workers e) = conflict_final"
      "execution_results (outcome e) = [Some (transfer_result (- 63101) 2), Some (transfer_result (- 63101) 2)]"
    by (rule conflict_end) blast
  have "length (vm_txs conflict_vm) = 2" by (simp add: conflict_txs)
  then obtain probe rs s where s: "execute_serially conflict_vm (inc conflict_final) probe 2 = Some (rs, s)"
    "[Some (transfer_result (- 63101) 2), Some (transfer_result (- 63101) 2)] = map Some rs"
    "\<forall>l j. entry_at s l j = committed conflict_4 l j"
    using parallel_run_serializable [OF conflict_started bitflags_exists run conflict_carries] m by auto
  have "rs = [transfer_result (- 63101) 2, transfer_result (- 63101) 2]" using s(2) by (auto simp: Cons_eq_map_conv)
  moreover have "committed conflict_4 9 0 = Some (Data 0 (LazySender 63100))" "committed conflict_4 9 1 = Some (Data 1 (LazySender 63100))"
    "committed conflict_4 8 1 = Some (Data 1 (LazyRecipient 100))"
    by (simp_all add: committed_def conflict_4_def entry_at_def entry_of_def bt_get_def)
  ultimately show ?thesis using s(1,3) by metis
qed

end
