(* ===== verification/Engine_Types.thy ===== *)
theory Engine_Types
  imports Engine_Results
begin

text \<open>
  The types of the shared memory: a location of an account, of a code or of a slot only ever holds
  values of its kind, so that no read finds a value it cannot use.
\<close>

section \<open>Types\<close>

fun has_type :: "memory_location \<Rightarrow> memory_value \<Rightarrow> bool" where
  "has_type (LocBasic a) (ValBasic b) = True"
| "has_type (LocBasic a) (LazyRecipient x) = True"
| "has_type (LocBasic a) (LazySender x) = True"
| "has_type (LocCodeHash a) (ValCodeHash h) = True"
| "has_type (LocCodeHash a) SelfDestructed = True"
| "has_type (LocStorage a i) (ValStorage x) = True"
| "has_type l v = False"

fun same_kind :: "memory_location \<Rightarrow> memory_location \<Rightarrow> bool" where
  "same_kind (LocBasic a) (LocBasic b) = True"
| "same_kind (LocCodeHash a) (LocCodeHash b) = True"
| "same_kind (LocStorage a i) (LocStorage b j) = True"
| "same_kind x y = False"

lemma same_kind_type: "same_kind x y \<Longrightarrow> has_type x v \<longleftrightarrow> has_type y v"
  by (cases "(x, y)" rule: same_kind.cases; cases v) simp_all

lemma basic_type: "has_type (LocBasic a) v \<longleftrightarrow> (\<exists>b. v = ValBasic b) \<or> (\<exists>x. v = LazyRecipient x) \<or> (\<exists>x. v = LazySender x)"
  by (cases v) simp_all

section \<open>Writes\<close>

text \<open>The locations an outcome of revm may write to; with the accounts that take rewards.\<close>

definition outcome_locations :: "'eof result_and_state \<Rightarrow> memory_location set" where
  "outcome_locations res = (\<Union>(a, acct) \<in> set (rs_state res).
     {LocBasic a, LocCodeHash a} \<union> LocStorage a ` fst ` set (changed_storage_slots acct))"

definition reward_locations :: "('blob, 'eof) vm \<Rightarrow> memory_location_hash set" where
  "reward_locations vm = Set.insert (vm_beneficiary_location_hash vm)
     (case vm_reward_policy vm of RewardEthereum \<Rightarrow> {} | RewardOptimism l1 base \<Rightarrow> {l1, base})"

definition rewards_paid_to :: "address set \<Rightarrow> ('blob, 'eof) vm \<Rightarrow> bool" where
  "rewards_paid_to A vm \<longleftrightarrow> reward_locations vm \<subseteq> vm_hash vm ` LocBasic ` A"

definition writes_typed :: "('blob, 'eof) vm \<Rightarrow> memory_location set \<Rightarrow> write_set \<Rightarrow> bool" where
  "writes_typed vm Y ws \<longleftrightarrow> (\<forall>(l, v) \<in> set ws. \<exists>y \<in> Y. l = vm_hash vm y \<and> has_type y v)"

lemma writes_typed_simps [simp]:
  "writes_typed vm Y []"
  "writes_typed vm Y ((l, v) # ws) \<longleftrightarrow> (\<exists>y \<in> Y. l = vm_hash vm y \<and> has_type y v) \<and> writes_typed vm Y ws"
  "writes_typed vm Y (ws @ ws') \<longleftrightarrow> writes_typed vm Y ws \<and> writes_typed vm Y ws'"
  unfolding writes_typed_def by (simp, simp, simp add: ball_Un)

lemma writes_typed_mono: "writes_typed vm Y ws \<Longrightarrow> Y \<subseteq> Z \<Longrightarrow> writes_typed vm Z ws"
  unfolding writes_typed_def by fast

lemma touched_writes_typed:
  assumes "touched_writes vm db codes a acct = Some (ws, codes')" "{LocBasic a, LocCodeHash a} \<subseteq> Y"
  shows "writes_typed vm Y ws"
proof -
  have basic: "\<exists>y \<in> Y. vm_hash vm (LocBasic a) = vm_hash vm y \<and> has_type y v" if "has_type (LocBasic a) v" for v
    using assms(2) that by blast
  have code: "\<exists>y \<in> Y. vm_hash vm (LocCodeHash a) = vm_hash vm y \<and> has_type y (ValCodeHash h)" for h
    using assms(2) by force
  show ?thesis
    using assms(1) basic code
    by (auto simp: touched_writes_def Let_def Option.bind_eq_Some_conv split: if_splits option.splits)
qed

lemma account_writes_typed:
  assumes "account_writes vm db codes accts = Some (ws, codes')"
    and "\<forall>(a, acct) \<in> set accts. {LocBasic a, LocCodeHash a} \<union> LocStorage a ` fst ` set (changed_storage_slots acct) \<subseteq> Y"
  shows "writes_typed vm Y ws"
  using assms
proof (induction accts arbitrary: codes ws)
  case Nil
  then show ?case by simp
next
  case (Cons x accts)
  obtain a acct where x: "x = (a, acct)" by fastforce
  have Y: "{LocBasic a, LocCodeHash a} \<subseteq> Y" "LocStorage a ` fst ` set (changed_storage_slots acct) \<subseteq> Y"
    using Cons.prems(2) x by simp_all
  have IH: "account_writes vm db codes1 accts = Some (ws2, codes') \<Longrightarrow> writes_typed vm Y ws2" for codes1 ws2
    by (rule Cons.IH) (use Cons.prems(2) in simp_all)
  show ?case
  proof (cases "is_selfdestructed acct")
    case True
    with Cons.prems(1) x obtain ws1 where "account_writes vm db codes accts = Some (ws1, codes')"
      "ws = (vm_hash vm (LocCodeHash a), SelfDestructed) # ws1"
      by (auto simp: Option.bind_eq_Some_conv)
    then show ?thesis using IH Y(1) by force
  next
    case False
    obtain ws1 codes1 ws2 where first: "(if is_touched acct then touched_writes vm db codes a acct else Some ([], codes)) = Some (ws1, codes1)"
      and more: "account_writes vm db codes1 accts = Some (ws2, codes')"
      and ws: "ws = ws1 @ map (\<lambda>(slot, v). (vm_hash vm (LocStorage a slot), ValStorage v)) (changed_storage_slots acct) @ ws2"
      using Cons.prems(1) x False by (auto simp: Option.bind_eq_Some_conv)
    have "writes_typed vm Y ws1"
    proof (cases "is_touched acct")
      case True
      then show ?thesis using first touched_writes_typed [of vm db codes a acct ws1 codes1, OF _ Y(1)] by simp
    qed (use first in simp)
    moreover have "writes_typed vm Y (map (\<lambda>(slot, v). (vm_hash vm (LocStorage a slot), ValStorage v)) (changed_storage_slots acct))"
      using Y(2) unfolding writes_typed_def by force
    ultimately show ?thesis using IH [OF more] unfolding ws by simp
  qed
qed

text \<open>A reward finds an account at its location, or something that is no account but shares the hash.\<close>

lemma pay_reward_typed:
  "writes_typed vm Y ws \<Longrightarrow> fst r \<in> vm_hash vm ` LocBasic ` A \<Longrightarrow>
   (case pay_reward ws r of
      Inr ws' \<Rightarrow> writes_typed vm (Y \<union> LocBasic ` A) ws'
    | Inl e \<Rightarrow> \<exists>y \<in> Y. \<exists>a \<in> A. vm_hash vm y = vm_hash vm (LocBasic a) \<and> \<not> same_kind y (LocBasic a))"
proof (induction ws r rule: pay_reward.induct)
  case (1 recipient amount)
  then show ?case by auto
next
  case (2 l v ws recipient amount)
  from 2(2) obtain y where y: "y \<in> Y" "l = vm_hash vm y" "has_type y v" and ws: "writes_typed vm Y ws" by auto
  from 2(3) obtain a where a: "a \<in> A" "recipient = vm_hash vm (LocBasic a)" by auto
  have typed: "writes_typed vm (Y \<union> LocBasic ` A) ws" using ws by (rule writes_typed_mono) simp
  show ?case
  proof (cases "l = recipient")
    case True
    have acct: "\<exists>y \<in> Y \<union> LocBasic ` A. l = vm_hash vm y \<and> has_type y v'" if "has_type (LocBasic a) v'" for v'
      using a True that by blast
    have bad: ?thesis if "\<And>b. v \<noteq> ValBasic b" "\<And>x. v \<noteq> LazyRecipient x" "\<And>x. v \<noteq> LazySender x"
    proof -
      have "\<not> same_kind y (LocBasic a)" using that y(3) same_kind_type [of y "LocBasic a" v] by (auto simp: basic_type)
      then show ?thesis using True y a that by (cases v) auto
    qed
    then show ?thesis using True typed acct bad by (cases v) auto
  next
    case False
    have IH: "case pay_reward ws (recipient, amount) of
        Inr ws' \<Rightarrow> writes_typed vm (Y \<union> LocBasic ` A) ws'
      | Inl e \<Rightarrow> \<exists>y \<in> Y. \<exists>a \<in> A. vm_hash vm y = vm_hash vm (LocBasic a) \<and> \<not> same_kind y (LocBasic a)"
      by (rule 2(1) [OF False ws]) (use a in simp)
    then show ?thesis using False y
      by (cases "pay_reward ws (recipient, amount)") auto
  qed
qed

lemma pay_rewards_typed:
  "writes_typed vm Y ws \<Longrightarrow> fst ` set rs \<subseteq> vm_hash vm ` LocBasic ` A \<Longrightarrow>
   (case pay_rewards ws rs of
      Inr ws' \<Rightarrow> writes_typed vm (Y \<union> LocBasic ` A) ws'
    | Inl e \<Rightarrow> \<exists>y \<in> Y \<union> LocBasic ` A. \<exists>a \<in> A. vm_hash vm y = vm_hash vm (LocBasic a) \<and> \<not> same_kind y (LocBasic a))"
proof (induction rs arbitrary: Y ws)
  case Nil
  then show ?case by (auto intro: writes_typed_mono)
next
  case (Cons r rs)
  note one = pay_reward_typed [OF Cons.prems(1), of r A]
  show ?case
  proof (cases "pay_reward ws r")
    case (Inl e)
    then show ?thesis using one Cons.prems(2) by fastforce
  next
    case (Inr ws')
    then have "writes_typed vm (Y \<union> LocBasic ` A) ws'" using one Cons.prems(2) by simp
    from Cons.IH [OF this] show ?thesis using Inr Cons.prems(2) unfolding Un_assoc Un_absorb by simp
  qed
qed

lemma vm_writes_typed:
  assumes "rewards_paid_to A vm" "vm_writes vm db res codes = Some (w, codes')"
  shows "case w of
      Inr ws \<Rightarrow> writes_typed vm (outcome_locations res \<union> LocBasic ` A) ws
    | Inl e \<Rightarrow> \<exists>y \<in> outcome_locations res \<union> LocBasic ` A. \<exists>a \<in> A.
        vm_hash vm y = vm_hash vm (LocBasic a) \<and> \<not> same_kind y (LocBasic a)"
proof -
  obtain ws0 where ws: "account_writes vm db codes (rs_state res) = Some (ws0, codes')"
    and r: "apply_rewards vm (db_tx db) (ucast (rs_gas_used res)) (rs_l1_cost res) ws0 = Some w"
    using assms(2) by (auto simp: vm_writes_def Option.bind_eq_Some_conv)
  have typed: "writes_typed vm (outcome_locations res) ws0"
    by (rule account_writes_typed [OF ws]) (force simp: outcome_locations_def)
  have "\<exists>rs. w = pay_rewards ws0 rs \<and> fst ` set rs \<subseteq> reward_locations vm"
  proof (cases "vm_reward_policy vm")
    case RewardEthereum
    then show ?thesis using r
      by (intro exI [of _ "[(vm_beneficiary_location_hash vm, sat_mul (reward_gas_price vm (db_tx db)) (ucast (rs_gas_used res)))]"])
        (simp add: apply_rewards_def Let_def reward_locations_def)
  next
    case (RewardOptimism l1 base)
    show ?thesis
    proof (cases "op_source_hash (te_optimism (db_tx db)) = None")
      case False
      then show ?thesis using r RewardOptimism by (intro exI [of _ "[]"]) (simp add: apply_rewards_def Let_def)
    next
      case True
      then obtain tx cost where "w = pay_rewards ws0
          [(vm_beneficiary_location_hash vm, sat_mul (reward_gas_price vm (db_tx db)) (ucast (rs_gas_used res))), (l1, cost tx),
           (base, sat_mul (be_basefee (vm_block_env vm)) (ucast (rs_gas_used res)))]"
        using r RewardOptimism
        by (auto simp: apply_rewards_def Let_def Option.bind_eq_Some_conv simp del: pay_rewards.simps)
      then show ?thesis using RewardOptimism by (intro exI conjI) (assumption, simp add: reward_locations_def)
    qed
  qed
  then obtain rs where "w = pay_rewards ws0 rs" "fst ` set rs \<subseteq> vm_hash vm ` LocBasic ` A"
    using assms(1) unfolding rewards_paid_to_def by blast
  then show ?thesis using pay_rewards_typed [OF typed] by simp
qed

section \<open>Reads\<close>

text \<open>A memory that holds a value of another type at a location.\<close>

definition ill_typed :: "('blob, 'eof) vm \<Rightarrow> 'code mv_memory \<Rightarrow> tx_idx_t \<Rightarrow> memory_location \<Rightarrow> bool" where
  "ill_typed vm m i x \<longleftrightarrow> (\<exists>j k v. (j, Data k v) \<in> set (mem_below m (vm_hash vm x) i) \<and> \<not> has_type x v)"

lemma evaluate_lazy_ill:
  assumes "evaluate_lazy ros prev it nos add pos na = Inl InvalidMemoryValueType"
  shows "\<exists>j k v. (j, Data k v) \<in> set it \<and> \<not> has_type (LocBasic a) v"
proof (rule ccontr)
  assume "\<not> ?thesis"
  then have "\<forall>(j, e) \<in> set it. \<forall>k v. e = Data k v \<longrightarrow> has_type (LocBasic a) v" by auto
  then have "evaluate_lazy ros prev it nos add pos na \<noteq> Inl InvalidMemoryValueType"
  proof (induction it arbitrary: nos add pos na)
    case (Cons x it)
    obtain j e where x: "x = (j, e)" by (cases x)
    have IH: "evaluate_lazy ros prev it nos add pos na \<noteq> Inl InvalidMemoryValueType" for nos add pos na
      by (rule Cons.IH) (use Cons.prems in simp)
    show ?case
    proof (cases e)
      case (Data k v)
      then have "has_type (LocBasic a) v" using Cons.prems x by simp
      then show ?thesis using IH by (cases v) (simp_all add: x Data Let_def)
    qed (simp add: x)
  qed simp
  then show False using assms by blast
qed

lemma get_code_hash_well: "get_code_hash vm m db a \<noteq> Inl InvalidMemoryValueType"
  by (auto simp: get_code_hash_def Let_def and_then_Inl_iff push_origin_def map_error_def
      split: list.splits prod.splits memory_entry.splits memory_value.splits sum.splits if_splits)

lemma load_code_well: "load_code vm m h \<noteq> Inl InvalidMemoryValueType"
  by (auto simp: load_code_def and_then_Inl_iff map_error_def split: option.splits sum.splits)

lemma db_storage_ill:
  assumes "db_storage vm m db a i = Inl InvalidMemoryValueType"
  shows "ill_typed vm m (db_tx_idx db) (LocStorage a i)"
proof (cases "if db_tx_idx db > 0 then mem_below m (vm_hash vm (LocStorage a i)) (db_tx_idx db) else []")
  case Nil
  then show ?thesis using assms
    by (auto simp: db_storage_def Let_def and_then_Inl_iff push_origin_def map_error_def split: sum.splits if_splits)
next
  case (Cons e it)
  then have "e \<in> set (mem_below m (vm_hash vm (LocStorage a i)) (db_tx_idx db))" by (auto split: if_splits)
  moreover have "\<exists>j k v. e = (j, Data k v) \<and> \<not> has_type (LocStorage a i) v"
    using assms Cons
    by (cases e; cases "snd e"; cases "case snd e of Data k v \<Rightarrow> v")
      (auto simp: db_storage_def Let_def and_then_Inl_iff push_origin_def split: if_splits)
  ultimately show ?thesis unfolding ill_typed_def by blast
qed

lemma db_basic_ill:
  assumes "db_basic vm m mc mb db a = Some (Inl InvalidMemoryValueType)" "hash_basic vm db a = Some (vm_hash vm (LocBasic a))"
  shows "ill_typed vm m (db_tx_idx db) (LocBasic a)"
proof -
  let ?l = "vm_hash vm (LocBasic a)"
  have "resolve_account vm m db ?l a = Inl InvalidMemoryValueType"
  proof (rule ccontr)
    assume n: "resolve_account vm m db ?l a \<noteq> Inl InvalidMemoryValueType"
    have "complete_account vm mc mb db1 l a acct \<noteq> Inl InvalidMemoryValueType" for db1 l acct
      by (cases acct)
        (auto simp: complete_account_def Let_def and_then_Inl_iff get_code_hash_well load_code_well split: option.splits if_splits)
    then show False using assms n by (auto simp: db_basic_def and_then_Inl_iff split: if_splits)
  qed
  then have "evaluate_lazy (origins_of db ?l) (origins_of db ?l \<noteq> []) (if db_tx_idx db > 0 then mem_below m ?l (db_tx_idx db) else [])
      [] 0 True 0 = Inl InvalidMemoryValueType"
    by (auto simp: resolve_account_def Let_def and_then_Inl_iff storage_account_def split: option.splits sum.splits if_splits)
  from evaluate_lazy_ill [OF this, of a] show ?thesis by (auto simp: ill_typed_def split: if_splits)
qed

lemma db_code_by_hash_well: "db_code_by_hash vm h \<noteq> Inl InvalidMemoryValueType"
  by (auto simp: db_code_by_hash_def and_then_Inl_iff map_error_def split: option.splits sum.splits)

lemma grows_hash: "grows db db' \<Longrightarrow> hash_basic vm db' a = hash_basic vm db a"
  by (simp add: grows_def hash_basic_def)

text \<open>A run that meets a value it cannot use has read a location that holds one of another type.\<close>

lemma run_ill:
  assumes "run_evm t vm ms k db = Some (Inl InvalidMemoryValueType)"
    and "\<And>a. hash_basic vm db a = Some (vm_hash vm (LocBasic a))"
  shows "\<exists>x \<in> run_locations t vm ms k db. \<exists>k. ill_typed vm (ms k) (db_tx_idx db) x"
  using assms
proof (induction t arbitrary: k db)
  case (AskBasic a f)
  note h = AskBasic.prems(2)
  obtain r where r: "db_basic vm (ms k) (ms (k + 1)) (ms (k + 2)) db a = Some r"
    using AskBasic.prems(1) by (auto split: option.splits)
  show ?case
  proof (cases r)
    case (Inl e)
    then have "ill_typed vm (ms k) (db_tx_idx db) (LocBasic a)"
      using AskBasic.prems(1) r by (intro db_basic_ill [OF _ h]) simp
    then show ?thesis by auto
  next
    case (Inr y)
    obtain x db1 where y: "y = (x, db1)" by (cases y)
    have g: "grows db db1" using db_basic_grows [OF r [unfolded Inr y] h] by simp
    have "\<exists>z \<in> run_locations (f x) vm ms (k + 3) db1. \<exists>k. ill_typed vm (ms k) (db_tx_idx db1) z"
    proof (rule AskBasic.IH [OF rangeI])
      show "run_evm (f x) vm ms (k + 3) db1 = Some (Inl InvalidMemoryValueType)" using AskBasic.prems(1) r Inr y by simp
      show "hash_basic vm db1 a = Some (vm_hash vm (LocBasic a))" for a using h [of a] by (simp add: grows_hash [OF g])
    qed
    then show ?thesis using r Inr y grows_tx_idx [OF g] by auto
  qed
next
  case (AskCode h f)
  then show ?case using db_code_by_hash_well by (auto split: sum.splits)
next
  case (AskStorage a j f)
  note h = AskStorage.prems(2)
  show ?case
  proof (cases "db_storage vm (ms k) db a j")
    case (Inl e)
    then have "ill_typed vm (ms k) (db_tx_idx db) (LocStorage a j)"
      using AskStorage.prems(1) by (intro db_storage_ill) simp
    then show ?thesis by auto
  next
    case (Inr y)
    obtain v db1 where y: "y = (v, db1)" by (cases y)
    have g: "grows db db1" using db_storage_grows [OF Inr [unfolded y]] by simp
    have "\<exists>z \<in> run_locations (f v) vm ms (k + 3) db1. \<exists>k. ill_typed vm (ms k) (db_tx_idx db1) z"
    proof (rule AskStorage.IH [OF rangeI])
      show "run_evm (f v) vm ms (k + 3) db1 = Some (Inl InvalidMemoryValueType)" using AskStorage.prems(1) Inr y by simp
      show "hash_basic vm db1 a = Some (vm_hash vm (LocBasic a))" for a using h [of a] by (simp add: grows_hash [OF g])
    qed
    then show ?thesis using Inr y grows_tx_idx [OF g] by auto
  qed
next
  case (AskBlockHash n f)
  have "db_block_hash vm n \<noteq> Inl InvalidMemoryValueType" by (auto simp: db_block_hash_def map_error_def split: sum.splits)
  then show ?case using AskBlockHash by (auto split: sum.splits)
qed simp

abbreviation type_fault :: vm_execution_error where
  "type_fault \<equiv> VmExecutionError (Database InvalidMemoryValueType)"

lemma of_read_error_type_fault: "of_read_error e = type_fault \<longleftrightarrow> e = InvalidMemoryValueType"
  by (cases e) simp_all

lemma attempt_ill:
  assumes "vm_attempt vm ms i = Some (Inl type_fault)"
  shows "i < length (vm_txs vm)" "\<exists>x \<in> attempt_locations vm ms i. \<exists>k. ill_typed vm (ms k) i x"
proof -
  let ?new = "db_new vm (ms 0) (ms 1) (ms 2) i (vm_txs vm ! i) (from_hash_of vm i) (to_hash_of vm i)"
  note run = assms [unfolded vm_attempt_def Let_def]
  show i: "i < length (vm_txs vm)" using run by (auto simp: index_mutex_def split: if_splits)
  obtain r where new: "?new = Some r" using run i by (auto simp: Option.bind_eq_Some_conv)
  show "\<exists>x \<in> attempt_locations vm ms i. \<exists>k. ill_typed vm (ms k) i x"
  proof (cases r)
    case (Inl e)
    have "e = InvalidMemoryValueType" using run i new Inl of_read_error_type_fault by auto
    then have bad: "?new = Some (Inl InvalidMemoryValueType)" using new Inl by simp
    show ?thesis
    proof (cases "te_transact_to (vm_txs vm ! i)")
      case Create
      then show ?thesis using bad unfolding db_new_Create [OF Create] by simp
    next
      case (Call to)
      then show ?thesis using bad get_code_hash_well [of vm "ms 0" "unread_db vm i" to]
        unfolding db_new_Call [OF Call] by (auto split: sum.splits prod.splits)
    qed
  next
    case (Inr db)
    have ok: "db_ok vm ms (ms 0) 3 {} i db" by (rule db_new_ok [of vm ms, OF new [unfolded Inr]])
    obtain s where s: "run_evm (vm_transact vm (vm_txs vm ! i)) vm ms 3 db = Some s"
      using run i new Inr by (auto simp: Option.bind_eq_Some_conv)
    have "s = Inl InvalidMemoryValueType"
      using run i new Inr s of_read_error_type_fault by (auto split: sum.splits prod.splits if_splits)
    from run_ill [OF s [unfolded this] db_ok_hash [OF ok]]
    have "\<exists>x \<in> run_locations (vm_transact vm (vm_txs vm ! i)) vm ms 3 db. \<exists>k. ill_typed vm (ms k) i x"
      using ok by (simp add: db_ok_def)
    then show ?thesis using new Inr by (auto simp: attempt_locations_def Let_def)
  qed
qed

lemma execute_ill:
  assumes "vm_execute vm ms m v = Some (Inl type_fault, m')" "rewards_paid_to A vm"
  obtains (read) x k where "tx_idx v < length (vm_txs vm)" "x \<in> attempt_locations vm ms (tx_idx v)" "ill_typed vm (ms k) (tx_idx v) x"
    | (reward) db res y a where "vm_attempt vm ms (tx_idx v) = Some (Inr (db, res))" "y \<in> outcome_locations res \<union> LocBasic ` A"
      "a \<in> A" "vm_hash vm y = vm_hash vm (LocBasic a)" "\<not> same_kind y (LocBasic a)"
proof -
  obtain r where r: "vm_attempt vm ms (tx_idx v) = Some r"
    using assms by (auto simp: vm_execute_def Option.bind_eq_Some_conv)
  show thesis
  proof (cases r)
    case (Inl e)
    then have "e = type_fault" using assms(1) r by (simp add: vm_execute_def)
    then show thesis using attempt_ill [of vm ms "tx_idx v"] r Inl read by blast
  next
    case (Inr x)
    obtain db res where x: "x = (db, res)" by (cases x)
    obtain w codes where w: "vm_writes vm db res (new_bytecodes m) = Some (w, codes)"
      using assms by (auto simp: vm_execute_def r Inr x Option.bind_eq_Some_conv)
    obtain e where "w = Inl e" using assms(1) w by (cases w) (auto simp: vm_execute_def r Inr x Option.bind_eq_Some_conv)
    then obtain y a where "y \<in> outcome_locations res \<union> LocBasic ` A" "a \<in> A" "vm_hash vm y = vm_hash vm (LocBasic a)"
      "\<not> same_kind y (LocBasic a)"
      using vm_writes_typed [OF assms(2) w] by auto
    then show thesis using reward r Inr x by blast
  qed
qed

section \<open>Runs\<close>

text \<open>What the executions of a run have written to, and what they have read.\<close>

definition written_by :: "address set \<Rightarrow> ('blob, 'eof) vm \<Rightarrow> 'eof engine \<Rightarrow> memory_location set" where
  "written_by A vm e = LocBasic ` A \<union>
     \<Union> {outcome_locations res | ms i db res. observed (past e) ms \<and> vm_attempt vm ms i = Some (Inr (db, res))}"

definition read_by :: "('blob, 'eof) vm \<Rightarrow> 'eof engine \<Rightarrow> memory_location set" where
  "read_by vm e = \<Union> {attempt_locations vm ms i | ms i. observed (past e) ms \<and> i < length (vm_txs vm)}"

definition kinds_apart :: "address set \<Rightarrow> ('blob, 'eof) vm \<Rightarrow> 'eof engine \<Rightarrow> bool" where
  "kinds_apart A vm e \<longleftrightarrow> (\<forall>x \<in> read_by vm e \<union> written_by A vm e. \<forall>y \<in> written_by A vm e.
     vm_hash vm x = vm_hash vm y \<longrightarrow> same_kind x y)"

lemma written_byI: "observed (past e) ms \<Longrightarrow> vm_attempt vm ms i = Some (Inr (db, res)) \<Longrightarrow> outcome_locations res \<subseteq> written_by A vm e"
  unfolding written_by_def by blast

lemma written_by_accounts: "LocBasic ` A \<subseteq> written_by A vm e"
  by (simp add: written_by_def)

lemma read_byI: "observed (past e) ms \<Longrightarrow> i < length (vm_txs vm) \<Longrightarrow> attempt_locations vm ms i \<subseteq> read_by vm e"
  unfolding read_by_def by blast

lemma by_more:
  assumes "past e' = past e @ ms'"
  shows "written_by A vm e \<subseteq> written_by A vm e'" "read_by vm e \<subseteq> read_by vm e'"
  using observed_more [of "past e" _ ms'] unfolding written_by_def read_by_def assms by blast+

lemma kinds_apart_more: "past e' = past e @ ms' \<Longrightarrow> kinds_apart A vm e' \<Longrightarrow> kinds_apart A vm e"
  using by_more [of e' e ms'] unfolding kinds_apart_def by blast

text \<open>Every value was written to a location of its type.\<close>

definition values_written :: "address set \<Rightarrow> ('blob, 'eof) vm \<Rightarrow> 'eof engine \<Rightarrow> bool" where
  "values_written A vm e \<longleftrightarrow> (\<forall>m \<in> set (past e). \<forall>l j k v. entry_at m l j = Some (Data k v) \<longrightarrow>
     (\<exists>y \<in> written_by A vm e. l = vm_hash vm y \<and> has_type y v))"

lemma values_step:
  assumes kind: "local_kind c vm ms L L'" and ok: "mv_ok (tl_memory L)" and A: "rewards_paid_to A vm"
    and d: "entry_at (tl_memory L') l j = Some (Data k x)"
  shows "entry_at (tl_memory L) l j = Some (Data k x) \<or>
    (\<exists>i db res. vm_attempt vm ms i = Some (Inr (db, res)) \<and> (\<exists>y \<in> outcome_locations res \<union> LocBasic ` A. l = vm_hash vm y \<and> has_type y x))"
  using kind
proof (cases rule: local_kind_split)
  case (scheduled x reason)
  then show ?thesis using d mv_same [OF scheduled(5,6)] by simp
next
  case (recorded v r flags m)
  obtain db res ws where a: "vm_attempt vm ms (tx_idx v) = Some (Inr (db, res))"
    and w: "vm_writes vm db res (new_bytecodes (tl_memory L)) = Some (Inr ws, new_bytecodes m)"
    and e: "\<And>l j. entry_at m l j =
       (if j \<noteq> tx_idx v then entry_at (tl_memory L) l j
        else case map_of (rev ws) l of
               Some x \<Rightarrow> Some (Data (tx_incarnation v) x)
             | None \<Rightarrow> if l \<in> writes_of (tl_memory L) j then None else entry_at (tl_memory L) l j)"
    using vm_execute_entries [OF recorded(3) ok] by metis
  have typed: "writes_typed vm (outcome_locations res \<union> LocBasic ` A) ws" using vm_writes_typed [OF A w] by simp
  show ?thesis
  proof (cases "entry_at (tl_memory L) l j = Some (Data k x)")
    case False
    have "entry_at m l j = Some (Data k x)" using d recorded(4) by simp
    then have "j = tx_idx v \<and> map_of (rev ws) l = Some x"
      using False unfolding e [of l j] by (cases "j = tx_idx v"; cases "map_of (rev ws) l") (simp_all split: if_splits)
    then have "(l, x) \<in> set ws" by (auto dest: map_of_SomeD)
    then have "\<exists>y \<in> outcome_locations res \<union> LocBasic ` A. l = vm_hash vm y \<and> has_type y x"
      using bspec [OF typed [unfolded writes_typed_def], of "(l, x)"] by simp
    then show ?thesis using a by (intro disjI2 exI conjI)
  qed simp
next
  case (looking v \<sigma>)
  then show ?thesis using d by simp
next
  case (converted v m)
  then show ?thesis using d convert_raw(4) [OF ok converted(3), of l j] by (simp split: if_splits)
qed

abbreviation type_abort :: abort_reason_t where
  "type_abort \<equiv> AbortExecution (Database InvalidMemoryValueType)"

lemma stage_fault:
  assumes "local_kind c vm ms L L'" "tl_stage L' = Faulted type_abort"
  shows "\<exists>v m. vm_execute vm ms (tl_memory L) v = Some (Inl type_fault, m)"
  using assms(1)
proof (cases rule: local_kind.cases)
  case (execution_error v e m s reason p)
  then have "stage_of_error e = Faulted type_abort" using assms(2) by simp
  then have "e = type_fault" by (cases e) simp_all
  then show ?thesis using execution_error by blast
qed (use assms(2) in \<open>auto split: if_splits\<close>)

lemma advance_outcome: "advance c x \<sigma> L = Some L' \<Longrightarrow> tl_outcome L' = tl_outcome L"
  by (auto simp: advance_eq)

lemma abort_reason_kept:
  assumes "local_step c vm ms L = Some L'"
  shows "pexe_abort_reason (tl_outcome L') = pexe_abort_reason (tl_outcome L) \<or>
    (\<exists>r. tl_stage L = Faulted r \<and> pexe_abort_reason (tl_outcome L') = Some r)"
proof (cases "tl_pc L")
  case (HasTask t)
  with local_step_kind [OF assms] show ?thesis
    by (cases rule: local_kind.cases) (simp_all add: store_result_def)
next
  case SetReason
  then show ?thesis using assms
    by (auto simp: local_step_def get_or_init_def dest!: advance_outcome split: stage.splits option.splits)
qed (use assms in \<open>auto simp: local_step_def Option.bind_eq_Some_conv dest!: advance_outcome split: if_splits\<close>)

definition no_type_fault :: "'eof engine \<Rightarrow> bool" where
  "no_type_fault e \<longleftrightarrow> (\<forall>k < length (stages e). stages e ! k \<noteq> Faulted type_abort) \<and> pexe_abort_reason (outcome e) \<noteq> Some type_abort"

definition types_inv :: "address set \<Rightarrow> (u8 \<Rightarrow> u8 \<Rightarrow> bool) \<Rightarrow> ('blob, 'eof) vm \<Rightarrow> 'eof engine \<Rightarrow> bool" where
  "types_inv A c vm e \<longleftrightarrow> run_ok c vm e \<and>
     (rewards_paid_to A vm \<longrightarrow> values_written A vm e \<and> (kinds_apart A vm e \<longrightarrow> no_type_fault e))"

lemma no_ill_execution:
  assumes "history_inv e" "values_written A vm e" "kinds_apart A vm e" "rewards_paid_to A vm" "observed (past e) ms"
  shows "vm_execute vm ms m v \<noteq> Some (Inl type_fault, m')"
proof
  assume "vm_execute vm ms m v = Some (Inl type_fault, m')"
  from this assms(4) show False
  proof (cases rule: execute_ill)
    case (read x k)
    have past: "ms k \<in> set (past e)" using assms(5) by (auto simp: observed_def)
    then have ok: "mv_ok (ms k)" by (rule past_ok(1) [OF assms(1)])
    obtain j i w where e: "entry_at (ms k) (vm_hash vm x) j = Some (Data i w)" "\<not> has_type x w"
      using read(3) by (auto simp: ill_typed_def mem_below_set [OF ok])
    obtain y where y: "y \<in> written_by A vm e" "vm_hash vm x = vm_hash vm y" "has_type y w"
      using assms(2) past e(1) unfolding values_written_def by blast
    have "x \<in> read_by vm e" using read(1,2) read_byI [OF assms(5)] by blast
    then have "same_kind x y" using assms(3) y(1,2) unfolding kinds_apart_def by blast
    then show False using same_kind_type y(3) e(2) by blast
  next
    case (reward db res y a)
    have "y \<in> written_by A vm e" "LocBasic a \<in> written_by A vm e"
      using reward(1-3) written_byI [OF assms(5), of vm "tx_idx v" db res A] written_by_accounts [of A vm e] by blast+
    then show False using assms(3) reward(4,5) unfolding kinds_apart_def by blast
  qed
qed

lemma types_inv_start:
  assumes "engine_start vm e"
  shows "types_inv A c vm e"
proof -
  obtain t p where fm: "fresh_memory (chain_build_mv_memory (vm_chain vm))"
    and p: "pexe_abort_reason p = None" and e: "e = engine_init vm t p"
    using assms by (auto simp: engine_start_def)
  have "entry_at (chain_build_mv_memory (vm_chain vm) (vm_block_env vm) (vm_txs vm)) l j \<noteq> Some (Data k x)" for l j k x
    using fresh_memory.fresh_estimates [OF fm] by fastforce
  then show ?thesis
    using run_ok_start [OF assms] p by (simp add: types_inv_def values_written_def no_type_fault_def e reserve_results_def)
qed

lemma types_inv_step:
  assumes inv: "types_inv A c vm e" and c: "bitflags_contains c" and step: "engine_step c vm e e'"
  shows "types_inv A c vm e'"
proof -
  have ok: "run_ok c vm e" using inv by (simp add: types_inv_def)
  then have hist: "history_inv e" and len: "length (stages e) = length (pcs (workers e))"
    by (simp_all add: run_ok_def engine_ok_def engine_inv_def)
  from step obtain k ms L where e': "e' = put_local e k L" and k: "k < length (pcs (workers e))"
    and obs: "observed (past e) ms" and s: "local_step c vm ms (local_of e k) = Some L"
    by (cases rule: engine_step.cases) auto
  have kind: "local_kind c vm ms (local_of e k) L" by (rule local_step_kind [OF s])
  have past: "past e' = past e @ [tl_memory L]" by (simp add: e')
  have mem: "memory e \<in> set (past e)" "mv_ok (tl_memory (local_of e k))"
    using past_ok [OF hist] by simp_all
  have "values_written A vm e' \<and> (kinds_apart A vm e' \<longrightarrow> no_type_fault e')" if A: "rewards_paid_to A vm"
  proof (intro conjI impI)
    have old: "values_written A vm e" using inv A by (simp add: types_inv_def)
    show "values_written A vm e'"
      unfolding values_written_def
    proof (intro ballI allI impI)
      fix m l j n x assume m: "m \<in> set (past e')" and d: "entry_at m l j = Some (Data n x)"
      have was: "\<exists>y \<in> written_by A vm e'. l = vm_hash vm y \<and> has_type y x" if "m' \<in> set (past e)" "entry_at m' l j = Some (Data n x)" for m'
        using old that by_more(1) [OF past, of A vm] unfolding values_written_def by blast
      show "\<exists>y \<in> written_by A vm e'. l = vm_hash vm y \<and> has_type y x"
      proof (cases "m \<in> set (past e)")
        case False
        then have "entry_at (tl_memory L) l j = Some (Data n x)" using m d past by simp
        from values_step [OF kind mem(2) A this] show ?thesis
        proof
          assume "entry_at (tl_memory (local_of e k)) l j = Some (Data n x)"
          then show ?thesis using was [OF mem(1)] by simp
        next
          assume "\<exists>i db res. vm_attempt vm ms i = Some (Inr (db, res)) \<and>
            (\<exists>y \<in> outcome_locations res \<union> LocBasic ` A. l = vm_hash vm y \<and> has_type y x)"
          then obtain i db res y where a: "vm_attempt vm ms i = Some (Inr (db, res))"
            and y: "y \<in> outcome_locations res \<union> LocBasic ` A" "l = vm_hash vm y" "has_type y x" by blast
          have "y \<in> written_by A vm e"
            using y(1) written_byI [OF obs a, of A] written_by_accounts [of A vm e] by blast
          then show ?thesis using y(2,3) by_more(1) [OF past, of A vm] by blast
        qed
      qed (use was d in blast)
    qed
    assume "kinds_apart A vm e'"
    then have apart: "kinds_apart A vm e" by (rule kinds_apart_more [OF past])
    then have none: "no_type_fault e" using inv A by (simp add: types_inv_def)
    have "tl_stage L \<noteq> Faulted type_abort"
      using stage_fault [OF kind] no_ill_execution [OF hist old apart A obs] by blast
    moreover have "pexe_abort_reason (tl_outcome L) \<noteq> Some type_abort"
      using abort_reason_kept [OF s] none k len by (auto simp: no_type_fault_def)
    ultimately show "no_type_fault e'"
      using none unfolding no_type_fault_def e' put_local_simps
      by (metis length_list_update nth_list_update_eq nth_list_update_neq)
  qed
  then show ?thesis using run_ok_step [OF ok c step] by (simp add: types_inv_def)
qed

interpretation engine_types: transition_invariant "engine_start vm" "proper_step c vm" "types_inv A c vm" for vm c A
  by unfold_locales (auto simp: proper_step_def intro: types_inv_start types_inv_step)

lemma types_reachable:
  assumes "engine_start vm e0" "bitflags_contains c" "(engine_step c vm)\<^sup>*\<^sup>* e0 e"
  shows "types_inv A c vm e"
  using engine_types.inv_reachable [OF assms(1), of c e] assms(2,3) by (simp add: proper_step_def [abs_def])

lemma run_well_typed:
  assumes "engine_start vm e0" "bitflags_contains c" "(engine_step c vm)\<^sup>*\<^sup>* e0 e"
    and "rewards_paid_to A vm" "kinds_apart A vm e" "x \<in> read_by vm e \<union> written_by A vm e"
  shows "(entry_at (memory e) (vm_hash vm x) j = Some (Data k v) \<longrightarrow> has_type x v) \<and>
    pexe_abort_reason (outcome e) \<noteq> Some type_abort"
proof -
  have inv: "types_inv A c vm e" by (rule types_reachable [OF assms(1-3)])
  then have "no_type_fault e" and written: "values_written A vm e" using assms(4,5) by (simp_all add: types_inv_def)
  moreover have "has_type x v" if e: "entry_at (memory e) (vm_hash vm x) j = Some (Data k v)"
  proof -
    have "memory e \<in> set (past e)" using inv past_ok(2) [of e] by (simp add: types_inv_def run_ok_def)
    then obtain y where y: "y \<in> written_by A vm e" "vm_hash vm x = vm_hash vm y" "has_type y v"
      using written e unfolding values_written_def by blast
    then have "same_kind x y" using assms(5,6) unfolding kinds_apart_def by blast
    then show ?thesis using y(3) same_kind_type by blast
  qed
  ultimately show ?thesis by (simp add: no_type_fault_def)
qed

section \<open>Properties\<close>

text \<open>
  Property C5. The shared memory is well typed. In every reachable state of the engine, a location
  that some execution has read or written holds values of its kind only: an account's balances and
  lazy updates, a code's hash or its destruction, a slot's word. So no read ever finds a value of a type
  it cannot use, and the block is never aborted for one. Rewards are paid to accounts, as both chains
  do, and locations of different kinds that are read or written do not share a hash.
\<close>

theorem memory_well_typed:
  assumes "engine_start vm e0" "bitflags_contains c" "(engine_step c vm)\<^sup>*\<^sup>* e0 e"
    and "rewards_paid_to A vm" "kinds_apart A vm e" "x \<in> read_by vm e \<union> written_by A vm e"
  shows "(entry_at (memory e) (vm_hash vm x) j = Some (Data k v) \<longrightarrow> has_type x v) \<and>
    pexe_abort_reason (outcome e) \<noteq> Some (AbortExecution (Database InvalidMemoryValueType))"
  by (rule run_well_typed [OF assms])

lemma example_one_outcome:
  assumes "vm_attempt example_one_vm ms i = Some (Inr (db, res))"
  shows "outcome_locations res = {LocBasic 1, LocCodeHash 1, LocStorage 1 0}"
proof (cases "i < 1")
  case True
  then show ?thesis using assms
    by (auto simp: vm_attempt_def example_one_vm_def vm_new_def example_tx_env_def db_new_def example_run_def Let_def
        outcome_locations_def split: sum.splits)
next
  case False
  then show ?thesis using assms example_one_txs by (simp add: vm_attempt_def index_mutex_def)
qed

theorem memory_well_typed_witness:
  "\<exists>e. (engine_step (\<lambda>a b. a AND b = b) example_one_vm)\<^sup>*\<^sup>* example_one_start e \<and>
     entry_at (memory e) (vm_hash example_one_vm (LocBasic 3)) 0 = Some (Data 0 (LazyRecipient 42000)) \<and>
     has_type (LocBasic 3) (LazyRecipient 42000) \<and>
     pexe_abort_reason (outcome e) \<noteq> Some (AbortExecution (Database InvalidMemoryValueType))"
proof -
  obtain e where run: "(engine_step (\<lambda>a b. a AND b = b) example_one_vm)\<^sup>*\<^sup>* example_one_start e"
    and m: "memory e = example_one_memory"
    by (rule example_one_end)
  have h: "vm_hash example_one_vm = example_hash" by (simp add: example_one_vm_def vm_new_def)
  have paid: "rewards_paid_to {3} example_one_vm"
    by (simp add: rewards_paid_to_def reward_locations_def example_one_vm_def vm_new_def pevm_ethereum_def example_block_env_def)
  have "length (vm_txs example_one_vm) = 1" by (simp add: example_one_txs)
  then have "read_by example_one_vm e \<subseteq> {LocStorage 1 0}"
    using example_one_locations unfolding read_by_def by (simp, blast)
  moreover have "written_by {3} example_one_vm e \<subseteq> {LocBasic 3, LocBasic 1, LocCodeHash 1, LocStorage 1 0}"
    using example_one_outcome unfolding written_by_def by (simp, blast)
  ultimately have "read_by example_one_vm e \<union> written_by {3} example_one_vm e \<subseteq> {LocBasic 3, LocBasic 1, LocCodeHash 1, LocStorage 1 0}"
    by blast
  moreover have "same_kind x y" if "x \<in> {LocBasic 3, LocBasic 1, LocCodeHash 1, LocStorage 1 0}"
    "y \<in> {LocBasic 3, LocBasic 1, LocCodeHash 1, LocStorage 1 0}" "example_hash x = example_hash y" for x y
    using that by auto
  ultimately have apart: "kinds_apart {3} example_one_vm e"
    unfolding kinds_apart_def h by blast
  have "LocBasic 3 \<in> read_by example_one_vm e \<union> written_by {3} example_one_vm e"
    using written_by_accounts by blast
  note typed = memory_well_typed [OF example_one_started bitflags_exists run paid apart this]
  have "entry_at (memory e) (vm_hash example_one_vm (LocBasic 3)) 0 = Some (Data 0 (LazyRecipient 42000))"
    by (simp add: m h example_one_memory_def entry_at_def entry_of_def bt_get_def)
  then show ?thesis using run typed by blast
qed

end
