(* ===== verification/Lazy_Accounts.thy ===== *)
theory Lazy_Accounts
  imports Pexe_Block
begin

text \<open>
  The two evaluations of lazily updated accounts. While the block runs, \<^verbatim>\<open>VmDb::basic\<close> goes back
  from the reader with a magnitude and a sign; once it is done, \<^verbatim>\<open>pexe.rs\<close> goes forward with a
  saturating balance. Both are compared with the sum over the integers.
\<close>

section \<open>Words as integers\<close>

lemma uint_sat_add: "uint (sat_add a b) = min (uint a + uint b) (2 ^ LENGTH('a) - 1)"
  for a b :: "'a::len word"
proof -
  have "int (min m n) = min (int m) (int n)" for m n by (simp add: min_def)
  moreover have "int (2 ^ LENGTH('a) - 1) = 2 ^ LENGTH('a) - 1" by (simp add: of_nat_diff)
  moreover have "uint (sat_add a b) = int (unat (sat_add a b))" by simp
  ultimately have "uint (sat_add a b) = min (int (unat a + unat b)) (2 ^ LENGTH('a) - 1)"
    by (simp only: unat_sat_add)
  then show ?thesis by simp
qed

lemma uint_sat_sub: "uint (sat_sub a b) = max (uint a - uint b) 0"
  for a b :: "'a::len word"
proof -
  have "uint (sat_sub a b) = int (unat (sat_sub a b))" by simp
  also have "\<dots> = max (int (unat a) - int (unat b)) 0" unfolding unat_sat_sub by linarith
  finally show ?thesis by simp
qed

lemma uint_abs_diff: "uint (abs_diff a b) = \<bar>uint a - uint b\<bar>"
  for a b :: "'a::len word"
proof -
  have "uint (abs_diff a b) = int (unat (abs_diff a b))" by simp
  also have "\<dots> = \<bar>int (unat a) - int (unat b)\<bar>" unfolding unat_abs_diff by (split if_split) linarith
  finally show ?thesis by simp
qed

section \<open>The reference\<close>

fun settle_int :: "int \<times> u64 \<Rightarrow> memory_entry \<Rightarrow> int \<times> u64" where
  "settle_int s (Data inc (ValBasic b)) = (uint (balance b), nonce b)"
| "settle_int s (Data inc (LazyRecipient x)) = (fst s + uint x, snd s)"
| "settle_int s (Data inc (LazySender x)) = (fst s - uint x, snd s + 1)"
| "settle_int s e = s"

text \<open>The account after the first \<open>k\<close> entries.\<close>

definition settled_at :: "int \<times> u64 \<Rightarrow> (tx_idx_t \<times> memory_entry) list \<Rightarrow> nat \<Rightarrow> int \<times> u64" where
  "settled_at s h k = foldl settle_int s (map snd (take k h))"

text \<open>Balances are amounts of the chain's currency: no account ever holds \<open>2 ^ 256\<close> of it, or a debt.\<close>

definition balances_exact :: "int \<times> u64 \<Rightarrow> (tx_idx_t \<times> memory_entry) list \<Rightarrow> bool" where
  "balances_exact s h \<longleftrightarrow> (\<forall>k \<le> length h. 0 \<le> fst (settled_at s h k) \<and> fst (settled_at s h k) < 2 ^ 256)"

fun account_entry :: "memory_entry \<Rightarrow> bool" where
  "account_entry (Data inc (ValBasic b)) = True"
| "account_entry (Data inc (LazyRecipient x)) = True"
| "account_entry (Data inc (LazySender x)) = True"
| "account_entry e = False"

lemma settled_at_0 [simp]: "settled_at s h 0 = s"
  by (simp add: settled_at_def)

lemma settled_at_Cons [simp]: "settled_at s ((j, e) # h) (Suc k) = settled_at (settle_int s e) h k"
  by (simp add: settled_at_def)

lemma settled_at_append: "k \<le> length h \<Longrightarrow> settled_at s (h @ h') k = settled_at s h k"
  by (simp add: settled_at_def)

lemma settled_at_snoc: "settled_at s (h @ [(j, e)]) (Suc (length h)) = settle_int (settled_at s h (length h)) e"
  by (simp add: settled_at_def)

lemma balances_exact_start: "balances_exact s h \<Longrightarrow> 0 \<le> fst s \<and> fst s < 2 ^ 256"
  unfolding balances_exact_def by (drule spec [of _ 0]) simp

lemma balances_exact_Cons: "balances_exact s ((j, e) # h) \<Longrightarrow> balances_exact (settle_int s e) h"
  unfolding balances_exact_def using settled_at_Cons [of s j e h] by force

lemma balances_exact_snoc:
  assumes "balances_exact s (h @ [(j, e)])"
  shows "balances_exact s h"
    "0 \<le> fst (settle_int (settled_at s h (length h)) e)" "fst (settle_int (settled_at s h (length h)) e) < 2 ^ 256"
proof -
  note all = assms [unfolded balances_exact_def, rule_format]
  show "balances_exact s h"
    unfolding balances_exact_def
  proof (intro allI impI)
    fix k assume "k \<le> length h"
    then show "0 \<le> fst (settled_at s h k) \<and> fst (settled_at s h k) < 2 ^ 256"
      using all [of k] settled_at_append [of k h s "[(j, e)]"] by simp
  qed
  show "0 \<le> fst (settle_int (settled_at s h (length h)) e)" "fst (settle_int (settled_at s h (length h)) e) < 2 ^ 256"
    using all [of "Suc (length h)"] by (simp_all add: settled_at_snoc)
qed

section \<open>Forward\<close>

lemma uint_sat_add_exact: "uint a + uint b < 2 ^ 256 \<Longrightarrow> uint (sat_add a b) = uint a + uint b"
  for a b :: u256
  by (subst uint_sat_add) simp

lemma uint_sat_sub_exact: "0 \<le> uint a - uint b \<Longrightarrow> uint (sat_sub a b) = uint a - uint b"
  by (subst uint_sat_sub) simp

text \<open>What is left of the evaluation where it succeeds.\<close>

fun settle_word :: "u256 \<times> u64 \<Rightarrow> memory_entry \<Rightarrow> u256 \<times> u64" where
  "settle_word s (Data inc (ValBasic b)) = (balance b, nonce b)"
| "settle_word s (Data inc (LazyRecipient x)) = (sat_add (fst s) x, snd s)"
| "settle_word s (Data inc (LazySender x)) = (sat_sub (fst s) x, snd s + 1)"
| "settle_word s e = s"

abbreviation settled_in :: "('blob, 'eof) vm \<Rightarrow> address \<Rightarrow> b256 option \<Rightarrow> evm_code option \<Rightarrow> u256 \<times> u64
    \<Rightarrow> pexe_tx_execution_result \<Rightarrow> pexe_tx_execution_result" where
  "settled_in vm \<equiv> settle_result (chain_eip_161 (vm_chain vm) (vm_spec_id vm))"

primrec settle_all ::
    "(u256 \<times> u64 \<Rightarrow> pexe_tx_execution_result \<Rightarrow> pexe_tx_execution_result) \<Rightarrow> (tx_idx_t \<times> memory_entry) list \<Rightarrow> u256 \<times> u64
       \<Rightarrow> pexe_tx_execution_result list \<Rightarrow> pexe_tx_execution_result list" where
  "settle_all f [] acct results = results"
| "settle_all f (x # h) acct results =
     (let acct' = settle_word acct (snd x) in settle_all f h acct' (results[fst x := f acct' (results ! fst x)]))"

lemma and_try_Inr_iff: "and_try r f = Some (Inr y) \<longleftrightarrow> (\<exists>x. r = Some (Inr x) \<and> f x = Some (Inr y))"
  by (auto simp: and_try_def split: option.splits sum.splits)

lemma settle_entry_word: "settle_entry tx acct e = Some (Inr acct') \<Longrightarrow> acct' = settle_word acct e \<and> account_entry e"
  by (cases "(acct, e)" rule: settle_word.cases) (auto simp: settle_entry_def split: if_splits)

lemma evaluate_history_settles:
  assumes "evaluate_history vm a ch code h acct results = (Some (Inr results') :: ('be, 'te) pexe_result)"
  shows "results' = settle_all (settled_in vm a ch code) h acct results \<and>
    list_all (\<lambda>(i, e). i < length results \<and> account_entry e) h"
  using assms
proof (induction h arbitrary: acct results)
  case (Cons x h)
  obtain i e where x: "x = (i, e)" by (cases x)
  let ?acct = "settle_word acct e"
  have "i < length results \<and> account_entry e \<and>
    evaluate_history vm a ch code h ?acct (results[i := settled_in vm a ch code ?acct (results ! i)]) =
      (Some (Inr results') :: ('be, 'te) pexe_result)"
    using Cons.prems
    by (auto simp: x Option.bind_eq_Some_conv index_mutex_Some_iff and_try_Inr_iff dest!: settle_entry_word)
  then show ?case using Cons.IH [of ?acct "results[i := settled_in vm a ch code ?acct (results ! i)]"] by (simp add: x Let_def)
qed simp

lemma settle_all_length [simp]: "length (settle_all f h acct results) = length results"
  by (induction h arbitrary: acct results) (simp_all add: Let_def)

lemma settle_all_other: "j \<notin> fst ` set h \<Longrightarrow> settle_all f h acct results ! j = results ! j"
  by (induction h arbitrary: acct results) (simp_all add: Let_def)

lemma settle_all_nth:
  "k < length h \<Longrightarrow> distinct (map fst h) \<Longrightarrow> \<forall>x \<in> set h. fst x < length results \<Longrightarrow>
   settle_all f h acct results ! fst (h ! k) = f (foldl settle_word acct (map snd (take (Suc k) h))) (results ! fst (h ! k))"
proof (induction h arbitrary: k acct results)
  case (Cons x h)
  show ?case
  proof (cases k)
    case 0
    with Cons.prems show ?thesis by (simp add: Let_def settle_all_other)
  next
    case (Suc k')
    from Suc Cons.prems(1) have "fst (h ! k') \<in> set (map fst h)" by simp
    moreover have "fst x \<notin> set (map fst h)" using Cons.prems(2) by simp
    ultimately have "fst (h ! k') \<noteq> fst x" by metis
    with Cons.prems Suc Cons.IH [of k' "results[fst x := f (settle_word acct (snd x)) (results ! fst x)]"
        "settle_word acct (snd x)"] show ?thesis by (simp add: Let_def)
  qed
qed simp

lemma settle_word_exact:
  assumes "account_entry e" "0 \<le> fst (settle_int (uint w, n) e)" "fst (settle_int (uint w, n) e) < 2 ^ 256"
  shows "settle_int (uint w, n) e = (uint (fst (settle_word (w, n) e)), snd (settle_word (w, n) e))"
  using assms
  by (cases "((w, n), e)" rule: settle_word.cases) (simp_all add: uint_sat_add_exact uint_sat_sub_exact)

lemma settle_words_exact:
  assumes "list_all (\<lambda>x. account_entry (snd x)) h" "balances_exact (uint w, n) h" "k \<le> length h"
  shows "settled_at (uint w, n) h k =
    (uint (fst (foldl settle_word (w, n) (map snd (take k h)))), snd (foldl settle_word (w, n) (map snd (take k h))))"
  using assms
proof (induction h arbitrary: w n k)
  case (Cons x h)
  obtain i e where x: "x = (i, e)" by (cases x)
  note exact = balances_exact_Cons [OF Cons.prems(2) [unfolded x]]
  show ?case
  proof (cases k)
    case (Suc k')
    obtain w' n' where s: "settle_word (w, n) e = (w', n')" by (cases "settle_word (w, n) e")
    have e: "settle_int (uint w, n) e = (uint w', n')"
      using settle_word_exact [of e w n] Cons.prems(1) balances_exact_start [OF exact] s by (simp add: x)
    have "settled_at (uint w', n') h k' =
        (uint (fst (foldl settle_word (w', n') (map snd (take k' h)))), snd (foldl settle_word (w', n') (map snd (take k' h))))"
      using Cons.prems(1,3) exact e Suc by (intro Cons.IH) (simp_all add: x)
    then show ?thesis using e s Suc by (simp add: x)
  qed simp
qed simp

section \<open>Backward\<close>

definition signed_sum :: "u256 \<Rightarrow> bool \<Rightarrow> int" where
  "signed_sum add pos = (if pos then uint add else - uint add)"

lemma signed_sum_add:
  "\<bar>signed_sum add pos + uint x\<bar> < 2 ^ 256 \<Longrightarrow>
   (if pos then signed_sum (sat_add add x) True else signed_sum (abs_diff add x) (add \<le> x)) = signed_sum add pos + uint x"
  by (auto simp: signed_sum_def uint_sat_add_exact uint_abs_diff word_le_def)

lemma signed_sum_sub:
  "\<bar>signed_sum add pos - uint x\<bar> < 2 ^ 256 \<Longrightarrow>
   (if pos then signed_sum (abs_diff add x) (x \<le> add) else signed_sum (sat_add add x) False) = signed_sum add pos - uint x"
  by (auto simp: signed_sum_def uint_sat_add_exact uint_abs_diff word_le_def)

lemma evaluate_lazy_exact:
  assumes "list_all (\<lambda>x. account_entry (snd x)) h" "balances_exact s h"
    and "fst (settled_at s h (length h)) + signed_sum add pos = t" "0 \<le> t" "t < 2 ^ 256"
  shows "\<exists>final nos' add' pos' na'. evaluate_lazy ros False (rev h) nos add pos na = Inr (final, nos', add', pos', na') \<and>
    (case final of
       Some b \<Rightarrow> t = uint (balance b) + signed_sum add' pos' \<and> snd (settled_at s h (length h)) + na = nonce b + na'
     | None \<Rightarrow> t = fst s + signed_sum add' pos' \<and> snd (settled_at s h (length h)) + na = snd s + na')"
  using assms
proof (induction h arbitrary: nos add pos na rule: rev_induct)
  case Nil
  then show ?case by simp
next
  case (snoc x h)
  obtain i e where x: "x = (i, e)" by (cases x)
  note exact = balances_exact_snoc [OF snoc.prems(2) [unfolded x]]
  let ?S = "settled_at s h (length h)"
  have S: "settled_at s (h @ [x]) (length (h @ [x])) = settle_int ?S e"
    by (simp add: x settled_at_snoc)
  have range: "0 \<le> fst ?S" "fst ?S < 2 ^ 256"
    using exact(1) by (simp_all add: balances_exact_def)
  note IH = snoc.IH [OF _ exact(1) _ snoc.prems(4,5)]
  have h: "list_all (\<lambda>x. account_entry (snd x)) h" using snoc.prems(1) by simp
  from snoc.prems(1) have "account_entry e" by (simp add: x)
  then consider (basic) inc b where "e = Data inc (ValBasic b)" | (recipient) inc y where "e = Data inc (LazyRecipient y)"
    | (sender) inc y where "e = Data inc (LazySender y)"
    by (cases e rule: account_entry.cases) auto
  then show ?case
  proof cases
    case basic
    note S' = S [unfolded basic settle_int.simps]
    show ?thesis unfolding S' snd_conv fst_conv using snoc.prems(3) S basic by (simp add: x)
  next
    case recipient
    note S' = S [unfolded recipient settle_int.simps]
    have sum: "signed_sum add pos + uint y = t - fst ?S" using snoc.prems(3) S recipient by simp
    have "\<bar>signed_sum add pos + uint y\<bar> < 2 ^ 256" using sum range snoc.prems(4,5) by linarith
    note new = signed_sum_add [OF this]
    let ?o = "OriginMvMemory \<lparr>tx_idx = i, tx_incarnation = inc\<rparr>"
    show ?thesis
    proof (cases pos)
      case True
      then show ?thesis
        unfolding S' snd_conv fst_conv using IH [OF h, of "sat_add add y" True "nos @ [?o]" na] new sum recipient by (simp add: x)
    next
      case False
      then show ?thesis
        unfolding S' snd_conv fst_conv using IH [OF h, of "abs_diff add y" "add \<le> y" "nos @ [?o]" na] new sum recipient by (simp add: x)
    qed
  next
    case sender
    have nonces: "snd ?S + 1 + na = snd ?S + (na + 1)" by (simp only: add.assoc add.commute [of 1 na])
    note S' = S [unfolded sender settle_int.simps]
    have sum: "signed_sum add pos - uint y = t - fst ?S" using snoc.prems(3) S sender by simp
    have "\<bar>signed_sum add pos - uint y\<bar> < 2 ^ 256" using sum range snoc.prems(4,5) by linarith
    note new = signed_sum_sub [OF this]
    let ?o = "OriginMvMemory \<lparr>tx_idx = i, tx_incarnation = inc\<rparr>"
    show ?thesis
    proof (cases pos)
      case True
      then show ?thesis
        unfolding S' snd_conv fst_conv nonces using IH [OF h, of "abs_diff add y" "y \<le> add" "nos @ [?o]" "na + 1"] new sum sender
        by (simp add: x)
    next
      case False
      then show ?thesis
        unfolding S' snd_conv fst_conv nonces using IH [OF h, of "sat_add add y" False "nos @ [?o]" "na + 1"] new sum sender
        by (simp add: x)
    qed
  qed
qed

section \<open>Both\<close>

lemma bt_below_take:
  assumes "bt_ok bt" "k < length bt"
  shows "bt_below bt (Suc (fst (bt ! k))) = rev (take (Suc k) bt)"
proof -
  have "takeWhile (\<lambda>(j, _). j < Suc (fst (bt ! k))) bt = take (Suc k) bt"
    using assms
  proof (induction bt arbitrary: k)
    case (Cons x bt)
    obtain j e where x: "x = (j, e)" by (cases x)
    show ?case
    proof (cases k)
      case 0
      have "takeWhile (\<lambda>(i, _). i < Suc j) bt = []"
        using Cons.prems(1) by (cases bt) (auto simp: x bt_ok_Cons)
      with 0 show ?thesis by (simp add: x)
    next
      case (Suc k')
      then have "bt ! k' \<in> set bt" using Cons.prems(2) by simp
      then have "j < fst (bt ! k')" using Cons.prems(1) by (force simp: x bt_ok_Cons)
      with Suc Cons.prems Cons.IH [of k'] show ?thesis by (simp add: x bt_ok_Cons less_SucI)
    qed
  qed simp
  then show ?thesis by (simp add: bt_below_def)
qed

lemma balances_exact_take: "balances_exact s h \<Longrightarrow> balances_exact s (take k h)"
  unfolding balances_exact_def settled_at_def by (auto simp: min_def)

text \<open>The account of storage before the block.\<close>

definition storage_start :: "('blob, 'eof) vm \<Rightarrow> address \<Rightarrow> int \<times> u64" where
  "storage_start vm a =
     (case st_basic (vm_storage vm) a of Inr (Some b) \<Rightarrow> (uint (balance b), nonce b) | _ \<Rightarrow> (0, 0))"

text \<open>What \<^verbatim>\<open>basic\<close> answers on a first read of settled entries.\<close>

lemma resolve_account_settled:
  assumes "resolve_account vm m db l a = Inr ((Some account, add, pos, na), db1)" "origins_of db l = []"
    and "mem_below m l (db_tx_idx db) = rev h" "0 < db_tx_idx db"
    and "list_all (\<lambda>x. account_entry (snd x)) h"
    and "balances_exact (storage_start vm a) h" (is "balances_exact ?s h")
  shows "uint (balance account) + signed_sum add pos = fst (settled_at ?s h (length h))"
    "nonce account + na = snd (settled_at ?s h (length h))"
proof -
  have t: "0 \<le> fst (settled_at ?s h (length h))" "fst (settled_at ?s h (length h)) < 2 ^ 256"
    using assms(6) by (simp_all add: balances_exact_def)
  obtain final nos' add' pos' na' where ev: "evaluate_lazy [] False (rev h) [] 0 True 0 = Inr (final, nos', add', pos', na')"
    and val: "case final of
       Some b \<Rightarrow> fst (settled_at ?s h (length h)) = uint (balance b) + signed_sum add' pos' \<and>
         snd (settled_at ?s h (length h)) + 0 = nonce b + na'
     | None \<Rightarrow> fst (settled_at ?s h (length h)) = fst ?s + signed_sum add' pos' \<and>
         snd (settled_at ?s h (length h)) + 0 = snd ?s + na'"
    using evaluate_lazy_exact [OF assms(5,6), of 0 True "fst (settled_at ?s h (length h))" "[]" "[]" 0] t
    by (auto simp: signed_sum_def)
  show "uint (balance account) + signed_sum add pos = fst (settled_at ?s h (length h))"
    "nonce account + na = snd (settled_at ?s h (length h))"
    using assms(1-4) ev val
    by (auto simp: resolve_account_def and_then_Inr_iff storage_account_def default_account_def storage_start_def
        split: option.splits sum.splits if_splits)
qed

lemma initial_account_settles:
  assumes "balances_exact (storage_start vm a) bt"
  shows "balances_exact (uint (fst (initial_account vm a bt)), snd (initial_account vm a bt)) bt \<and>
    (\<forall>k < length bt. settled_at (uint (fst (initial_account vm a bt)), snd (initial_account vm a bt)) bt (Suc k) =
       settled_at (storage_start vm a) bt (Suc k))"
proof (cases "\<exists>j inc b rest. bt = (j, Data inc (ValBasic b)) # rest")
  case True
  then obtain j inc b rest where bt: "bt = (j, Data inc (ValBasic b)) # rest" by blast
  have later: "settled_at s bt (Suc k) = settled_at (uint (balance b), nonce b) rest k" for s k
    by (simp add: bt)
  have "balances_exact (0, 0) bt"
    unfolding balances_exact_def
  proof (intro allI impI)
    fix k assume k: "k \<le> length bt"
    show "0 \<le> fst (settled_at (0, 0) bt k) \<and> fst (settled_at (0, 0) bt k) < 2 ^ 256"
    proof (cases k)
      case (Suc k')
      show ?thesis
        using assms [unfolded balances_exact_def, rule_format, OF k] unfolding Suc later .
    qed simp
  qed
  then show ?thesis unfolding later by (simp add: initial_account_def bt)
next
  case False
  have "(uint (fst (initial_account vm a bt)), snd (initial_account vm a bt)) = storage_start vm a"
    using False
    by (auto simp: initial_account_def storage_start_def split: list.splits prod.splits memory_entry.splits
        memory_value.splits sum.splits option.splits)
  then show ?thesis using assms by simp
qed

text \<open>
  Property C7. The two evaluations of lazily updated accounts agree. Where the end of the block
  settles an address, the balance and the nonce it puts into the result of a transaction are those a
  transaction right after it reads from the memory, when it finds an account at all; where it clears
  the account, they are zero. No balance leaves the range of the currency on the way.
\<close>

theorem lazy_evaluations_agree:
  assumes "mv_ok m" "data m (vm_hash vm (LocBasic a)) = Some bt" "k < length bt"
    and ev: "evaluate_address vm m a results = (Some (Inr results') :: ('be, 'te) pexe_result)"
    and exact: "balances_exact (storage_start vm a) bt"
    and db: "db_tx_idx db = Suc (fst (bt ! k))" "hash_basic vm db a = Some (vm_hash vm (LocBasic a))"
      "origins_of db (vm_hash vm (LocBasic a)) = []" "\<not> db_is_lazy db"
    and read: "db_basic vm m mc mb db a = Some (Inr (Some info, db'))"
  shows "\<exists>x. per_state (results' ! fst (bt ! k)) a = Some x \<and>
    (case x of
       Some acct \<Rightarrow> ea_balance acct = info_balance info \<and> ea_nonce acct = info_nonce info
     | None \<Rightarrow> info_balance info = 0 \<and> info_nonce info = 0)"
proof -
  let ?l = "vm_hash vm (LocBasic a)" and ?h = "take (Suc k) bt"
  have bt: "bt_ok bt" using assms(1,2) by (auto simp: mv_ok_def data_ok_def)
  let ?w = "initial_account vm a bt"
  obtain ch code where "evaluate_history vm a ch code bt ?w results = (Some (Inr results') :: ('be, 'te) pexe_result)"
    using ev assms(2) by (auto simp: evaluate_address_def and_try_Inr_iff)
  from evaluate_history_settles [OF this]
  have res: "results' = settle_all (settled_in vm a ch code) bt ?w results"
    and idx: "\<forall>x \<in> set bt. fst x < length results" and entries: "list_all (\<lambda>x. account_entry (snd x)) bt"
    by (auto simp: list_all_iff)
  define acct where "acct = foldl settle_word ?w (map snd ?h)"
  have settled: "results' ! fst (bt ! k) = settled_in vm a ch code acct (results ! fst (bt ! k))"
    unfolding res acct_def by (rule settle_all_nth [OF assms(3) bt_ok_distinct [OF bt] idx])
  have at: "settled_at (storage_start vm a) bt (Suc k) = (uint (fst acct), snd acct)"
    using initial_account_settles [OF exact] settle_words_exact [OF entries, of "fst ?w" "snd ?w" "Suc k"] assms(3)
    by (simp add: acct_def)
  have h: "settled_at (storage_start vm a) ?h (length ?h) = (uint (fst acct), snd acct)"
    using at assms(3) by (simp add: settled_at_def)
  obtain account add pos na db1 where res: "resolve_account vm m db ?l a = Inr ((Some account, add, pos, na), db1)"
    and comp: "complete_account vm mc mb db1 ?l a (Some account, add, pos, na) = Inr (Some info, db')"
  proof -
    from read db(2,4) have "and_then (resolve_account vm m db ?l a) (\<lambda>(acct, db1). complete_account vm mc mb db1 ?l a acct) =
        Inr (Some info, db')"
      by (simp add: db_basic_def)
    then obtain final add pos na db1 where r: "resolve_account vm m db ?l a = Inr ((final, add, pos, na), db1)"
      and c: "complete_account vm mc mb db1 ?l a (final, add, pos, na) = Inr (Some info, db')"
      by (auto simp: and_then_Inr_iff)
    then show thesis using that by (cases final) (simp_all add: complete_account_def)
  qed
  have below: "mem_below m ?l (db_tx_idx db) = rev ?h"
    using bt_below_take [OF bt assms(3)] by (simp add: mem_below_def assms(2) db(1))
  have "list_all (\<lambda>x. account_entry (snd x)) ?h" using entries by (auto simp: list_all_iff dest: in_set_takeD)
  note sums = resolve_account_settled [OF res db(3) below _ this balances_exact_take [OF exact], unfolded h]
  have n: "info_nonce info = snd acct" and b: "info_balance info =
      (if pos then sat_add (balance account) add else sat_sub (balance account) add)"
    using comp sums(2) db(1)
    by (auto simp: complete_account_def Let_def and_then_Inr_iff split: if_splits)
  have "uint (info_balance info) = uint (fst acct)"
    using sums(1) db(1) uint_lt2p [of "fst acct"] unfolding b
    by (auto simp: signed_sum_def uint_sat_add_exact uint_sat_sub_exact)
  then have "info_balance info = fst acct" unfolding word_uint_eq_iff .
  with n show ?thesis
    by (auto simp: settled settle_result_def settled_account_def Let_def split: option.splits)
qed

text \<open>
  A block of three transfers: account 7 receives, then sends, and transaction 2 reads it; account 8
  is not in storage, receives an amount and sends all of it.
\<close>

definition example_transfer :: "address \<Rightarrow> tx_env" where
  "example_transfer caller =
     \<lparr>te_caller = caller, te_gas_limit = 0, te_gas_price = 0, te_gas_priority_fee = None, te_transact_to = Create,
      te_value = 0, te_data = [], te_nonce = None, te_chain_id = None, te_access_list = [], te_blob_hashes = [],
      te_max_fee_per_blob_gas = None, te_authorization_list = None, te_optimism = optimism_fields_default,
      te_total_blob_gas = 0\<rparr>"

definition example_lazy_vm :: "(unit, nat) vm" where
  "example_lazy_vm = vm_new example_location_hash example_code (\<lambda>spec block_env tx. Finished (Inl NonceTooHigh))
     (in_memory_storage_of (\<lambda>_. 0) (evm_in_memory_new
       [7 \<mapsto> \<lparr>ea_balance = 10, ea_nonce = 2, ea_code_hash = None, ea_code = None, ea_storage = []\<rparr>] Map.empty Map.empty))
     (pevm_ethereum example_location_hash)
     \<lparr>be_number = 0, be_coinbase = 3, be_timestamp = 0, be_gas_limit = 0, be_basefee = 1, be_difficulty = 0,
      be_prevrandao = None, be_blob_excess_gas_and_price = None\<rparr>
     [example_transfer 5, example_transfer 6, example_transfer 9] LONDON"

definition example_lazy_memory :: "nat bytecode mv_memory" where
  "example_lazy_memory =
     \<lparr>data = [7 \<mapsto> [(0, Data 0 (LazyRecipient 5)), (1, Data 0 (LazySender 3))],
              8 \<mapsto> [(0, Data 0 (LazyRecipient 5)), (1, Data 0 (LazySender 5))]],
      last_locations =
        [\<lparr>ll_read = [], ll_write = [7, 8]\<rparr>, \<lparr>ll_read = [], ll_write = [7, 8]\<rparr>, empty_locations],
      lazy_addresses = [7, 8], new_bytecodes = Map.empty\<rparr>"

definition example_lazy_db :: vm_db where
  "example_lazy_db =
     \<lparr>db_tx_idx = 2, db_tx = example_transfer 9, db_from_hash = 9, db_to_hash = None, db_to_code_hash = None,
      db_is_lazy = False, db_read_set = [], db_read_accounts = Map.empty\<rparr>"

definition example_empty_result :: pexe_tx_execution_result where
  "example_empty_result =
     \<lparr>per_receipt = \<lparr>rc_status = True, rc_cumulative_gas_used = 0, rc_logs = []\<rparr>, per_state = Map.empty\<rparr>"

lemmas example_lazy_defs =
  example_lazy_vm_def vm_new_def in_memory_storage_of_def in_memory_basic_def in_memory_code_hash_def
  evm_in_memory_new_def example_location_hash_def pevm_ethereum_def ethereum_eip_161_def less_eq_spec_id_def

lemma example_lazy_ok: "mv_ok example_lazy_memory"
  by (auto simp: mv_ok_def example_lazy_memory_def data_ok_def bt_ok_def empty_locations_def entry_at_def
      entry_of_def bt_get_def less_Suc_eq split: if_splits)

lemma example_amounts:
  "sat_add (10 :: u256) 5 = 15" "sat_sub (15 :: u256) 3 = 12" "sat_add (0 :: u256) 0 = 0" "sat_mul (0 :: u256) 0 = 0"
  "sat_add (0 :: u256) 5 = 5" "sat_sub (5 :: u256) 5 = 0" "abs_diff (0 :: u256) 3 = 3" "abs_diff (0 :: u256) 5 = 5"
  "abs_diff (3 :: u256) 5 = 2" "abs_diff (5 :: u256) 5 = 0" "sat_add (10 :: u256) 2 = 12"
  by (simp_all add: sat_add_def sat_sub_def sat_mul_def abs_diff_def)

lemma example_settles:
  "evaluate_address example_lazy_vm example_lazy_memory 7 [example_empty_result, example_empty_result, example_empty_result] =
     (Some (Inr [settled_in example_lazy_vm 7 None None (15, 2) example_empty_result,
        settled_in example_lazy_vm 7 None None (12, 3) example_empty_result, example_empty_result]) :: (unit, unit) pexe_result)"
  by (simp add: evaluate_address_def example_lazy_memory_def example_lazy_defs initial_account_def settle_entry_def
      check_executed_nonce_def example_transfer_def lazy_max_fee_def example_amounts example_code_def)

lemma example_drains:
  "evaluate_address example_lazy_vm example_lazy_memory 8 [example_empty_result, example_empty_result, example_empty_result] =
     (Some (Inr [settled_in example_lazy_vm 8 None None (5, 0) example_empty_result,
        settled_in example_lazy_vm 8 None None (0, 1) example_empty_result, example_empty_result]) :: (unit, unit) pexe_result)"
  by (simp add: evaluate_address_def example_lazy_memory_def example_lazy_defs initial_account_def settle_entry_def
      check_executed_nonce_def example_transfer_def lazy_max_fee_def example_amounts example_code_def)

theorem lazy_evaluations_agree_witness:
  "\<exists>results' acct info db'.
     evaluate_address example_lazy_vm example_lazy_memory 7 [example_empty_result, example_empty_result, example_empty_result] =
       (Some (Inr results') :: (unit, unit) pexe_result) \<and>
     db_basic example_lazy_vm example_lazy_memory example_lazy_memory example_lazy_memory example_lazy_db 7 =
       Some (Inr (Some info, db')) \<and>
     per_state (results' ! 1) 7 = Some (Some acct) \<and> ea_balance acct = 12 \<and> info_balance info = 12 \<and>
     ea_nonce acct = info_nonce info"
proof -
  let ?m = "example_lazy_memory" and ?vm = "example_lazy_vm"
  let ?bt = "[(0, Data 0 (LazyRecipient 5)), (1, Data 0 (LazySender 3))]"
  have hash: "vm_hash ?vm (LocBasic 7) = 7" by (simp add: example_lazy_defs)
  have bt: "data ?m (vm_hash ?vm (LocBasic 7)) = Some ?bt" unfolding hash by (simp add: example_lazy_memory_def)
  have exact: "balances_exact (storage_start ?vm 7) ?bt"
    by (auto simp: balances_exact_def storage_start_def example_lazy_defs settled_at_def le_Suc_eq)
  obtain info db' where read: "db_basic ?vm ?m ?m ?m example_lazy_db 7 = Some (Inr (Some info, db'))" "info_balance info = 12"
    by (simp add: db_basic_def hash_basic_def example_lazy_db_def example_lazy_defs example_transfer_def
        resolve_account_def origins_of_def set_origins_def mem_below_def bt_below_def example_lazy_memory_def storage_account_def
        complete_account_def get_code_hash_def push_origin_def load_code_def example_amounts)
  have h: "hash_basic ?vm example_lazy_db 7 = Some (vm_hash ?vm (LocBasic 7))"
    by (simp add: hash_basic_def example_lazy_db_def example_lazy_defs example_transfer_def)
  have "\<exists>x. per_state ([settled_in ?vm 7 None None (15, 2) example_empty_result,
        settled_in ?vm 7 None None (12, 3) example_empty_result, example_empty_result] ! fst (?bt ! 1)) 7 = Some x \<and>
    (case x of
       Some acct \<Rightarrow> ea_balance acct = info_balance info \<and> ea_nonce acct = info_nonce info
     | None \<Rightarrow> info_balance info = 0 \<and> info_nonce info = 0)"
    by (rule lazy_evaluations_agree [OF example_lazy_ok bt _ example_settles exact _ h _ _ read(1)])
      (simp_all add: example_lazy_db_def origins_of_def)
  then show ?thesis using read example_settles by (auto split: option.splits)
qed

text \<open>
  Property C39. An account that comes into being in the block, receives and then sends on exactly what it received
  has sent a transaction: at the end of the block it has nonce 1 and no balance. A later transaction
  of the block that reads it finds no account, because the sum of its changes is zero.
\<close>

theorem drained_account_reads_missing:
  assumes "st_basic (vm_storage vm) a = Inr None"
    and "data m (vm_hash vm (LocBasic a)) = Some [(i, Data c (LazyRecipient x)), (j, Data d (LazySender x))]" "i < j"
    and "evaluate_address vm m a results = (Some (Inr results') :: ('be, 'te) pexe_result)"
    and "db_tx_idx db = Suc j" "hash_basic vm db a = Some (vm_hash vm (LocBasic a))"
      "origins_of db (vm_hash vm (LocBasic a)) = []" "\<not> db_is_lazy db"
  shows "(\<exists>acct. per_state (results' ! j) a = Some (Some acct) \<and> ea_nonce acct = 1 \<and> ea_balance acct = 0) \<and>
    (\<exists>db'. db_basic vm m mc mb db a = Some (Inr (None, db')))"
proof
  obtain ch code where "evaluate_history vm a ch code [(i, Data c (LazyRecipient x)), (j, Data d (LazySender x))] (0, 0) results
      = (Some (Inr results') :: ('be, 'te) pexe_result)"
    using assms(1,2,4) by (auto simp: evaluate_address_def and_try_Inr_iff initial_account_def)
  then have "results' = settle_all (settled_in vm a ch code) [(i, Data c (LazyRecipient x)), (j, Data d (LazySender x))] (0, 0) results
      \<and> list_all (\<lambda>(i, e). i < length results \<and> account_entry e) [(i, Data c (LazyRecipient x)), (j, Data d (LazySender x))]"
    by (rule evaluate_history_settles)
  moreover have "sat_add 0 x = x" "sat_sub x x = 0"
    using unat_bound [of x] by (simp_all add: sat_add_def sat_sub_def)
  ultimately show "\<exists>acct. per_state (results' ! j) a = Some (Some acct) \<and> ea_nonce acct = 1 \<and> ea_balance acct = 0"
    using assms(3) by (auto simp: Let_def settle_result_def settled_account_def split: option.splits)
  have "mem_below m (vm_hash vm (LocBasic a)) (Suc j) = [(j, Data d (LazySender x)), (i, Data c (LazyRecipient x))]"
    using assms(2,3) by (simp add: mem_below_def bt_below_def)
  moreover have "abs_diff 0 x = x" "abs_diff x x = 0" "sat_add 0 x = x" "(x \<le> 0) = (x = 0)"
    using unat_bound [of x] by (simp_all add: abs_diff_def sat_add_def word_le_0_iff word_gt_0)
  ultimately show "\<exists>db'. db_basic vm m mc mb db a = Some (Inr (None, db'))"
    using assms(1,5-8)
    by (cases "x = 0") (simp_all add: db_basic_def resolve_account_def storage_account_def complete_account_def Let_def)
qed

theorem drained_account_reads_missing_witness:
  "\<exists>acct results' db'.
     evaluate_address example_lazy_vm example_lazy_memory 8 [example_empty_result, example_empty_result, example_empty_result] =
       (Some (Inr results') :: (unit, unit) pexe_result) \<and>
     per_state (results' ! 1) 8 = Some (Some acct) \<and> ea_nonce acct = 1 \<and>
     db_basic example_lazy_vm example_lazy_memory example_lazy_memory example_lazy_memory example_lazy_db 8 = Some (Inr (None, db'))"
proof -
  let ?vm = example_lazy_vm
  have none: "st_basic (vm_storage ?vm) 8 = Inr None" by (simp add: example_lazy_defs)
  have hash: "vm_hash ?vm (LocBasic 8) = 8" by (simp add: example_lazy_defs)
  have bt: "data example_lazy_memory (vm_hash ?vm (LocBasic 8)) =
      Some [(0, Data 0 (LazyRecipient 5)), (1, Data 0 (LazySender 5))]"
    unfolding hash by (simp add: example_lazy_memory_def)
  have h: "hash_basic ?vm example_lazy_db 8 = Some (vm_hash ?vm (LocBasic 8))"
    by (simp add: hash_basic_def example_lazy_db_def example_lazy_defs example_transfer_def)
  have "(\<exists>acct. per_state ([settled_in ?vm 8 None None (5, 0) example_empty_result,
        settled_in ?vm 8 None None (0, 1) example_empty_result, example_empty_result] ! 1) 8 = Some (Some acct) \<and>
        ea_nonce acct = 1 \<and> ea_balance acct = 0) \<and>
    (\<exists>db'. db_basic ?vm example_lazy_memory example_lazy_memory example_lazy_memory example_lazy_db 8 = Some (Inr (None, db')))"
    by (rule drained_account_reads_missing [OF none bt _ example_drains _ h])
      (simp_all add: example_lazy_db_def origins_of_def)
  then show ?thesis using example_drains by blast
qed

end
