(* ===== verification/Engine_Finish.thy ===== *)
theory Engine_Finish
  imports Engine_Types Lazy_Accounts
begin

text \<open>
  What the end of an Ethereum block can rely on: every mark of an estimate has been written over, and
  the accounts to be evaluated hold account values only, so that finishing the block never panics.
\<close>

section \<open>Where estimates come from\<close>

text \<open>A mark is one the block began with, or stands for a value the transaction wrote.\<close>

definition marks_from :: "'code mv_memory \<Rightarrow> 'code mv_memory \<Rightarrow> bool" where
  "marks_from m0 m \<longleftrightarrow> (\<forall>l j. entry_at m l j = Some Estimate \<longrightarrow>
     j < length (last_locations m) \<and> l \<in> writes_of m j \<or> entry_at m0 l j = Some Estimate)"

lemma vm_execute_written:
  assumes ex: "vm_execute vm ms m v = Some (Inr (r, flags), m')" and ok: "mv_ok m"
  obtains db res ws where "vm_attempt vm ms (tx_idx v) = Some (Inr (db, res))"
    "vm_writes vm db res (new_bytecodes m) = Some (Inr ws, new_bytecodes m')"
    "length (last_locations m') = length (last_locations m)" "writes_of m' (tx_idx v) = written ws"
    "\<And>l. entry_at m' l (tx_idx v) = (case map_of (rev ws) l of
        Some x \<Rightarrow> Some (Data (tx_incarnation v) x)
      | None \<Rightarrow> if l \<in> writes_of m (tx_idx v) then None else entry_at m l (tx_idx v))"
proof -
  obtain db res ws codes mc new where a: "vm_attempt vm ms (tx_idx v) = Some (Inr (db, res))"
    and w: "vm_writes vm db res (new_bytecodes m) = Some (Inr ws, codes)"
    and lazy: "note_lazy db (m\<lparr>new_bytecodes := codes\<rparr>) = Some mc"
    and recd: "mv_record mc v (db_read_set db) ws = Some (m', new)"
    using vm_execute_InrE [OF ex] by metis
  note lz = note_lazy_simps [OF lazy]
  have mc: "mv_ok mc" "last_locations mc = last_locations m" "entry_at mc = entry_at m" "new_bytecodes mc = codes"
    using lz ok by (simp_all add: new_bytecodes_update)
  show thesis
  proof (rule that [OF a _ _ mv_record_locations(2) [OF mc(1) recd]])
    show "length (last_locations m') = length (last_locations m)"
      using mv_record_locations(1) [OF mc(1) recd] mc(2) by simp
    show "vm_writes vm db res (new_bytecodes m) = Some (Inr ws, new_bytecodes m')"
      using w mv_record_raw(7) [OF mc(1) recd] mc(4) by simp
    show "entry_at m' l (tx_idx v) = (case map_of (rev ws) l of
        Some x \<Rightarrow> Some (Data (tx_incarnation v) x)
      | None \<Rightarrow> if l \<in> writes_of m (tx_idx v) then None else entry_at m l (tx_idx v))" for l
      using mv_record_raw(5) [OF mc(1) recd, of l "tx_idx v"] unfolding mc(2,3) by simp
  qed
qed

lemma marks_step:
  assumes kind: "local_kind c vm ms L L'" and ok: "mv_ok (tl_memory L)" and marks: "marks_from m0 (tl_memory L)"
  shows "marks_from m0 (tl_memory L')"
  using kind
proof (cases rule: local_kind_split)
  case (scheduled x reason)
  then show ?thesis using marks mv_same [OF scheduled(5,6)] by (simp add: marks_from_def)
next
  case (recorded v r flags m)
  note ex = recorded(3)
  have len: "length (last_locations m) = length (last_locations (tl_memory L))" using vm_execute_written [OF ex ok] by metis
  have "j < length (last_locations m) \<and> l \<in> writes_of m j \<or> entry_at m0 l j = Some Estimate"
    if e: "entry_at m l j = Some Estimate" for l j
  proof (cases "j = tx_idx v")
    case True
    obtain ws where "entry_at m l (tx_idx v) = (case map_of (rev ws) l of
        Some x \<Rightarrow> Some (Data (tx_incarnation v) x)
      | None \<Rightarrow> if l \<in> writes_of (tl_memory L) (tx_idx v) then None else entry_at (tl_memory L) l (tx_idx v))"
      using vm_execute_written [OF ex ok] by metis
    then have "l \<notin> writes_of (tl_memory L) j \<and> entry_at (tl_memory L) l j = Some Estimate"
      using e True by (auto split: option.splits if_splits)
    then show ?thesis using marks unfolding marks_from_def by blast
  next
    case False
    then show ?thesis using vm_execute_others [OF ex ok False] e marks len unfolding marks_from_def by metis
  qed
  then show ?thesis by (simp add: recorded(4) marks_from_def)
next
  case (looking v \<sigma>)
  then show ?thesis using marks by simp
next
  case (converted v m)
  note raw = convert_raw [OF ok converted(3)]
  show ?thesis using marks by (auto simp: converted(4) marks_from_def raw(3,4) raw(1) split: if_splits)
qed

definition start_memory :: "('blob, 'eof) vm \<Rightarrow> 'eof bytecode mv_memory" where
  "start_memory vm = chain_build_mv_memory (vm_chain vm) (vm_block_env vm) (vm_txs vm)"

interpretation engine_marks: transition_invariant "engine_start vm" "proper_step c vm"
  "\<lambda>e. run_ok c vm e \<and> marks_from (start_memory vm) (memory e)" for vm c
proof unfold_locales
  fix e assume "engine_start vm e"
  moreover from this have "memory e = start_memory vm" by (auto simp: engine_start_def start_memory_def)
  ultimately show "run_ok c vm e \<and> marks_from (start_memory vm) (memory e)"
    using run_ok_start by (simp add: marks_from_def)
next
  fix e e' assume inv: "run_ok c vm e \<and> marks_from (start_memory vm) (memory e)" and step: "proper_step c vm e e'"
  have c: "bitflags_contains c" and s: "engine_step c vm e e'" using step by (simp_all add: proper_step_def)
  from s obtain k ms L where e': "e' = put_local e k L" and "local_step c vm ms (local_of e k) = Some L"
    by (cases rule: engine_step.cases) auto
  then have kind: "local_kind c vm ms (local_of e k) L" by (intro local_step_kind)
  have "mv_ok (memory e)" using inv past_ok unfolding run_ok_def by blast
  then have "marks_from (start_memory vm) (memory e')" using marks_step [OF kind] inv by (simp add: e')
  then show "run_ok c vm e' \<and> marks_from (start_memory vm) (memory e')" using run_ok_step [OF _ c s] inv by blast
qed

lemma marks_reachable:
  assumes "engine_start vm e0" "bitflags_contains c" "(engine_step c vm)\<^sup>*\<^sup>* e0 e"
  shows "marks_from (start_memory vm) (memory e)"
  using engine_marks.inv_reachable [OF assms(1), of c e] assms(2,3) by (simp add: proper_step_def [abs_def])

section \<open>What an execution writes\<close>

lemma pay_reward_pays: "pay_reward ws r = Inr ws' \<Longrightarrow> fst r \<in> written ws'"
proof (induction ws r arbitrary: ws' rule: pay_reward.induct)
  case (2 l v ws recipient amount)
  then show ?case by (auto simp: written_def and_then_Inr_iff split: if_splits memory_value.splits)
qed (auto simp: written_def)

lemma vm_writes_beneficiary:
  assumes "vm_writes vm db res codes = Some (Inr ws, codes')" "vm_reward_policy vm = RewardEthereum"
  shows "vm_beneficiary_location_hash vm \<in> written ws"
  using assms
  by (auto simp: vm_writes_def Option.bind_eq_Some_conv apply_rewards_def Let_def and_then_Inr_iff dest: pay_reward_pays)

section \<open>Finishing\<close>

lemma evaluate_history_total:
  assumes "list_all (\<lambda>(i, e). i < length (vm_txs vm) \<and> account_entry e) h" "length results = length (vm_txs vm)"
  shows "\<exists>x. evaluate_history vm a ch code h acct results = (Some x :: ('be, 'te) pexe_result) \<and>
    (\<forall>rs. x = Inr rs \<longrightarrow> length rs = length results)"
  using assms
proof (induction h arbitrary: acct results)
  case (Cons x h)
  obtain i e where x: "x = (i, e)" by (cases x)
  have i: "i < length (vm_txs vm)" "i < length results" and e: "account_entry e" and h: "list_all (\<lambda>(i, e). i < length (vm_txs vm) \<and> account_entry e) h"
    using Cons.prems by (simp_all add: x)
  have "settle_entry (vm_txs vm ! i) acct e \<noteq> (None :: (('be, 'te) pexe_error + u256 \<times> u64) option)"
    using e by (cases e rule: account_entry.cases) (simp_all add: settle_entry_def)
  then obtain y :: "('be, 'te) pexe_error + u256 \<times> u64" where y: "settle_entry (vm_txs vm ! i) acct e = Some y" by blast
  show ?case
  proof (cases y)
    case (Inl err)
    then show ?thesis using i y by (simp add: x)
  next
    case (Inr acct')
    let ?r = "results[i := settle_result (chain_eip_161 (vm_chain vm) (vm_spec_id vm)) a ch code acct' (results ! i)]"
    have "\<exists>x. evaluate_history vm a ch code h acct' ?r = (Some x :: ('be, 'te) pexe_result) \<and> (\<forall>rs. x = Inr rs \<longrightarrow> length rs = length ?r)"
      by (rule Cons.IH [OF h]) (use Cons.prems(2) in simp)
    then show ?thesis using i y Inr
      by (cases "check_executed_nonce i (vm_txs vm ! i) a (snd acct') :: ('be, 'te) pexe_error + unit") (auto simp: x)
  qed
qed simp

definition accounts_ready :: "('blob, 'eof) vm \<Rightarrow> 'eof bytecode mv_memory \<Rightarrow> address \<Rightarrow> bool" where
  "accounts_ready vm m a \<longleftrightarrow>
     (\<forall>i e. entry_at m (vm_hash vm (LocBasic a)) i = Some e \<longrightarrow> i < length (vm_txs vm) \<and> account_entry e)"

lemma evaluate_address_total:
  assumes "mv_ok m" "accounts_ready vm m a" "length results = length (vm_txs vm)"
  shows "\<exists>x. evaluate_address vm m a results = (Some x :: ('be, 'te) pexe_result) \<and> (\<forall>rs. x = Inr rs \<longrightarrow> length rs = length results)"
proof (cases "data m (vm_hash vm (LocBasic a))")
  case None
  then show ?thesis by (simp add: evaluate_address_def)
next
  case (Some h)
  have "bt_ok h" using mv_okD(1) [OF assms(1)] Some by (simp add: data_ok_def)
  then have "entry_at m (vm_hash vm (LocBasic a)) i = Some e" if "(i, e) \<in> set h" for i e
    using that Some bt_ok_distinct [of h] by (auto simp: entry_at_def entry_of_def bt_get_def intro: map_of_is_SomeI)
  then have ready: "list_all (\<lambda>(i, e). i < length (vm_txs vm) \<and> account_entry e) h"
    using assms(2) by (auto simp: list_all_iff accounts_ready_def)
  note total = evaluate_history_total [OF ready assms(3)]
  show ?thesis
  proof (cases "st_code_hash (vm_storage vm) a")
    case (Inl err)
    then show ?thesis using Some by (simp add: evaluate_address_def)
  next
    case (Inr ch)
    let ?code = "case ch of Some h \<Rightarrow> Some (map_error PexeStorageError (st_code_by_hash (vm_storage vm) h)) | None \<Rightarrow> Some (Inr None)"
    obtain code :: "('be, 'te) pexe_error + evm_code option" where "?code = Some code"
      by (cases ch) auto
    then show ?thesis using Some Inr total [where ?'be = 'be and ?'te = 'te] by (cases code) (auto simp: evaluate_address_def)
  qed
qed

lemma evaluate_addresses_total:
  assumes "mv_ok m" "\<forall>a \<in> set as. accounts_ready vm m a" "length results = length (vm_txs vm)"
  shows "evaluate_addresses vm m as results \<noteq> (None :: ('be, 'te) pexe_result)"
  using assms(2,3)
proof (induction "as" arbitrary: results)
  case (Cons a "as")
  obtain x where x: "evaluate_address vm m a results = (Some x :: ('be, 'te) pexe_result)" "\<forall>rs. x = Inr rs \<longrightarrow> length rs = length results"
    using evaluate_address_total [OF assms(1) _ Cons.prems(2), of a] Cons.prems(1) by fastforce
  show ?case
  proof (cases x)
    case (Inr rs)
    then show ?thesis using x Cons by simp
  qed (use x in simp)
qed simp

section \<open>The end of an Ethereum block\<close>

text \<open>A lazily updated account does not share its location's hash with a code or a slot that was written.\<close>

definition lazy_apart :: "('blob, 'eof) vm \<Rightarrow> 'eof engine \<Rightarrow> bool" where
  "lazy_apart vm e \<longleftrightarrow> (\<forall>a \<in> set (lazy_addresses (memory e)). \<forall>ms i db res.
     observed (past e) ms \<longrightarrow> vm_attempt vm ms i = Some (Inr (db, res)) \<longrightarrow>
     (\<forall>y \<in> outcome_locations res. vm_hash vm y = vm_hash vm (LocBasic a) \<longrightarrow> is_basic y))"

lemma final_entry:
  assumes run: "engine_start vm e0" "bitflags_contains c" "(engine_step c vm)\<^sup>*\<^sup>* e0 e"
    and fin: "all_exited (workers e)" "pexe_abort_reason (outcome e) = None"
    and vm: "vm = vm_new fx R transact storage (pevm_ethereum fx) block_env txs spec_id"
    and x: "entry_at (memory e) l i = Some x"
  obtains ms db res ws k y where "i < length (vm_txs vm)" "observed (past e) ms" "vm_attempt vm ms i = Some (Inr (db, res))"
    "writes_typed vm (outcome_locations res \<union> LocBasic ` {be_coinbase block_env}) ws" "(l, y) \<in> set ws" "x = Data k y"
proof -
  note ended = exited_run [OF run fin]
  note marks = marks_reachable [OF run]
  have start: "entry_at (start_memory vm) l i = Some Estimate \<Longrightarrow> l = vm_beneficiary_location_hash vm \<and> i < length (vm_txs vm)"
    by (simp add: vm vm_new_def start_memory_def pevm_ethereum_def ethereum_entry split: if_splits)
  have i: "i < length (vm_txs vm)"
  proof (cases x)
    case Estimate
    then show ?thesis using marks x start ended(5) unfolding marks_from_def by metis
  qed (use mv_okD(4) [OF ended(4)] x ended(5) in auto)
  obtain r ms m0 flags m1 where
    ex: "vm_execute vm ms m0 \<lparr>tx_idx = i, tx_incarnation = inc (sched (workers e)) i\<rparr> = Some (Inr (r, flags), m1)"
    and obs: "observed (past e) ms" and m0: "mv_ok m0"
    and kept: "last_locations (memory e) ! i = last_locations m1 ! i" "entry_at (memory e) l i = entry_at m1 l i"
    using ended(8) [OF i] unfolding produced_def by auto
  obtain db res ws where a: "vm_attempt vm ms i = Some (Inr (db, res))"
    and w: "vm_writes vm db res (new_bytecodes m0) = Some (Inr ws, new_bytecodes m1)" "writes_of m1 i = written ws"
    and e: "entry_at m1 l i = (case map_of (rev ws) l of
        Some x \<Rightarrow> Some (Data (inc (sched (workers e)) i) x)
      | None \<Rightarrow> if l \<in> writes_of m0 i then None else entry_at m0 l i)"
    using vm_execute_written [OF ex m0] by (metis tx_version.select_convs)
  have policy: "vm_reward_policy vm = RewardEthereum" by (simp add: vm vm_new_def pevm_ethereum_def)
  have paid: "rewards_paid_to {be_coinbase block_env} vm"
    by (simp add: rewards_paid_to_def reward_locations_def vm vm_new_def pevm_ethereum_def)
  have typed: "writes_typed vm (outcome_locations res \<union> LocBasic ` {be_coinbase block_env}) ws"
    using vm_writes_typed [OF paid w(1)] by simp
  show thesis
  proof (cases "map_of (rev ws) l")
    case (Some y)
    then have "(l, y) \<in> set ws" by (auto dest: map_of_SomeD)
    then show thesis using that [OF i obs a typed] e kept(2) x Some by simp
  next
    case None
    then have l: "l \<notin> written ws" using written_iff by metis
    have "entry_at m0 l i = Some x \<and> l \<notin> writes_of m0 i" using None e kept(2) x by (simp split: if_splits)
    then have "x = Estimate" using mv_okD(5) [OF m0, of l i] by (cases x) auto
    then have "l = vm_beneficiary_location_hash vm"
      using marks x l w(2) kept(1) start unfolding marks_from_def by metis
    then show thesis using vm_writes_beneficiary [OF w(1) policy] l by simp
  qed
qed

lemma finish_total:
  assumes run: "engine_start vm e0" "bitflags_contains c" "(engine_step c vm)\<^sup>*\<^sup>* e0 e"
    and exited: "all_exited (workers e)"
    and vm: "vm = vm_new fx R transact storage (pevm_ethereum fx) block_env txs spec_id" and apart: "lazy_apart vm e"
    and sequential: "sequential \<noteq> None"
  shows "fst (finish_parallel sequential vm (memory e) (outcome e)) \<noteq> (None :: ('be, 'te) pexe_result)"
proof (cases "pexe_abort_reason (outcome e)")
  case (Some reason)
  then show ?thesis using sequential by (cases reason) (simp_all add: finish_parallel_def)
next
  case None
  note ended = exited_run [OF run exited None]
  have slots: "i < length (execution_results (outcome e)) \<and> execution_results (outcome e) ! i \<noteq> None" if "i < length (vm_txs vm)" for i
    using ended(1,2) ended(8) [OF that] that by (auto simp: run_ok_def engine_ok_def outcome_inv_def)
  obtain results rest where take: "take_results (execution_results (outcome e)) 0 (length (vm_txs vm)) 0 = Some (results, rest)"
    "length results = length (vm_txs vm)"
    using take_results_total [of 0 "length (vm_txs vm)" "execution_results (outcome e)" 0] slots by auto
  have "accounts_ready vm (memory e) a" if a: "a \<in> set (lazy_addresses (memory e))" for a
    unfolding accounts_ready_def
  proof (intro allI impI)
    fix i x assume "entry_at (memory e) (vm_hash vm (LocBasic a)) i = Some x"
    from final_entry [OF run exited None vm this] obtain ms db res ws k y where
      i: "i < length (vm_txs vm)" and obs: "observed (past e) ms" "vm_attempt vm ms i = Some (Inr (db, res))"
      and w: "writes_typed vm (outcome_locations res \<union> LocBasic ` {be_coinbase block_env}) ws" "(vm_hash vm (LocBasic a), y) \<in> set ws"
        "x = Data k y"
      by metis
    obtain z where z: "z \<in> outcome_locations res \<union> LocBasic ` {be_coinbase block_env}" "vm_hash vm (LocBasic a) = vm_hash vm z" "has_type z y"
      using bspec [OF w(1) [unfolded writes_typed_def] w(2)] by auto
    have "is_basic z" using apart a obs z(1,2) unfolding lazy_apart_def by force
    then have "account_entry (Data 0 y)" using z(3) by (cases z; cases y) simp_all
    then show "i < length (vm_txs vm) \<and> account_entry x" using i w(3) by (cases y) simp_all
  qed
  moreover have "mv_ok (fst (consume_lazy_addresses (memory e)))"
    using ended(4) by (simp add: mv_ok_def entry_at_def consume_lazy_addresses_def)
  moreover have "accounts_ready vm (fst (consume_lazy_addresses (memory e))) a \<longleftrightarrow> accounts_ready vm (memory e) a" for a
    by (simp add: accounts_ready_def entry_at_def consume_lazy_addresses_def)
  ultimately have "evaluate_addresses vm (fst (consume_lazy_addresses (memory e))) (lazy_addresses (memory e)) results
      \<noteq> (None :: ('be, 'te) pexe_result)"
    using take(2) by (intro evaluate_addresses_total) auto
  then show ?thesis using None take(1) by (simp add: finish_parallel_def consume_lazy_addresses_def)
qed

section \<open>Properties\<close>

text \<open>
  Property C4. Finishing an Ethereum block never panics. When all threads have left, in whatever
  interleaving, what the parallel path does next gives an error or results: no result is missing, and
  evaluating the lazily updated accounts meets only entries of transactions of the block that hold
  account values, never an estimate left over, a code or a slot, on which the code is unreachable. The
  location of a lazily updated account does not share its hash with a code or slot written.
\<close>

theorem ethereum_block_finishes:
  assumes "engine_start vm e0" "bitflags_contains c" "(engine_step c vm)\<^sup>*\<^sup>* e0 e" "all_exited (workers e)"
    and "vm = vm_new fx R transact storage (pevm_ethereum fx) block_env txs spec_id" "lazy_apart vm e"
    and "sequential \<noteq> None"
  shows "fst (finish_parallel sequential vm (memory e) (outcome e)) \<noteq> (None :: ('be, 'te) pexe_result)"
  by (rule finish_total [OF assms])

theorem ethereum_block_finishes_witness:
  "\<exists>e. (engine_step (\<lambda>a b. a AND b = b) example_one_vm)\<^sup>*\<^sup>* example_one_start e \<and> all_exited (workers e) \<and>
     lazy_addresses (memory e) = [3] \<and>
     fst (finish_parallel (Some (Inr [])) example_one_vm (memory e) (outcome e)) \<noteq> (None :: (unit, unit) pexe_result)"
proof -
  obtain e where run: "(engine_step (\<lambda>a b. a AND b = b) example_one_vm)\<^sup>*\<^sup>* example_one_start e" "all_exited (workers e)"
    and m: "memory e = example_one_memory"
    by (rule example_one_end)
  have lazy: "lazy_addresses (memory e) = [3]" by (simp add: m example_one_memory_def)
  have "vm_hash example_one_vm = example_hash" by (simp add: example_one_vm_def vm_new_def)
  then have "lazy_apart example_one_vm e"
    using example_one_outcome by (fastforce simp: lazy_apart_def lazy)
  from ethereum_block_finishes [OF example_one_started bitflags_exists run example_one_vm_def this, of "Some (Inr [])"] run lazy
  show ?thesis by blast
qed

end
