(* ===== verification/Spec2Isabelle.thy ===== *)
theory Spec2Isabelle
  imports Perpdex_Positions Hybrid Engine_Serial Engine_Finish
begin

text \<open>
  A verification library for the parallel executor of this repository, the crate
  \<^verbatim>\<open>src/crates/pevm\<close>. Paths below are relative to \<^verbatim>\<open>src/crates/pevm/src\<close>.

  \<^bold>\<open>The program.\<close> A block of transactions is executed optimistically by several threads (Block-STM).
  \<^verbatim>\<open>pexe.rs\<close> starts the threads; each asks \<^verbatim>\<open>scheduler.rs\<close> for a task. An execution
  task runs the transaction in \<^verbatim>\<open>vm.rs\<close>, whose database answers the reads of revm from the
  shared multi-version memory (\<^verbatim>\<open>mv_memory.rs\<close>), or from storage where no lower transaction
  has written, and notes where every answer came from; what the transaction writes is recorded in
  the memory under its version. A validation task checks that the noted origins are still what a
  read would find; if not, the writes are marked as estimates and the transaction runs again. When
  all are validated the results are collected and the lazily updated accounts (the beneficiary, plain
  transfers) are evaluated. Beside it stand the PerpDex virtual machine with its own transactions,
  state, storage and executor (\<^verbatim>\<open>perpdex/\<close>), and the encoding of its transactions in Ethereum
  ones (\<^verbatim>\<open>hybrid.rs\<close>).

  \<^bold>\<open>Theories, from the bottom.\<close>

  \<^item> \<open>Pevm_Prelude\<close>: machine types, saturating arithmetic, big-endian bytes, collections of rules.
    \<open>Transition_System\<close>: the locales of invariants of a step relation, interpreted for the workers and, one invariant after the other, for the engine.
    \<open>Ordered_Map\<close>: \<^verbatim>\<open>BTreeMap\<close> as a sorted list, and the locale of what its clients rely on.
  \<^item> \<open>Core_Types\<close>: the types of \<^verbatim>\<open>lib.rs\<close>, its flags and pass-through hashers.
  \<^item> \<open>Mv_Memory\<close>: \<^verbatim>\<open>MvMemory\<close>, one definition per method (\<open>mv_record\<close>, \<open>validate_read_locations\<close>,
    \<open>convert_writes_to_estimates\<close>, \<open>consume_lazy_addresses\<close>). The invariant \<open>mv_ok\<close> ties the entries
    of a transaction to its last write set. Lemmas: what recording leaves, when validation holds, that an
    abort invalidates every reader and a higher transaction none.
  \<^item> \<open>Scheduler\<close>: \<^verbatim>\<open>Scheduler\<close>, one definition per method and per critical section, with what
    each does to the statuses and the two indices. \<open>next_task\<close> scans with fuel; \<open>scan_left\<close>, the indices left to
    scan, is enough of it.
  \<^item> \<open>Scheduler_Machine\<close>: the worker threads over one scheduler as a step relation. Each load, atomic
    update and critical section is a step; the answers of the virtual machine are free. Its invariant
    gives exclusive execution, no fault and no lost work, and that all is validated in the end.
  \<^item> \<open>Evm_Storage\<close>, \<open>Evm_Types\<close>: accounts, codes, the trait \<^verbatim>\<open>Storage\<close> (a record, its contract a
    locale) with its wrapper for revm and the in-memory storage (\<^verbatim>\<open>storage.rs\<close>,
    \<^verbatim>\<open>storage/in_memory.rs\<close>); environments (\<^verbatim>\<open>compat.rs\<close>), results of \<^verbatim>\<open>vm.rs\<close>.
  \<^item> \<open>Chain\<close>: \<^verbatim>\<open>chain.rs\<close> as a record of the trait's methods, Ethereum and Optimism its two values:
    forks, environments, receipt roots, rewards, and the initial memory, whose contract is a locale.
  \<^item> \<open>Vm_Database\<close>, \<open>Vm_Execute\<close>: \<^verbatim>\<open>VmDb\<close> and \<^verbatim>\<open>Vm::execute\<close> of \<^verbatim>\<open>vm.rs\<close>.
    \<open>Vm_Replay\<close>: a transaction whose origins hold in a memory does there what it did when it ran, whatever
    its reads met on the way.
  \<^item> \<open>Pexe_Block\<close>: what \<^verbatim>\<open>pexe.rs\<close> does around the threads: the choice of a path, the sequential path,
    the collection of results and the evaluation of lazy accounts. \<open>Lazy_Accounts\<close>: that evaluation, which
    goes forward, against the one of \<^verbatim>\<open>VmDb::basic\<close>, which goes back, both through a sum over
    the integers.
  \<^item> \<open>Engine\<close>: the threads, the memory, the virtual machine and the results together
    (\<^verbatim>\<open>try_execute\<close>, \<^verbatim>\<open>try_validate\<close>); it refines \<open>Scheduler_Machine\<close>. \<open>Status_Changes\<close>: the
    seven ways a step changes statuses. \<open>Engine_Invariant\<close>: a read that does not hold is one somebody
    will still look at. \<open>Engine_Validation\<close>: at the end all reads hold. \<open>Engine_History\<close>: versions are
    recorded once, and every result comes from an execution of the run. \<open>Engine_Results\<close>: results repeat
    on the final memory. \<open>Engine_Serial\<close>: the block is serializable, the main result of the library.
    \<open>Engine_Conflict\<close>: a complete run in which a transfer from storage is aborted and executed again as a lazy one.
    \<open>Engine_Types\<close>: a location only ever holds values of its kind. \<open>Engine_Finish\<close>: on Ethereum no
    estimate is left at the end, so that finishing the block cannot panic.
  \<^item> \<open>Partition\<close> (\<^verbatim>\<open>perpdex/state_traits.rs\<close>), \<open>Perpdex_Sets\<close> (\<^verbatim>\<open>perpdex/executor_traits.rs\<close>),
    \<open>Perpdex_Types\<close>, \<open>Perpdex_Storage\<close>, \<open>Perpdex_Executor\<close>: the PerpDex virtual machine, one definition per
    function. \<open>Signed\<close> and \<open>Perpdex_Positions\<close>: its position arithmetic over the integers. \<open>Hybrid\<close>: decoding,
    with its panics, and encoding.

  \<^bold>\<open>Conventions.\<close> Integers have their width where the code can wrap or saturate (\<^verbatim>\<open>U256\<close>, \<^verbatim>\<open>u64\<close>,
  \<^verbatim>\<open>i128\<close> are words; the build is the release one, in which native arithmetic wraps and debug assertions
  are gone); indices into a block are naturals, with the wrap-around of \<^verbatim>\<open>usize\<close> written out where
  the code adds to them. An error is the left of a sum; a panic, and an index out of range where
  the code does not check it, is \<^const>\<open>None\<close>. Hash maps are maps; where the code iterates over one, it
  is an association list.

  \<^bold>\<open>Steps.\<close> A critical section under the mutex of one transaction is one step of the threads, as is an
  atomic operation. Recording an execution and marking the writes of an aborted one are one step each,
  though the code goes through the locations one by one; a validation checks its locations in separate
  steps. So no thread meets a memory in the middle of a recording; this, and that the atomics, relaxed in the
  code, are sequentially consistent here, is where the step relation is coarser than the machine. In
  return the reads of an execution are not bound to the present: each may meet any memory of the past, in
  their order.

  \<^bold>\<open>Parameters and hypotheses.\<close> Code outside the repository is an argument: revm is a tree of the reads a
  transaction makes with what it does with each answer (\<open>evm_run\<close>), the sequential path's \<^verbatim>\<open>CacheDB\<close> a
  record of three functions, the hash of a location, \<^verbatim>\<open>contains\<close> of the crate bitflags, the methods
  of alloy's transactions, trie and RLP functions. The theorems on whole runs assume that locations a
  transaction reads do not share a hash (\<open>run_injective\<close>), that a code hash determines its code
  (\<open>run_coded_by\<close>), that revm hands over the code of an account it creates (\<open>run_carries_codes\<close>), that locations of
  different kinds do not share a hash (\<open>kinds_apart\<close>, \<open>lazy_apart\<close>), and that the run has at most
  \<open>2 ^ 64\<close> steps, so that incarnation numbers do not wrap. The hypotheses of each theorem are shown to hold
  together in a complete run of an example block.

  \<^bold>\<open>Lazy transfers.\<close> Whether a transfer to an account without code is evaluated lazily is a race in the
  code: \<^verbatim>\<open>VmDb::new\<close> asks whether the shared memory has a place for the sender or the recipient
  yet, which any thread may have made, and the answer shows in what is written. The theorems that compare
  executions (\<open>Engine_Results\<close>, \<open>Engine_Serial\<close>) therefore let these two tests, and nothing else, meet memories of
  the run (\<open>probing\<close>), so that each transfer is compared with itself evaluated the same way, and need no
  assumption on who was lazy. In the run of \<open>Engine_Conflict\<close> the race goes both ways.

  \<^bold>\<open>Not modelled.\<close> \<^verbatim>\<open>storage/rpc.rs\<close> and \<^verbatim>\<open>src/bins/fetch\<close> only do network and file input and
  output. \<^verbatim>\<open>pevm_bak.rs\<close> is a former version of \<^verbatim>\<open>pexe.rs\<close> no module declares. Of the chains,
  \<^verbatim>\<open>get_handler\<close> and, of \<^verbatim>\<open>vm.rs\<close>, \<^verbatim>\<open>build_evm\<close> only assemble objects of revm; the mock
  transactions serve tests; \<^verbatim>\<open>AsyncDropper\<close> only frees memory on another thread. That some thread is scheduled
  again and again is not assumed, so what is shown of progress is that work is never lost and that no
  state is stuck, not that a block ends: a transaction may read inconsistently for ever in an unfair run.
\<close>

end
